(* ===== verification/Prelude.thy ===== *)
theory Prelude
  imports Main "HOL-Library.Word"
begin

text \<open>
  Shared vocabulary of the development: the faults a C execution can run into, the result
  type of operations that may fault with its sequencing operator and proof rules, the bounded
  \<open>for\<close> loop of the kernel's table scans, the 32-bit \<open>int\<close> range and the generic lemmas on
  lists and updates that every component uses.
\<close>

unbundle bit_operations_syntax

named_theorems frame \<open>which fields an operation leaves alone\<close>

named_theorems inv_intro \<open>preservation of a component invariant by one operation\<close>

section \<open>Faults and results\<close>

text \<open>
  What C leaves undefined is a value of the model, never a silently chosen result: a read
  through a null pointer, a call of a null function pointer, a signed \<open>int\<close> computation that
  leaves the 32-bit range, and an array access out of bounds.
\<close>

datatype fault = NullDeref | NullCall | SignedOverflow | OutOfBounds

type_synonym 'a res = "fault + 'a"

definition bindr :: "'a res \<Rightarrow> ('a \<Rightarrow> 'b res) \<Rightarrow> 'b res" where
  "bindr m f = (case m of Inl e \<Rightarrow> Inl e | Inr x \<Rightarrow> f x)"

lemma bindr_Inl [simp]: "bindr (Inl e) f = Inl e"
  by (simp add: bindr_def)

lemma bindr_Inr [simp]: "bindr (Inr x) f = f x"
  by (simp add: bindr_def)

lemma bindr_eq_Inr: "bindr m f = Inr y \<longleftrightarrow> (\<exists>x. m = Inr x \<and> f x = Inr y)"
  by (cases m) auto

lemma bindr_eq_Inl: "bindr m f = Inl e \<longleftrightarrow> m = Inl e \<or> (\<exists>x. m = Inr x \<and> f x = Inl e)"
  by (cases m) auto

lemma bindr_assoc: "bindr (bindr m f) g = bindr m (\<lambda>x. bindr (f x) g)"
  by (cases m) auto

text \<open>
  Total correctness of one computation: it does not fault, and its result satisfies \<open>P\<close>.
\<close>

definition returns :: "'a res \<Rightarrow> ('a \<Rightarrow> bool) \<Rightarrow> bool" where
  "returns m P \<longleftrightarrow> (\<exists>x. m = Inr x \<and> P x)"

lemma returns_Inr [simp]: "returns (Inr x) P = P x"
  by (simp add: returns_def)

lemma returns_Inl [simp]: "\<not> returns (Inl e) P"
  by (simp add: returns_def)

lemma returns_bindr: "returns (bindr m f) P \<longleftrightarrow> returns m (\<lambda>x. returns (f x) P)"
  by (cases m) auto

lemma returns_mono: "returns m P \<Longrightarrow> (\<And>x. P x \<Longrightarrow> Q x) \<Longrightarrow> returns m Q"
  by (auto simp: returns_def)

lemma returns_bindrI:
  "returns m P \<Longrightarrow> (\<And>x. P x \<Longrightarrow> returns (f x) Q) \<Longrightarrow> returns (bindr m f) Q"
  by (auto simp: returns_bindr elim: returns_mono)

lemma returnsD: "returns m P \<Longrightarrow> m = Inr x \<Longrightarrow> P x"
  by simp

lemma returnsE:
  assumes "returns m P"
  obtains x where "m = Inr x" and "P x"
  using assms by (auto simp: returns_def)

section \<open>Bounded loops\<close>

text \<open>
  \<open>for_range i n body\<close> is \<open>for (k = i; k < i + n; k++) body\<close>, left at the first fault.
\<close>

primrec for_range :: "nat \<Rightarrow> nat \<Rightarrow> (nat \<Rightarrow> 's \<Rightarrow> 's res) \<Rightarrow> 's \<Rightarrow> 's res" where
  "for_range i 0 body s = Inr s"
| "for_range i (Suc n) body s = bindr (body i s) (for_range (Suc i) n body)"

lemma for_range_returns:
  assumes "P i s"
    and "\<And>k t. i \<le> k \<Longrightarrow> k < i + n \<Longrightarrow> P k t \<Longrightarrow> returns (body k t) (P (Suc k))"
  shows "returns (for_range i n body s) (P (i + n))"
  using assms
proof (induction n arbitrary: i s)
  case 0
  then show ?case by simp
next
  case (Suc n)
  have "returns (body i s) (P (Suc i))"
    using Suc.prems by simp
  then show ?case
  proof (unfold for_range.simps, rule returns_bindrI)
    fix t assume "P (Suc i) t"
    then have "returns (for_range (Suc i) n body t) (P (Suc i + n))"
      using Suc.prems(2) by (intro Suc.IH) auto
    then show "returns (for_range (Suc i) n body t) (P (i + Suc n))"
      by simp
  qed
qed

lemma for_range_inv:
  assumes "for_range i n body s = Inr s'"
    and "P i s"
    and "\<And>k t t'. i \<le> k \<Longrightarrow> k < i + n \<Longrightarrow> P k t \<Longrightarrow> body k t = Inr t' \<Longrightarrow> P (Suc k) t'"
  shows "P (i + n) s'"
  using assms
proof (induction n arbitrary: i s)
  case 0
  then show ?case by simp
next
  case (Suc n)
  from Suc.prems(1) obtain t where t: "body i s = Inr t" "for_range (Suc i) n body t = Inr s'"
    by (auto simp: bindr_eq_Inr)
  have "P (Suc i) t"
    using Suc.prems t by auto
  then have "P (Suc i + n) s'"
    using t Suc.prems(3) by (intro Suc.IH) auto
  then show ?case by simp
qed

text \<open>The same loop for a body that cannot fault.\<close>

primrec loop_range :: "nat \<Rightarrow> nat \<Rightarrow> (nat \<Rightarrow> 's \<Rightarrow> 's) \<Rightarrow> 's \<Rightarrow> 's" where
  "loop_range i 0 body s = s"
| "loop_range i (Suc n) body s = loop_range (Suc i) n body (body i s)"

lemma loop_range_inv:
  assumes "P i s"
    and "\<And>k t. i \<le> k \<Longrightarrow> k < i + n \<Longrightarrow> P k t \<Longrightarrow> P (Suc k) (body k t)"
  shows "P (i + n) (loop_range i n body s)"
  using assms
proof (induction n arbitrary: i s)
  case 0
  then show ?case by simp
next
  case (Suc n)
  have "P (Suc i + n) (loop_range (Suc i) n body (body i s))"
    using Suc.prems by (intro Suc.IH) auto
  then show ?case by simp
qed

section \<open>The C type int\<close>

definition INT_MAX :: int where "INT_MAX = 2147483647"

definition INT_MIN :: int where "INT_MIN = - 2147483648"

definition in_int :: "int \<Rightarrow> bool" where
  "in_int x \<longleftrightarrow> INT_MIN \<le> x \<and> x \<le> INT_MAX"

text \<open>The value of a signed expression: its mathematical value, or a fault outside the range.\<close>

definition c_int :: "int \<Rightarrow> int res" where
  "c_int x = (if in_int x then Inr x else Inl SignedOverflow)"

text \<open>The implementation-defined conversion \<open>(int)x\<close> of a wider integer: two's complement.\<close>

definition to_int :: "int \<Rightarrow> int" where
  "to_int x = sint (word_of_int x :: 32 word)"

lemma c_int_ok [simp]: "in_int x \<Longrightarrow> c_int x = Inr x"
  by (simp add: c_int_def)

lemma c_int_eq_Inr [simp]: "c_int x = Inr y \<longleftrightarrow> in_int x \<and> y = x"
  by (auto simp: c_int_def)

lemma to_int_id: "in_int x \<Longrightarrow> to_int x = x"
  by (simp add: to_int_def in_int_def INT_MIN_def INT_MAX_def sint_sbintrunc'
      signed_take_bit_int_eq_self)

lemmas int_range_defs = in_int_def INT_MIN_def INT_MAX_def

section \<open>Sets and lists\<close>

lemma diff_self_empty: "A - B = A \<Longrightarrow> B \<subseteq> A \<Longrightarrow> B = {}"
  by blast

lemma nth_update_other [simp]: "i \<noteq> j \<Longrightarrow> xs[i := x] ! j = xs ! j"
  by simp

lemma take_update_le: "n \<le> i \<Longrightarrow> take n (xs[i := x]) = take n xs"
  by simp

lemma take_Suc_update: "n < length xs \<Longrightarrow> take (Suc n) (xs[n := x]) = take n xs @ [x]"
  by (simp add: take_Suc_conv_app_nth)

lemma set_take_conv: "n \<le> length xs \<Longrightarrow> x \<in> set (take n xs) \<longleftrightarrow> (\<exists>i<n. xs ! i = x)"
  by (auto simp: in_set_conv_nth)

text \<open>The first element of greatest key, scanning from the left and replacing on strictly
  greater keys only, as the kernel's scans do.\<close>

fun first_max :: "('a \<Rightarrow> int) \<Rightarrow> 'a list \<Rightarrow> 'a option" where
  "first_max f [] = None"
| "first_max f (x # xs) =
     (case first_max f xs of None \<Rightarrow> Some x
      | Some y \<Rightarrow> if f x \<ge> f y then Some x else Some y)"

lemma first_max_None [simp]: "first_max f xs = None \<longleftrightarrow> xs = []"
  by (cases xs) (auto split: option.splits)

lemma first_max_Some_ge: "first_max f xs = Some x \<Longrightarrow> y \<in> set xs \<Longrightarrow> f y \<le> f x"
  by (induction xs arbitrary: x) (fastforce split: option.splits if_splits)+

lemma first_max_in: "first_max f xs = Some x \<Longrightarrow> x \<in> set xs"
  by (induction xs arbitrary: x) (auto split: option.splits if_splits)

lemma first_max_split:
  "first_max f xs = Some x \<Longrightarrow>
   \<exists>ys zs. xs = ys @ x # zs \<and> (\<forall>y\<in>set ys. f y < f x) \<and> (\<forall>z\<in>set zs. f z \<le> f x)"
proof (induction xs arbitrary: x)
  case Nil
  then show ?case by simp
next
  case (Cons a xs)
  show ?case
  proof (cases "first_max f xs")
    case None
    with Cons.prems have "a # xs = [] @ x # []" by simp
    then show ?thesis by fastforce
  next
    case (Some y)
    show ?thesis
    proof (cases "f a \<ge> f y")
      case True
      then have "x = a" using Cons.prems Some by simp
      moreover have "\<forall>z\<in>set xs. f z \<le> f a"
        using first_max_Some_ge [OF Some] True by fastforce
      ultimately show ?thesis by (intro exI [of _ "[]"] exI [of _ xs]) simp
    next
      case False
      then have "x = y" using Cons.prems Some by simp
      moreover obtain ys zs where "xs = ys @ y # zs" "\<forall>u\<in>set ys. f u < f y" "\<forall>z\<in>set zs. f z \<le> f y"
        using Cons.IH [OF Some] by blast
      ultimately show ?thesis using False by (intro exI [of _ "a # ys"] exI [of _ zs]) auto
    qed
  qed
qed

lemma first_max_append:
  "first_max f (xs @ [y]) =
     (case first_max f xs of None \<Rightarrow> Some y
      | Some x \<Rightarrow> if f y > f x then Some y else Some x)"
  by (induction xs) (auto split: option.splits)

lemma first_max_cong:
  "(\<And>x. x \<in> set xs \<Longrightarrow> f x = g x) \<Longrightarrow> first_max f xs = first_max g xs"
proof (induction xs)
  case Nil
  then show ?case by simp
next
  case (Cons a xs)
  then have "first_max f xs = first_max g xs" by simp
  then show ?case
    using Cons.prems by (auto split: option.splits dest: first_max_in)
qed

end
