(* ===== verification/Memory_Pool.thy ===== *)
theory Memory_Pool
  imports Prelude
begin

text \<open>
  The fixed-size block allocator of \<open>memory.h\<close> and \<open>memory.c\<close>: sixteen blocks of 32 bytes, a
  free list threaded through the first four bytes of the free blocks, and a bitmap against
  double frees. Storage is kept at the level of bytes, so that the \<open>memcpy\<close> of a link and a
  client's stores into its block meet in the same memory. A \<open>void *\<close> is its address; 0 is the
  null pointer, and the address the linker gave \<open>g_pool_storage\<close> is a field of the state that
  no operation writes. The one line an operation logs is returned beside its result.
\<close>

section \<open>Links in bytes\<close>

text \<open>
  \<open>memcpy\<close> of an \<open>int\<close>: four bytes, two's complement, in the byte order of a little-endian
  host.
\<close>

definition int_bytes :: "int \<Rightarrow> 8 word list" where
  "int_bytes x =
     (let w = word_of_int x :: 32 word
      in [ucast w, ucast (drop_bit 8 w), ucast (drop_bit 16 w), ucast (drop_bit 24 w)])"

definition bytes_int :: "8 word list \<Rightarrow> int" where
  "bytes_int bs =
     sint (ucast (bs ! 0) OR push_bit 8 (ucast (bs ! 1)) OR push_bit 16 (ucast (bs ! 2))
       OR push_bit 24 (ucast (bs ! 3)) :: 32 word)"

lemma length_int_bytes [simp]: "length (int_bytes x) = 4"
  by (simp add: int_bytes_def Let_def)

lemma word_bytes_join:
  fixes w :: "32 word"
  shows "ucast (ucast w :: 8 word) OR push_bit 8 (ucast (ucast (drop_bit 8 w) :: 8 word))
    OR push_bit 16 (ucast (ucast (drop_bit 16 w) :: 8 word))
    OR push_bit 24 (ucast (ucast (drop_bit 24 w) :: 8 word)) = w"
proof (rule bit_word_eqI)
  fix n :: nat
  assume "n < LENGTH(32)"
  then consider "n < 8" | "8 \<le> n \<and> n < 16" | "16 \<le> n \<and> n < 24" | "24 \<le> n \<and> n < 32"
    by fastforce
  then show "bit (ucast (ucast w :: 8 word) OR push_bit 8 (ucast (ucast (drop_bit 8 w) :: 8 word))
    OR push_bit 16 (ucast (ucast (drop_bit 16 w) :: 8 word))
    OR push_bit 24 (ucast (ucast (drop_bit 24 w) :: 8 word)) :: 32 word) n = bit w n"
    by cases (auto simp: bit_simps)
qed

lemma bytes_int_bytes: "in_int x \<Longrightarrow> bytes_int (int_bytes x) = x"
  using to_int_id [of x] word_bytes_join [of "word_of_int x"]
  by (simp add: bytes_int_def int_bytes_def Let_def to_int_def)

section \<open>State\<close>

definition RTOS_POOL_BLOCK_SIZE :: nat where "RTOS_POOL_BLOCK_SIZE = 32"

definition RTOS_POOL_BLOCK_COUNT :: nat where "RTOS_POOL_BLOCK_COUNT = 16"

definition POOL_END_OF_LIST :: int where "POOL_END_OF_LIST = -1"

lemmas pool_consts [simp] =
  RTOS_POOL_BLOCK_SIZE_def RTOS_POOL_BLOCK_COUNT_def POOL_END_OF_LIST_def

record pool =
  pool_base :: int
  g_pool_storage :: "8 word list list"
  g_pool_allocated :: "8 word list"
  g_free_list_head :: int
  g_available_blocks :: int

datatype pool_log = PoolInit | AllocFailed | AllocBlock int int int
  | FreeNull | FreeInvalid int | DoubleFree int int | FreeBlock int int int

section \<open>Operations\<close>

text \<open>
  The offset is a \<open>ptrdiff_t\<close> (not negative here, so C's division and remainder are HOL's);
  the quotient is converted to \<open>int\<close> before it is compared with the number of blocks.
\<close>

definition block_index :: "int \<Rightarrow> pool \<Rightarrow> int" where
  "block_index ptr p =
     (let base = pool_base p in
      if ptr < base then -1
      else let offset = ptr - base in
        if offset mod int RTOS_POOL_BLOCK_SIZE \<noteq> 0 then -1
        else let idx = to_int (offset div int RTOS_POOL_BLOCK_SIZE) in
          if idx < 0 \<or> idx \<ge> int RTOS_POOL_BLOCK_COUNT then -1 else idx)"

definition read_next_link :: "nat \<Rightarrow> pool \<Rightarrow> int" where
  "read_next_link idx p = bytes_int (take 4 (g_pool_storage p ! idx))"

definition write_next_link :: "nat \<Rightarrow> int \<Rightarrow> pool \<Rightarrow> pool" where
  "write_next_link idx nxt p =
     p\<lparr>g_pool_storage := (g_pool_storage p)[idx := int_bytes nxt @ drop 4 (g_pool_storage p ! idx)]\<rparr>"

definition block_ptr :: "nat \<Rightarrow> pool \<Rightarrow> int" where
  "block_ptr idx p = pool_base p + int (RTOS_POOL_BLOCK_SIZE * idx)"

definition memory_init_step :: "nat \<Rightarrow> pool \<Rightarrow> pool" where
  "memory_init_step i p =
     (let nxt = (if i + 1 < RTOS_POOL_BLOCK_COUNT then int (i + 1) else POOL_END_OF_LIST);
          p1 = write_next_link i nxt p
      in p1\<lparr>g_pool_allocated := (g_pool_allocated p1)[i := 0]\<rparr>)"

definition memory_init :: "pool \<Rightarrow> pool_log \<times> pool" where
  "memory_init p =
     (let p' = loop_range 0 RTOS_POOL_BLOCK_COUNT memory_init_step p
      in (PoolInit, p'\<lparr>g_free_list_head := 0,
                       g_available_blocks := int RTOS_POOL_BLOCK_COUNT\<rparr>))"

text \<open>
  A head outside the table (a client wrote into a block it had freed) makes the read of its
  link an access out of bounds.
\<close>

definition memory_alloc :: "pool \<Rightarrow> (int \<times> pool_log \<times> pool) res" where
  "memory_alloc p =
     (if g_free_list_head p = POOL_END_OF_LIST then Inr (0, AllocFailed, p)
      else
        let idx = g_free_list_head p in
        if idx < 0 \<or> idx \<ge> int RTOS_POOL_BLOCK_COUNT then Inl OutOfBounds
        else
          let i = nat idx;
              nxt = read_next_link i p;
              p' = p\<lparr>g_free_list_head := nxt,
                     g_pool_allocated := (g_pool_allocated p)[i := 1],
                     g_available_blocks := g_available_blocks p - 1\<rparr>;
              ptr = block_ptr i p'
          in Inr (ptr, AllocBlock idx ptr (g_available_blocks p'), p'))"

definition memory_free :: "int \<Rightarrow> pool \<Rightarrow> pool_log \<times> pool" where
  "memory_free ptr p =
     (if ptr = 0 then (FreeNull, p)
      else
        let idx = block_index ptr p in
        if idx < 0 then (FreeInvalid ptr, p)
        else if g_pool_allocated p ! nat idx = 0 then (DoubleFree idx ptr, p)
        else
          let p1 = write_next_link (nat idx) (g_free_list_head p) p;
              p' = p1\<lparr>g_free_list_head := idx,
                      g_pool_allocated := (g_pool_allocated p1)[nat idx := 0],
                      g_available_blocks := g_available_blocks p1 + 1\<rparr>
          in (FreeBlock idx ptr (g_available_blocks p'), p'))"

definition memory_available_blocks :: "pool \<Rightarrow> int" where
  "memory_available_blocks p = g_available_blocks p"

text \<open>
  What a client does with a block it owns: a store of one byte at \<open>ptr + off\<close>. (No function of
  \<open>memory.c\<close>; the model of the memory a client sees.)
\<close>

definition pool_store :: "nat \<Rightarrow> nat \<Rightarrow> 8 word \<Rightarrow> pool \<Rightarrow> pool" where
  "pool_store idx off b p =
     p\<lparr>g_pool_storage := (g_pool_storage p)[idx := (g_pool_storage p ! idx)[off := b]]\<rparr>"

section \<open>The free list and the pool invariant\<close>

text \<open>The shape of the static arrays, and a base address no wrap-around can reach.\<close>

definition pool_shape :: "pool \<Rightarrow> bool" where
  "pool_shape p \<longleftrightarrow> length (g_pool_storage p) = 16 \<and> (\<forall>i<16. length (g_pool_storage p ! i) = 32)
     \<and> length (g_pool_allocated p) = 16 \<and> 0 < pool_base p"

text \<open>\<open>free_chain p h is\<close>: following the links from \<open>h\<close> visits exactly the blocks \<open>is\<close>.\<close>

fun free_chain :: "pool \<Rightarrow> int \<Rightarrow> nat list \<Rightarrow> bool" where
  "free_chain p h [] \<longleftrightarrow> h = POOL_END_OF_LIST"
| "free_chain p h (i # is) \<longleftrightarrow> h = int i \<and> i < 16 \<and> free_chain p (read_next_link i p) is"

definition pool_rel :: "pool \<Rightarrow> nat list \<Rightarrow> bool" where
  "pool_rel p fl \<longleftrightarrow> pool_shape p \<and> free_chain p (g_free_list_head p) fl \<and> distinct fl
     \<and> (\<forall>i<16. g_pool_allocated p ! i = 0 \<longleftrightarrow> i \<in> set fl)
     \<and> g_available_blocks p = int (length fl)"

definition pool_inv :: "pool \<Rightarrow> bool" where
  "pool_inv p \<longleftrightarrow> (\<exists>fl. pool_rel p fl)"

text \<open>The live blocks: the ones the bitmap marks.\<close>

definition live_blocks :: "pool \<Rightarrow> nat set" where
  "live_blocks p = {i. i < 16 \<and> g_pool_allocated p ! i \<noteq> 0}"

lemma free_chain_range: "free_chain p h is \<Longrightarrow> i \<in> set is \<Longrightarrow> i < 16"
  by (induction "is" arbitrary: h) auto

lemma free_chain_determ: "free_chain p h is \<Longrightarrow> free_chain p h js \<Longrightarrow> is = js"
proof (induction "is" arbitrary: h js)
  case Nil
  then show ?case by (cases js) auto
next
  case (Cons i "is")
  then show ?case by (cases js) auto
qed

lemma free_chain_cong:
  "(\<And>i. i \<in> set is \<Longrightarrow> read_next_link i p = read_next_link i q) \<Longrightarrow>
   free_chain p h is = free_chain q h is"
  by (induction "is" arbitrary: h) auto

lemma pool_rel_unique: "pool_rel p fl \<Longrightarrow> pool_rel p fl' \<Longrightarrow> fl = fl'"
  by (auto simp: pool_rel_def dest: free_chain_determ)

lemma pool_rel_range:
  assumes "pool_rel p fl"
  shows "set fl \<subseteq> {..<16}"
proof
  fix i
  assume "i \<in> set fl"
  moreover have "free_chain p (g_free_list_head p) fl" using assms by (simp add: pool_rel_def)
  ultimately show "i \<in> {..<16}" using free_chain_range by blast
qed

lemma pool_rel_live: "pool_rel p fl \<Longrightarrow> live_blocks p = {..<16} - set fl"
  by (auto simp: pool_rel_def live_blocks_def)

lemma in_int_index: "k < 16 \<Longrightarrow> in_int (int k)"
  by (simp add: int_range_defs)

lemma in_int_end [simp]: "in_int (-1)"
  by (simp add: int_range_defs)

lemma read_next_link_write:
  assumes "i < length (g_pool_storage p)" and "in_int n"
  shows "read_next_link j (write_next_link i n p) = (if j = i then n else read_next_link j p)"
  using assms by (auto simp: read_next_link_def write_next_link_def bytes_int_bytes)

lemma write_next_link_fields [simp]:
  "g_pool_allocated (write_next_link i n p) = g_pool_allocated p"
  "g_free_list_head (write_next_link i n p) = g_free_list_head p"
  "g_available_blocks (write_next_link i n p) = g_available_blocks p"
  "pool_base (write_next_link i n p) = pool_base p"
  by (simp_all add: write_next_link_def)

lemma read_next_link_fields [simp]:
  "read_next_link i (p\<lparr>g_free_list_head := h\<rparr>) = read_next_link i p"
  "read_next_link i (p\<lparr>g_pool_allocated := a\<rparr>) = read_next_link i p"
  "read_next_link i (p\<lparr>g_available_blocks := n\<rparr>) = read_next_link i p"
  by (simp_all add: read_next_link_def)

lemma pool_shape_fields [simp]:
  "pool_shape (p\<lparr>g_free_list_head := h\<rparr>) = pool_shape p"
  "pool_shape (p\<lparr>g_available_blocks := n\<rparr>) = pool_shape p"
  "length a = length (g_pool_allocated p) \<Longrightarrow> pool_shape (p\<lparr>g_pool_allocated := a\<rparr>) = pool_shape p"
  by (simp_all add: pool_shape_def)

lemma pool_shape_write [simp]:
  "pool_shape p \<Longrightarrow> pool_shape (write_next_link i n p)"
  by (cases "i < 16")
    (auto simp: pool_shape_def write_next_link_def nth_list_update list_update_beyond)

lemma pool_shape_store [simp]: "pool_shape p \<Longrightarrow> pool_shape (pool_store i off b p)"
  by (cases "i < 16")
    (auto simp: pool_shape_def pool_store_def nth_list_update list_update_beyond)

section \<open>Every operation keeps the free list\<close>

lemma memory_init_step_fields:
  "pool_shape p \<Longrightarrow> pool_shape (memory_init_step i p)"
  "i < 16 \<Longrightarrow> pool_shape p \<Longrightarrow> read_next_link j (memory_init_step i p) =
     (if j = i then if i < 15 then int (i + 1) else -1 else read_next_link j p)"
  "g_pool_allocated (memory_init_step i p) = (g_pool_allocated p)[i := 0]"
proof -
  assume "pool_shape p"
  then show "pool_shape (memory_init_step i p)"
    by (simp add: memory_init_step_def Let_def)
qed (auto simp: memory_init_step_def Let_def read_next_link_write pool_shape_def int_range_defs)

lemma memory_init_loop:
  assumes "pool_shape p"
  shows "pool_shape (loop_range 0 16 memory_init_step p) \<and>
    (\<forall>j<16. read_next_link j (loop_range 0 16 memory_init_step p) = (if j < 15 then int (j + 1) else -1)
      \<and> g_pool_allocated (loop_range 0 16 memory_init_step p) ! j = 0)"
proof -
  let ?P = "\<lambda>k q. pool_shape q \<and> (\<forall>j<k. j < 16 \<longrightarrow>
    read_next_link j q = (if j < 15 then int (j + 1) else -1) \<and> g_pool_allocated q ! j = 0)"
  have "?P (0 + 16) (loop_range 0 16 memory_init_step p)"
  proof (rule loop_range_inv)
    show "?P 0 p" using assms by simp
  next
    fix k t
    assume "k < (0::nat) + 16" and "?P k t"
    moreover from this have "length (g_pool_allocated t) = 16" by (simp add: pool_shape_def)
    ultimately show "?P (Suc k) (memory_init_step k t)"
      by (auto simp: memory_init_step_fields less_Suc_eq nth_list_update)
  qed
  then show ?thesis by simp
qed

lemma memory_init_base [simp]: "pool_base (snd (memory_init p)) = pool_base p"
proof -
  have "pool_base (loop_range 0 16 memory_init_step p) = pool_base p"
    by (rule loop_range_inv [where P = "\<lambda>k q. pool_base q = pool_base p"])
      (simp_all add: memory_init_step_def Let_def)
  then show ?thesis by (simp add: memory_init_def Let_def)
qed

lemma free_chain_upt:
  assumes "\<And>j. j < 16 \<Longrightarrow> read_next_link j p = (if j < 15 then int (j + 1) else -1)"
  shows "i < 16 \<Longrightarrow> free_chain p (int i) [i..<16]"
proof (induction "15 - i" arbitrary: i)
  case 0
  then have "i = 15" by simp
  then show ?case using assms [of 15] by simp
next
  case (Suc n)
  then have "free_chain p (int (Suc i)) [Suc i..<16]" by (intro Suc.hyps(1)) simp_all
  with Suc show ?case using assms [of i] by (simp add: upt_conv_Cons)
qed

lemma memory_init_rel:
  assumes "pool_shape p"
  shows "pool_rel (snd (memory_init p)) [0..<16]"
proof -
  let ?q = "loop_range 0 16 memory_init_step p"
  have q: "pool_shape ?q"
    "\<And>j. j < 16 \<Longrightarrow> read_next_link j ?q = (if j < 15 then int (j + 1) else -1)"
    "\<And>j. j < 16 \<Longrightarrow> g_pool_allocated ?q ! j = 0"
    using memory_init_loop [OF assms] by blast+
  have "free_chain (?q\<lparr>g_free_list_head := 0, g_available_blocks := 16\<rparr>) (int 0) [0..<16]"
    by (rule free_chain_upt) (use q in \<open>simp_all\<close>)
  then show ?thesis
    using q by (simp add: memory_init_def pool_rel_def del: upt_rec_numeral)
qed

lemma free_chain_fields:
  "free_chain (p\<lparr>g_free_list_head := h', g_pool_allocated := a, g_available_blocks := n\<rparr>) h is
   = free_chain p h is"
  by (rule free_chain_cong) simp

lemma memory_alloc_rel:
  assumes "pool_rel p (i # fl)"
  shows "\<exists>p' m. memory_alloc p = Inr (block_ptr i p, m, p') \<and> pool_rel p' fl \<and>
    pool_base p' = pool_base p \<and> live_blocks p' = insert i (live_blocks p) \<and>
    g_pool_storage p' = g_pool_storage p"
proof -
  let ?p' = "p\<lparr>g_free_list_head := read_next_link i p,
    g_pool_allocated := (g_pool_allocated p)[i := 1],
    g_available_blocks := g_available_blocks p - 1\<rparr>"
  have h: "g_free_list_head p = int i" "i < 16"
    using assms by (auto simp: pool_rel_def)
  have alloc: "\<exists>m. memory_alloc p = Inr (block_ptr i p, m, ?p')"
    using h by (simp add: memory_alloc_def Let_def block_ptr_def)
  have rel: "pool_rel ?p' fl"
    using assms h
    by (auto simp: pool_rel_def pool_shape_def free_chain_fields nth_list_update)
  moreover have "live_blocks ?p' = insert i (live_blocks p)"
    using pool_rel_live [OF rel] pool_rel_live [OF assms] assms h by (auto simp: pool_rel_def)
  ultimately show ?thesis using alloc by auto
qed

lemma memory_alloc_empty:
  "pool_rel p [] \<Longrightarrow> memory_alloc p = Inr (0, AllocFailed, p)"
  by (simp add: memory_alloc_def pool_rel_def)

lemma block_index_ptr:
  assumes "i < 16" and "pool_base q = pool_base p"
  shows "block_index (block_ptr i p) q = int i"
proof -
  have "to_int (int i) = int i"
    using assms by (simp add: to_int_id in_int_index)
  then show ?thesis
    using assms by (simp add: block_index_def block_ptr_def Let_def)
qed

lemma block_index_range: "block_index ptr p = k \<Longrightarrow> k = -1 \<or> 0 \<le> k \<and> k < 16"
  by (auto simp: block_index_def Let_def split: if_splits)

lemma block_index_cases: "block_index ptr p < 0 \<or> (\<exists>i<16. block_index ptr p = int i)"
proof (cases "block_index ptr p < 0")
  case False
  then have "block_index ptr p = int (nat (block_index ptr p))" "nat (block_index ptr p) < 16"
    using block_index_range [of ptr p] by auto
  then show ?thesis by blast
qed simp

lemma memory_free_rel:
  assumes "pool_rel p fl" and "ptr \<noteq> 0" and "block_index ptr p = int i" and "i \<in> live_blocks p"
  shows "\<exists>m. snd (memory_free ptr p) = m \<and> pool_rel m (i # fl) \<and>
    live_blocks m = live_blocks p - {i} \<and> pool_base m = pool_base p"
proof -
  let ?p1 = "write_next_link i (g_free_list_head p) p"
  let ?p' = "?p1\<lparr>g_free_list_head := int i, g_pool_allocated := (g_pool_allocated ?p1)[i := 0],
    g_available_blocks := g_available_blocks ?p1 + 1\<rparr>"
  have i: "i < 16" "i \<notin> set fl" "g_pool_allocated p ! i \<noteq> 0"
    using assms by (auto simp: live_blocks_def pool_rel_def)
  have head: "in_int (g_free_list_head p)"
    using assms(1) by (cases fl) (auto simp: pool_rel_def in_int_index)
  have shape: "pool_shape p" "i < length (g_pool_storage p)"
    using assms(1) i by (auto simp: pool_rel_def pool_shape_def)
  have snd: "snd (memory_free ptr p) = ?p'"
    using assms i by (simp add: memory_free_def Let_def)
  have chain: "free_chain ?p1 (g_free_list_head p) fl = free_chain p (g_free_list_head p) fl"
    by (rule free_chain_cong) (use shape head i in \<open>auto simp: read_next_link_write\<close>)
  have rel: "pool_rel ?p' (i # fl)"
    using assms(1) i shape head chain pool_shape_write [OF shape(1)]
    by (auto simp: pool_rel_def free_chain_fields read_next_link_write nth_list_update
        pool_shape_def)
  moreover have "live_blocks ?p' = live_blocks p - {i}"
    using pool_rel_live [OF rel] pool_rel_live [OF assms(1)] by auto
  ultimately show ?thesis using snd by simp
qed

lemma memory_free_ignored:
  assumes "ptr = 0 \<or> block_index ptr p < 0 \<or> g_pool_allocated p ! nat (block_index ptr p) = 0"
  shows "snd (memory_free ptr p) = p"
  using assms by (auto simp: memory_free_def Let_def)

lemma pool_store_rel:
  assumes "pool_rel p fl" and "i \<in> live_blocks p"
  shows "pool_rel (pool_store i off b p) fl"
proof -
  have "i \<notin> set fl" using assms by (auto simp: pool_rel_live)
  then have "free_chain (pool_store i off b p) h fl = free_chain p h fl" for h
    by (intro free_chain_cong) (metis nth_list_update_neq pool.simps(2) pool_store_def
        pool.select_convs(2) pool.surjective pool.update_convs(2) read_next_link_def)
  then show ?thesis
    using assms by (simp add: pool_rel_def) (simp add: pool_store_def)
qed

section \<open>The allocator contract\<close>

text \<open>
  What a client of a fixed-size allocator relies on, whatever the data structure behind it: the
  allocator owns \<open>cap\<close> blocks, \<open>live\<close> says which are handed out, and \<open>ptr_of\<close> where they are.
\<close>

locale block_pool =
  fixes alloc :: "'p \<Rightarrow> (int \<times> 'm \<times> 'p) res"
    and free :: "int \<Rightarrow> 'p \<Rightarrow> 'm \<times> 'p"
    and inv :: "'p \<Rightarrow> bool"
    and live :: "'p \<Rightarrow> nat set"
    and ptr_of :: "nat \<Rightarrow> 'p \<Rightarrow> int"
    and cap :: nat
  assumes live_bound: "inv p \<Longrightarrow> live p \<subseteq> {..<cap}"
    and ptr_nonnull: "inv p \<Longrightarrow> ptr_of i p \<noteq> 0"
    and ptr_inj: "inv p \<Longrightarrow> ptr_of i p = ptr_of j p \<Longrightarrow> i = j"
    and alloc_fresh: "inv p \<Longrightarrow> live p \<noteq> {..<cap} \<Longrightarrow>
      \<exists>i m p'. alloc p = Inr (ptr_of i p, m, p') \<and> i < cap \<and> i \<notin> live p \<and> inv p' \<and>
        live p' = insert i (live p) \<and> (\<forall>j. ptr_of j p' = ptr_of j p)"
    and alloc_full: "inv p \<Longrightarrow> live p = {..<cap} \<Longrightarrow> \<exists>m. alloc p = Inr (0, m, p)"
    and free_live: "inv p \<Longrightarrow> i \<in> live p \<Longrightarrow>
      \<exists>m p'. free (ptr_of i p) p = (m, p') \<and> inv p' \<and> live p' = live p - {i} \<and>
        (\<forall>j. ptr_of j p' = ptr_of j p) \<and> (\<exists>m' p''. alloc p' = Inr (ptr_of i p, m', p''))"
    and free_inv: "inv p \<Longrightarrow> inv (snd (free q p))"
begin

lemma finite_live: "inv p \<Longrightarrow> finite (live p)"
  using live_bound finite_subset by blast

lemma card_live: "inv p \<Longrightarrow> card (live p) \<le> cap"
  using card_mono [OF _ live_bound] by fastforce

lemma live_full_iff: "inv p \<Longrightarrow> live p = {..<cap} \<longleftrightarrow> card (live p) = cap"
  using live_bound by (metis card_lessThan card_subset_eq finite_lessThan)

lemma alloc_total: "inv p \<Longrightarrow> returns (alloc p) (\<lambda>(q, m, p'). inv p' \<and> live p \<subseteq> live p')"
proof (cases "live p = {..<cap}")
  case True
  assume "inv p"
  from alloc_full [OF this True] this show ?thesis by (elim exE) simp
next
  case False
  assume "inv p"
  from alloc_fresh [OF this False] show ?thesis by (elim exE conjE) auto
qed

lemma alloc_null_iff:
  assumes "inv p" and "alloc p = Inr (q, m, p')"
  shows "q = 0 \<longleftrightarrow> card (live p) = cap"
proof (cases "live p = {..<cap}")
  case True
  obtain m' where "alloc p = Inr (0, m', p)"
    using alloc_full [OF assms(1) True] by blast
  then show ?thesis using assms True live_full_iff by simp
next
  case False
  obtain i m' p'' where "alloc p = Inr (ptr_of i p, m', p'')"
    using alloc_fresh [OF assms(1) False] by blast
  then have "q = ptr_of i p" using assms(2) by simp
  then show ?thesis using False assms(1) live_full_iff ptr_nonnull by simp
qed

end

text \<open>\<open>n\<close> allocations in a row, with the pointers they return.\<close>

primrec alloc_many :: "('p \<Rightarrow> (int \<times> 'm \<times> 'p) res) \<Rightarrow> nat \<Rightarrow> 'p \<Rightarrow> (int list \<times> 'p) res" where
  "alloc_many alloc 0 p = Inr ([], p)"
| "alloc_many alloc (Suc n) p =
     bindr (alloc p) (\<lambda>(q, m, p1). bindr (alloc_many alloc n p1) (\<lambda>(qs, p2). Inr (q # qs, p2)))"

context block_pool
begin

lemma alloc_many_distinct:
  assumes "inv p" and "card (live p) + n \<le> cap"
  shows "returns (alloc_many alloc n p) (\<lambda>(qs, p').
    length qs = n \<and> distinct qs \<and> 0 \<notin> set qs \<and> inv p' \<and> card (live p') = card (live p) + n \<and>
    (\<forall>j. ptr_of j p' = ptr_of j p) \<and> set qs = (\<lambda>i. ptr_of i p) ` (live p' - live p) \<and> live p \<subseteq> live p')"
  using assms
proof (induction n arbitrary: p)
  case 0
  then show ?case by simp
next
  case (Suc n)
  have "live p \<noteq> {..<cap}" using Suc.prems live_full_iff by force
  then obtain i m p1 where a: "alloc p = Inr (ptr_of i p, m, p1)" "i \<notin> live p" "inv p1"
    "live p1 = insert i (live p)" "\<And>j. ptr_of j p1 = ptr_of j p"
    using alloc_fresh [OF Suc.prems(1)] by blast
  have c1: "card (live p1) = Suc (card (live p))"
    using a finite_live [OF Suc.prems(1)] by simp
  have "returns (alloc_many alloc n p1) (\<lambda>(qs, p').
    length qs = n \<and> distinct qs \<and> 0 \<notin> set qs \<and> inv p' \<and> card (live p') = card (live p1) + n \<and>
    (\<forall>j. ptr_of j p' = ptr_of j p1) \<and> set qs = (\<lambda>i. ptr_of i p1) ` (live p' - live p1) \<and>
    live p1 \<subseteq> live p')"
    using Suc.IH [OF a(3)] Suc.prems(2) c1 by simp
  then obtain qs p2 where r: "alloc_many alloc n p1 = Inr (qs, p2)" "length qs = n" "distinct qs"
    "0 \<notin> set qs" "inv p2" "card (live p2) = card (live p1) + n" "\<And>j. ptr_of j p2 = ptr_of j p1"
    "set qs = (\<lambda>i. ptr_of i p) ` (live p2 - live p1)" "live p1 \<subseteq> live p2"
    by (auto simp: a(5) elim!: returnsE)
  have "ptr_of i p \<notin> set qs"
    using r(8) a(4) ptr_inj [OF Suc.prems(1)] by auto
  moreover have "live p2 - live p = insert i (live p2 - live p1)"
    using r(9) a(2,4) by auto
  ultimately show ?case
    using r a(1,4) c1 ptr_nonnull [OF Suc.prems(1), of i] by (simp add: r(7) a(5))
qed

end

lemma pool_rel_base: "pool_rel p fl \<Longrightarrow> 0 < pool_base p"
  by (simp add: pool_rel_def pool_shape_def)

lemma free_block_live:
  assumes "pool_inv p" and "i \<in> live_blocks p"
  shows "\<exists>m p'. memory_free (block_ptr i p) p = (m, p') \<and> pool_inv p' \<and>
    live_blocks p' = live_blocks p - {i} \<and> pool_base p' = pool_base p \<and>
    (\<exists>m' p''. memory_alloc p' = Inr (block_ptr i p, m', p''))"
proof -
  obtain fl where fl: "pool_rel p fl" using assms(1) by (auto simp: pool_inv_def)
  have i: "i < 16" using assms(2) by (simp add: live_blocks_def)
  have "block_ptr i p \<noteq> 0" using pool_rel_base [OF fl] by (simp add: block_ptr_def)
  moreover have "block_index (block_ptr i p) p = int i" using i by (simp add: block_index_ptr)
  ultimately obtain p' where p': "snd (memory_free (block_ptr i p) p) = p'" "pool_rel p' (i # fl)"
    "live_blocks p' = live_blocks p - {i}" "pool_base p' = pool_base p"
    using memory_free_rel [OF fl _ _ assms(2)] by blast
  moreover obtain m' p'' where "memory_alloc p' = Inr (block_ptr i p', m', p'')"
    using memory_alloc_rel [OF p'(2)] by blast
  moreover have "block_ptr i p' = block_ptr i p" using p'(4) by (simp add: block_ptr_def)
  ultimately show ?thesis by (auto simp: pool_inv_def prod_eq_iff)
qed

lemma memory_free_inv: "pool_inv p \<Longrightarrow> pool_inv (snd (memory_free q p))"
proof -
  assume inv: "pool_inv p"
  let ?k = "block_index q p"
  show ?thesis
  proof (cases "q = 0 \<or> ?k < 0 \<or> g_pool_allocated p ! nat ?k = 0")
    case True
    then show ?thesis using inv by (simp add: memory_free_ignored)
  next
    case False
    then have "block_index q p = int (nat ?k)" "nat ?k \<in> live_blocks p"
      using block_index_range [of q p ?k] by (auto simp: live_blocks_def)
    then show ?thesis
      using inv False memory_free_rel by (metis pool_inv_def)
  qed
qed

lemma block_ptr_base: "pool_base p' = pool_base p \<Longrightarrow> block_ptr j p' = block_ptr j p"
  by (simp add: block_ptr_def)

lemma alloc_fresh_block:
  assumes "pool_inv p" and "live_blocks p \<noteq> {..<16}"
  shows "\<exists>i m p'. memory_alloc p = Inr (block_ptr i p, m, p') \<and> i < 16 \<and> i \<notin> live_blocks p \<and>
    pool_inv p' \<and> live_blocks p' = insert i (live_blocks p) \<and> pool_base p' = pool_base p"
proof -
  obtain fl where fl: "pool_rel p fl" using assms(1) by (auto simp: pool_inv_def)
  with assms(2) obtain i fl' where "fl = i # fl'" by (cases fl) (auto simp: pool_rel_live)
  with fl have rel: "pool_rel p (i # fl')" by simp
  then have "i < 16" "i \<notin> live_blocks p" by (auto simp: pool_rel_def live_blocks_def)
  with memory_alloc_rel [OF rel] show ?thesis by (auto simp: pool_inv_def)
qed

lemma alloc_full_pool:
  assumes "pool_inv p" and "live_blocks p = {..<16}"
  shows "memory_alloc p = Inr (0, AllocFailed, p)"
proof -
  from assms(1) obtain fl where fl: "pool_rel p fl" unfolding pool_inv_def ..
  have "set fl = {}"
  proof (rule diff_self_empty)
    show "{..<16} - set fl = {..<16::nat}"
      using pool_rel_live [OF fl] assms(2) by (rule trans [OF sym])
    show "set fl \<subseteq> {..<16}" using fl by (rule pool_rel_range)
  qed
  with fl show ?thesis by (simp add: memory_alloc_empty)
qed

interpretation mp: block_pool memory_alloc memory_free pool_inv live_blocks block_ptr 16
proof (unfold_locales, goal_cases)
  case (1 p)
  then show ?case by (auto simp: live_blocks_def)
next
  case (2 p i)
  then show ?case by (auto simp: pool_inv_def block_ptr_def dest: pool_rel_base)
next
  case (3 p i j)
  then show ?case by (simp add: block_ptr_def)
next
  case (4 p)
  from alloc_fresh_block [OF 4] show ?case by (auto simp: block_ptr_def)
next
  case (5 p)
  then show ?case by (simp add: alloc_full_pool)
next
  case (6 p i)
  from free_block_live [OF 6] show ?case by (auto simp: block_ptr_def)
next
  case (7 p q)
  then show ?case by (rule memory_free_inv)
qed

section \<open>Everything a client can do\<close>

text \<open>
  The states a client can drive the pool through: allocations, frees of any address whatever,
  and stores into the bytes of live blocks.
\<close>

inductive pool_step :: "pool \<Rightarrow> pool \<Rightarrow> bool" where
  alloc: "memory_alloc p = Inr (q, m, p') \<Longrightarrow> pool_step p p'"
| free: "memory_free q p = (m, p') \<Longrightarrow> pool_step p p'"
| store: "i \<in> live_blocks p \<Longrightarrow> pool_step p (pool_store i off b p)"

lemma pool_step_inv: "pool_step p q \<Longrightarrow> pool_inv p \<Longrightarrow> pool_inv q"
proof (induction rule: pool_step.induct)
  case (alloc p q m p')
  with mp.alloc_total show ?case by (fastforce simp: returns_def)
next
  case (free q p m p')
  with memory_free_inv show ?case by (metis snd_conv)
next
  case (store i p off b)
  then show ?case by (auto simp: pool_inv_def intro: pool_store_rel)
qed

lemma pool_steps_inv: "pool_step\<^sup>*\<^sup>* p q \<Longrightarrow> pool_inv p \<Longrightarrow> pool_inv q"
  by (induction rule: rtranclp_induct) (auto intro: pool_step_inv)

lemma memory_init_inv: "pool_shape p \<Longrightarrow> pool_inv (snd (memory_init p))"
  using memory_init_rel by (auto simp: pool_inv_def)

lemma pool_inv_available:
  assumes "pool_inv p"
  shows "memory_available_blocks p = 16 - int (card (live_blocks p))"
proof -
  from assms obtain fl where fl: "pool_rel p fl" unfolding pool_inv_def ..
  have "card (live_blocks p) = 16 - length fl"
    using fl pool_rel_range [OF fl]
    by (simp add: pool_rel_live [OF fl] card_Diff_subset pool_rel_def distinct_card)
  moreover have "length fl \<le> 16"
    using card_mono [OF _ pool_rel_range [OF fl]] fl by (simp add: pool_rel_def distinct_card)
  ultimately show ?thesis
    using fl by (simp add: memory_available_blocks_def pool_rel_def)
qed

definition pool_example :: pool where
  "pool_example = \<lparr>pool_base = 4096, g_pool_storage = replicate 16 (replicate 32 0),
     g_pool_allocated = replicate 16 0, g_free_list_head = 0, g_available_blocks = 0\<rparr>"

lemma pool_example_shape [simp]: "pool_shape pool_example"
  by (simp add: pool_example_def pool_shape_def)

text \<open>
  C7: After \<open>memory_init\<close>, whatever a client does (allocations, frees of arbitrary pointers,
  stores into its live blocks), the embedded free list stays an acyclic chain of exactly the
  blocks the bitmap does not mark, the available count is 16 minus the number of live blocks,
  and the next \<open>memory_alloc\<close> returns without an out-of-bounds access.
\<close>

theorem memory_pool_safe:
  assumes "pool_shape p" and "pool_step\<^sup>*\<^sup>* (snd (memory_init p)) q"
  shows "(\<exists>fl. free_chain q (g_free_list_head q) fl \<and> distinct fl \<and>
            set fl = {i. i < 16 \<and> g_pool_allocated q ! i = 0}) \<and>
         memory_available_blocks q = 16 - int (card (live_blocks q)) \<and>
         returns (memory_alloc q) (\<lambda>(ptr, m, q'). ptr = 0 \<longleftrightarrow> memory_available_blocks q = 0)"
proof -
  have inv: "pool_inv q"
    using assms pool_steps_inv memory_init_inv by blast
  then obtain fl where fl: "pool_rel q fl" unfolding pool_inv_def ..
  then have "set fl = {i. i < 16 \<and> g_pool_allocated q ! i = 0}"
    using pool_rel_range [OF fl] by (auto simp: pool_rel_def)
  moreover have "returns (memory_alloc q) (\<lambda>(ptr, m, q'). ptr = 0 \<longleftrightarrow> card (live_blocks q) = 16)"
    using mp.alloc_total [OF inv] mp.alloc_null_iff [OF inv] by (fastforce simp: returns_def)
  ultimately show ?thesis
    using fl pool_inv_available [OF inv] by (auto simp: pool_rel_def)
qed

theorem memory_pool_safe_witness:
  "returns (memory_alloc (snd (memory_free 12345 (snd (memory_init pool_example)))))
     (\<lambda>(ptr, m, q'). ptr = 0 \<longleftrightarrow>
        memory_available_blocks (snd (memory_free 12345 (snd (memory_init pool_example)))) = 0)"
proof -
  have "pool_step\<^sup>*\<^sup>* (snd (memory_init pool_example))
      (snd (memory_free 12345 (snd (memory_init pool_example))))"
    by (rule r_into_rtranclp, rule pool_step.free, rule prod.collapse [symmetric])
  from memory_pool_safe [OF pool_example_shape this] show ?thesis by blast
qed

text \<open>
  From an initialised pool with \<open>k\<close> live blocks, any \<open>n \<le> 16 - k\<close> allocations in a row all
  succeed; their pointers are non-null, pairwise distinct, and each is the start of a block
  that was free before.
\<close>

lemma alloc_many_fresh:
  assumes "pool_inv p" and "card (live_blocks p) + n \<le> 16"
  shows "returns (alloc_many memory_alloc n p) (\<lambda>(ptrs, p').
    length ptrs = n \<and> distinct ptrs \<and> 0 \<notin> set ptrs \<and>
    set ptrs = (\<lambda>i. block_ptr i p) ` (live_blocks p' - live_blocks p) \<and>
    card (live_blocks p') = card (live_blocks p) + n)"
  by (rule returns_mono [OF mp.alloc_many_distinct [OF assms]]) auto

text \<open>
  \<open>block_index\<close> recognises exactly the starts of the sixteen blocks among all addresses below
  the pool's base and up to 64 GiB above it.
\<close>

lemma block_index_exact:
  assumes "ptr < pool_base p + 2 ^ 36"
  shows "block_index ptr p = (if \<exists>i<16. ptr = block_ptr i p then (ptr - pool_base p) div 32 else -1)"
proof (cases "ptr < pool_base p \<or> (ptr - pool_base p) mod 32 \<noteq> 0")
  case True
  then have "\<not> (\<exists>i<16. ptr = block_ptr i p)" by (auto simp: block_ptr_def)
  with True show ?thesis by (auto simp: block_index_def Let_def)
next
  case False
  let ?k = "(ptr - pool_base p) div 32"
  have k: "0 \<le> ?k" "ptr = pool_base p + 32 * ?k" "to_int ?k = ?k"
    using False assms by (auto simp: to_int_id int_range_defs)
  then have idx: "block_index ptr p = (if ?k < 16 then ?k else -1)"
    using False by (auto simp: block_index_def Let_def)
  have "(\<exists>i<16. ptr = block_ptr i p) \<longleftrightarrow> ?k < 16"
  proof
    assume "?k < 16"
    then have "nat ?k < 16 \<and> ptr = block_ptr (nat ?k) p" using k by (simp add: block_ptr_def)
    then show "\<exists>i<16. ptr = block_ptr i p" by blast
  qed (auto simp: block_ptr_def)
  with idx show ?thesis by simp
qed

text \<open>
  C31: \<open>memory_free\<close> on every address below \<open>pool_base + 2^36\<close>, by cases on where the address lies. The
  null pointer, an address at which none of the sixteen blocks starts, and the start of a block that is
  free already leave the pool untouched, each with its own message. The start of a live block: exactly
  that block becomes free, the count goes up by one, and the very next allocation returns the same
  address (the free list is a stack).
\<close>

theorem memory_free_behaviour:
  assumes "pool_inv p" and "ptr < pool_base p + 2 ^ 36"
  shows "(ptr = 0 \<longrightarrow> memory_free ptr p = (FreeNull, p)) \<and>
    (ptr \<noteq> 0 \<and> (\<forall>i<16. ptr \<noteq> pool_base p + 32 * int i) \<longrightarrow> memory_free ptr p = (FreeInvalid ptr, p)) \<and>
    (\<forall>i<16. ptr = pool_base p + 32 * int i \<and> i \<notin> live_blocks p \<longrightarrow>
       memory_free ptr p = (DoubleFree (int i) ptr, p)) \<and>
    (\<forall>i\<in>live_blocks p. ptr = pool_base p + 32 * int i \<longrightarrow>
       (\<exists>p'. memory_free ptr p = (FreeBlock (int i) ptr (memory_available_blocks p'), p') \<and> pool_inv p' \<and>
         live_blocks p' = live_blocks p - {i} \<and> memory_available_blocks p' = memory_available_blocks p + 1 \<and>
         (\<exists>m p''. memory_alloc p' = Inr (ptr, m, p''))))"
proof (intro conjI impI allI ballI)
  show "memory_free ptr p = (FreeNull, p)" if "ptr = 0" using that by (simp add: memory_free_def)
  show "memory_free ptr p = (FreeInvalid ptr, p)" if "ptr \<noteq> 0 \<and> (\<forall>i<16. ptr \<noteq> pool_base p + 32 * int i)"
    using that block_index_exact [OF assms(2)] by (auto simp: memory_free_def block_ptr_def)
next
  have base: "0 < pool_base p" using assms(1) pool_rel_base by (auto simp: pool_inv_def)
  fix i
  have idx: "ptr \<noteq> 0 \<and> block_index ptr p = int i" if "i < 16" "ptr = pool_base p + 32 * int i"
    using base block_index_ptr [OF that(1) refl, of p] that(2) by (simp add: block_ptr_def)
  show "memory_free ptr p = (DoubleFree (int i) ptr, p)"
    if "i < 16" "ptr = pool_base p + 32 * int i \<and> i \<notin> live_blocks p"
    using that idx by (simp add: memory_free_def live_blocks_def Let_def)
  assume i: "i \<in> live_blocks p" and ptr: "ptr = pool_base p + 32 * int i"
  then have l: "i < 16" "g_pool_allocated p ! i \<noteq> 0" "ptr = block_ptr i p"
    by (simp_all add: live_blocks_def block_ptr_def)
  obtain m p' where p': "memory_free ptr p = (m, p')" "pool_inv p'"
    "live_blocks p' = live_blocks p - {i}" "\<exists>m' p''. memory_alloc p' = Inr (ptr, m', p'')"
    using mp.free_live [OF assms(1) i] unfolding l(3) by blast
  have "m = FreeBlock (int i) ptr (memory_available_blocks p')"
    using p'(1) idx [OF l(1) ptr] l(2) by (auto simp: memory_free_def memory_available_blocks_def Let_def)
  moreover have "card (live_blocks p) = Suc (card (live_blocks p - {i}))"
    using mp.finite_live [OF assms(1)] i by (rule card.remove)
  ultimately show "\<exists>p'. memory_free ptr p = (FreeBlock (int i) ptr (memory_available_blocks p'), p') \<and> pool_inv p' \<and>
      live_blocks p' = live_blocks p - {i} \<and> memory_available_blocks p' = memory_available_blocks p + 1 \<and>
      (\<exists>m p''. memory_alloc p' = Inr (ptr, m, p''))"
    using p' pool_inv_available [OF assms(1)] pool_inv_available [OF p'(2)] by simp
qed

lemma pool_live_example: "\<exists>p. pool_inv p \<and> 0 \<in> live_blocks p \<and> pool_base p = 4096"
proof -
  let ?p = "snd (memory_init pool_example)"
  have "pool_rel ?p (0 # [1..<16])"
    using memory_init_rel [OF pool_example_shape] by (simp add: upt_conv_Cons)
  then obtain p' where "pool_rel p' [1..<16]" "pool_base p' = pool_base ?p"
    "live_blocks p' = insert 0 (live_blocks ?p)"
    using memory_alloc_rel by blast
  moreover have "pool_base ?p = 4096"
    by (simp only: memory_init_base) (simp add: pool_example_def)
  ultimately show ?thesis by (auto simp: pool_inv_def)
qed

theorem memory_free_behaviour_witness:
  "\<exists>p. pool_inv p \<and> 0 \<in> live_blocks p \<and> memory_free 4100 p = (FreeInvalid 4100, p) \<and>
     live_blocks (snd (memory_free 4096 p)) = live_blocks p - {0}"
proof -
  obtain p where inv: "pool_inv p" and p: "0 \<in> live_blocks p" "pool_base p = 4096"
    using pool_live_example by blast
  have no: "\<forall>i<16. (4100 :: int) \<noteq> pool_base p + 32 * int i" unfolding p(2) by presburger
  have "memory_free 4100 p = (FreeInvalid 4100, p)"
    using memory_free_behaviour [OF inv, of 4100] no by (simp add: p(2))
  moreover have "\<exists>p'. memory_free 4096 p = (FreeBlock (int 0) 4096 (memory_available_blocks p'), p') \<and>
      live_blocks p' = live_blocks p - {0}"
    using memory_free_behaviour [OF inv, of 4096, THEN conjunct2, THEN conjunct2, THEN conjunct2, rule_format, OF _ p(1)]
    unfolding p(2) by (elim meta_impE ex_forward) simp_all
  then have "live_blocks (snd (memory_free 4096 p)) = live_blocks p - {0}" by (elim exE) simp
  ultimately show ?thesis using inv p(1) by blast
qed

text \<open>
  C40: The quotient is narrowed to \<open>int\<close> before the range check, so an address exactly
  \<open>2^37\<close> bytes above a block start, far outside the pool, is accepted as that block: freeing it
  frees the live block and hands it out again.
\<close>

theorem block_index_narrowing:
  assumes "pool_inv p" and "i \<in> live_blocks p"
  shows "block_index (block_ptr i p + 2 ^ 37) p = int i \<and>
    live_blocks (snd (memory_free (block_ptr i p + 2 ^ 37) p)) = live_blocks p - {i}"
proof -
  from assms(1) obtain fl where fl: "pool_rel p fl" unfolding pool_inv_def ..
  have i: "i < 16" using assms(2) by (simp add: live_blocks_def)
  have "(block_ptr i p + 2 ^ 37 - pool_base p) div 32 = int i + 2 ^ 32"
    by (simp add: block_ptr_def)
  moreover have "to_int (int i + 2 ^ 32) = int i"
  proof -
    have "word_of_int (int i + 2 ^ 32) = (word_of_int (int i) :: 32 word)"
      by (simp add: word_of_int_eq_iff take_bit_eq_mod)
    then have "to_int (int i + 2 ^ 32) = to_int (int i)" by (simp only: to_int_def)
    then show ?thesis using i by (simp add: to_int_id in_int_index)
  qed
  moreover have "(block_ptr i p + 2 ^ 37 - pool_base p) mod 32 = 0"
    by (simp add: block_ptr_def)
  ultimately have "block_index (block_ptr i p + 2 ^ 37) p = int i"
    using i by (simp add: block_index_def Let_def block_ptr_def)
  moreover have "block_ptr i p + 2 ^ 37 \<noteq> 0"
    using pool_rel_base [OF fl] by (simp add: block_ptr_def)
  ultimately show ?thesis
    using memory_free_rel [OF fl _ _ assms(2)] by blast
qed

theorem block_index_narrowing_witness:
  "\<exists>p. pool_inv p \<and> block_index (block_ptr 0 p + 2 ^ 37) p = 0"
  using pool_live_example block_index_narrowing [of _ 0] by fastforce

end
