(* ===== verification/Pool_Client.thy ===== *)
theory Pool_Client
  imports Memory_Pool
begin

text \<open>
  What a client of the memory pool sees, as an abstract allocator: a stack of spare blocks and, by address,
  the bytes the client has written since it was given the block they are in. The pool of \<open>memory.c\<close>, whose
  free list lives inside the very bytes it hands out, is proved to implement it.
\<close>

section \<open>A client of the pool\<close>

text \<open>What a client does: call the allocator, and write and read single bytes through its pointers.\<close>

datatype call = Allocate | Release int | Poke int "8 word" | Peek int

datatype answer = Pointer int | Finished | Byte "8 word"

definition block_of :: "int \<Rightarrow> int \<Rightarrow> int" where
  "block_of base a = (a - base) div int RTOS_POOL_BLOCK_SIZE"

definition offset_of :: "int \<Rightarrow> int \<Rightarrow> nat" where
  "offset_of base a = nat ((a - base) mod int RTOS_POOL_BLOCK_SIZE)"

text \<open>The address is inside a block that is handed out.\<close>

definition owned :: "pool \<Rightarrow> int \<Rightarrow> bool" where
  "owned p a \<longleftrightarrow> (let k = block_of (pool_base p) a in
     0 \<le> k \<and> k < int RTOS_POOL_BLOCK_COUNT \<and> g_pool_allocated p ! nat k \<noteq> 0)"

definition byte_at :: "pool \<Rightarrow> int \<Rightarrow> 8 word" where
  "byte_at p a = g_pool_storage p ! nat (block_of (pool_base p) a) ! offset_of (pool_base p) a"

text \<open>An access outside the client's own blocks is a fault of the client.\<close>

fun call_pool :: "call \<Rightarrow> pool \<Rightarrow> (answer \<times> pool) res" where
  "call_pool Allocate p = bindr (memory_alloc p) (\<lambda>(q, m, p'). Inr (Pointer q, p'))"
| "call_pool (Release q) p = Inr (Finished, snd (memory_free q p))"
| "call_pool (Poke a b) p =
     (if owned p a
      then Inr (Finished, pool_store (nat (block_of (pool_base p) a)) (offset_of (pool_base p) a) b p)
      else Inl OutOfBounds)"
| "call_pool (Peek a) p = (if owned p a then Inr (Byte (byte_at p a), p) else Inl OutOfBounds)"

fun call_all :: "call list \<Rightarrow> pool \<Rightarrow> (answer list \<times> pool) res" where
  "call_all [] p = Inr ([], p)"
| "call_all (c # cs) p =
     bindr (call_pool c p) (\<lambda>(x, p'). bindr (call_all cs p') (\<lambda>(xs, q). Inr (x # xs, q)))"

section \<open>The abstract allocator\<close>

record heap =
  origin :: int
  spare :: "nat list"
  bytes :: "int \<Rightarrow> 8 word option"

definition new_heap :: "int \<Rightarrow> heap" where
  "new_heap base = \<lparr>origin = base, spare = [0..<16], bytes = Map.empty\<rparr>"

definition block_start :: "heap \<Rightarrow> nat \<Rightarrow> int" where
  "block_start h i = origin h + 32 * int i"

definition handed_out :: "heap \<Rightarrow> int \<Rightarrow> bool" where
  "handed_out h a \<longleftrightarrow> (let k = block_of (origin h) a in 0 \<le> k \<and> k < 16 \<and> nat k \<notin> set (spare h))"

text \<open>
  An answer \<open>None\<close> is any byte: the contents of a block are not known before the client writes them. The
  result \<open>None\<close> is a client that breaks the rules: it writes or reads outside the blocks it holds, or frees
  an address 64 GiB or more above the pool. Anything else it may free: a pointer that is not the start of a
  block it holds is ignored.
\<close>

fun call_heap :: "call \<Rightarrow> heap \<Rightarrow> (answer option \<times> heap) option" where
  "call_heap Allocate h = (case spare h of [] \<Rightarrow> Some (Some (Pointer 0), h)
     | i # is \<Rightarrow> Some (Some (Pointer (block_start h i)), h\<lparr>spare := is\<rparr>))"
| "call_heap (Release q) h =
     (if origin h + 2 ^ 36 \<le> q then None
      else let k = block_of (origin h) q in
        if handed_out h q \<and> offset_of (origin h) q = 0
        then Some (Some Finished, h\<lparr>spare := nat k # spare h,
          bytes := (\<lambda>a. if block_of (origin h) a = k then None else bytes h a)\<rparr>)
        else Some (Some Finished, h))"
| "call_heap (Poke a b) h =
     (if handed_out h a then Some (Some Finished, h\<lparr>bytes := (bytes h)(a \<mapsto> b)\<rparr>) else None)"
| "call_heap (Peek a) h =
     (if handed_out h a then Some (map_option Byte (bytes h a), h) else None)"

fun heap_all :: "call list \<Rightarrow> heap \<Rightarrow> (answer option list \<times> heap) option" where
  "heap_all [] h = Some ([], h)"
| "heap_all (c # cs) h = (case call_heap c h of None \<Rightarrow> None
     | Some (x, h') \<Rightarrow> (case heap_all cs h' of None \<Rightarrow> None | Some (xs, h'') \<Rightarrow> Some (x # xs, h'')))"

fun agrees :: "answer \<Rightarrow> answer option \<Rightarrow> bool" where
  "agrees x (Some y) = (x = y)"
| "agrees x None = (\<exists>b. x = Byte b)"

section \<open>The pool implements it\<close>

definition shows_heap :: "pool \<Rightarrow> heap \<Rightarrow> bool" where
  "shows_heap p h \<longleftrightarrow> pool_rel p (spare h) \<and> pool_base p = origin h \<and>
     (\<forall>a b. bytes h a = Some b \<longrightarrow> handed_out h a \<and> byte_at p a = b)"

lemma owned_handed_out:
  assumes "pool_rel p (spare h)" and "pool_base p = origin h"
  shows "owned p a \<longleftrightarrow> handed_out h a"
proof -
  have "g_pool_allocated p ! nat k = 0 \<longleftrightarrow> nat k \<in> set (spare h)" if "0 \<le> k" "k < 16" for k
    using assms(1) that by (simp add: pool_rel_def)
  then show ?thesis using assms(2) by (auto simp: owned_def handed_out_def Let_def)
qed

lemma handed_out_iff: "handed_out h a \<longleftrightarrow> 0 \<le> block_of (origin h) a \<and> block_of (origin h) a < 16 \<and>
    nat (block_of (origin h) a) \<notin> set (spare h)"
  by (simp add: handed_out_def Let_def)

lemma handed_outD:
  assumes "handed_out h a"
  shows "0 \<le> block_of (origin h) a" and "nat (block_of (origin h) a) < 16"
    and "nat (block_of (origin h) a) \<notin> set (spare h)"
  using assms by (simp_all add: handed_out_iff nat_less_iff)

text \<open>An address is its block and its offset.\<close>

lemma address_inj:
  assumes "block_of base a = block_of base a'" and "offset_of base a = offset_of base a'"
  shows "a = a'"
proof -
  have "(a - base) div 32 = (a' - base) div 32" "(a - base) mod 32 = (a' - base) mod 32"
    using assms by (simp_all add: block_of_def offset_of_def eq_nat_nat_iff)
  then have "a - base = a' - base" by (metis div_mult_mod_eq)
  then show ?thesis by simp
qed

lemma offset_bound: "offset_of base a < 32"
  by (simp add: offset_of_def nat_less_iff)

lemma block_start_parts: "block_of (origin h) (block_start h i) = int i" "offset_of (origin h) (block_start h i) = 0"
  by (simp_all add: block_of_def offset_of_def block_start_def)

lemma block_start_of: "offset_of (origin h) q = 0 \<Longrightarrow> 0 \<le> block_of (origin h) q \<Longrightarrow>
    q = block_start h (nat (block_of (origin h) q))"
  by (rule address_inj [where base = "origin h"]) (simp_all add: block_start_parts)

lemma byte_at_store:
  assumes "pool_shape p" and "handed_out h a" and "pool_base p = origin h" and "handed_out h a'"
  shows "byte_at (pool_store (nat (block_of (pool_base p) a)) (offset_of (pool_base p) a) b p) a' =
    (if a' = a then b else byte_at p a')"
proof -
  let ?k = "block_of (origin h) a" and ?k' = "block_of (origin h) a'"
  have k: "nat ?k < 16" "0 \<le> ?k" "0 \<le> ?k'" using handed_outD [OF assms(2)] handed_outD [OF assms(4)] by simp_all
  have l: "length (g_pool_storage p) = 16" "length (g_pool_storage p ! nat ?k) = 32"
    using assms(1) k by (simp_all add: pool_shape_def)
  show ?thesis
  proof (cases "nat ?k' = nat ?k")
    case True
    then have "?k' = ?k" using k by simp
    then show ?thesis
      using address_inj [of "origin h" a' a] k l offset_bound [of "origin h" a]
      by (auto simp: byte_at_def pool_store_def assms(3) nth_list_update)
  next
    case False
    then show ?thesis by (auto simp: byte_at_def pool_store_def assms(3))
  qed
qed

lemma free_storage:
  assumes "j \<noteq> nat (block_index q p)"
  shows "g_pool_storage (snd (memory_free q p)) ! j = g_pool_storage p ! j"
  using assms by (simp add: memory_free_def Let_def write_next_link_def)

lemma release_ignored:
  assumes r: "shows_heap p h" and q: "q < origin h + 2 ^ 36" and no: "\<not> (handed_out h q \<and> offset_of (origin h) q = 0)"
  shows "snd (memory_free q p) = p"
proof (rule memory_free_ignored)
  have rel: "pool_rel p (spare h)" "pool_base p = origin h" using r by (simp_all add: shows_heap_def)
  show "q = 0 \<or> block_index q p < 0 \<or> g_pool_allocated p ! nat (block_index q p) = 0"
  proof (cases "\<exists>i<16. q = block_ptr i p")
    case True
    then obtain i where i: "i < 16" "q = block_start h i" by (auto simp: block_ptr_def block_start_def rel(2))
    have "q = block_ptr i p" using i(2) by (simp add: block_ptr_def block_start_def rel(2))
    then have "block_index q p = int i" using i(1) by (simp add: block_index_ptr)
    moreover have "\<not> owned p q"
      using no i by (simp add: owned_handed_out [OF rel] block_start_parts)
    ultimately show ?thesis using i by (simp add: owned_def Let_def rel(2) block_start_parts)
  next
    case False
    then have "block_index q p = -1" using q block_index_exact [of q p] by (auto simp: rel(2))
    then show ?thesis by simp
  qed
qed

lemma release_held:
  assumes r: "shows_heap p h" and held: "handed_out h q" and start: "offset_of (origin h) q = 0"
  shows "shows_heap (snd (memory_free q p)) (h\<lparr>spare := nat (block_of (origin h) q) # spare h,
    bytes := (\<lambda>a. if block_of (origin h) a = block_of (origin h) q then None else bytes h a)\<rparr>)"
proof -
  let ?k = "block_of (origin h) q" and ?p' = "snd (memory_free q p)"
  have rel: "pool_rel p (spare h)" "pool_base p = origin h" and b: "\<And>a b. bytes h a = Some b \<Longrightarrow> handed_out h a \<and> byte_at p a = b"
    using r by (auto simp: shows_heap_def)
  have k: "0 \<le> ?k" "nat ?k < 16" "nat ?k \<in> live_blocks p"
    using handed_outD [OF held] by (simp_all add: pool_rel_live [OF rel(1)])
  have ptr: "block_ptr i p = block_start h i" for i by (simp add: block_ptr_def block_start_def rel(2))
  have q: "block_ptr (nat ?k) p = q"
    unfolding ptr by (rule block_start_of [OF start k(1), symmetric])
  have idx: "block_index q p = int (nat ?k)" using block_index_ptr [OF k(2) refl, of p] unfolding q .
  have "block_ptr (nat ?k) p \<noteq> 0" using pool_rel_base [OF rel(1)] by (simp add: block_ptr_def)
  then have "q \<noteq> 0" unfolding q .
  then have rel': "pool_rel ?p' (nat ?k # spare h)" "pool_base ?p' = origin h"
    using memory_free_rel [OF rel(1) _ idx k(3)] rel(2) by auto
  have "handed_out (h\<lparr>spare := nat ?k # spare h\<rparr>) a \<and> byte_at ?p' a = v"
    if "bytes h a = Some v" and "block_of (origin h) a \<noteq> ?k" for a v
  proof -
    let ?j = "block_of (origin h) a"
    have a: "handed_out h a" "byte_at p a = v" using b [OF that(1)] by simp_all
    then have "0 \<le> ?j" by (simp add: handed_out_iff)
    then have "nat ?j \<noteq> nat ?k" using that(2) k(1) by (simp add: eq_nat_nat_iff)
    then have "g_pool_storage ?p' ! nat ?j = g_pool_storage p ! nat ?j"
      by (intro free_storage) (simp only: idx nat_int not_False_eq_True)
    then have "byte_at ?p' a = v" using a(2) by (simp add: byte_at_def rel'(2) rel(2))
    then show ?thesis using a(1) that(2) k(1) by (simp add: handed_out_iff eq_nat_nat_iff)
  qed
  then show ?thesis using rel' by (simp add: shows_heap_def handed_out_iff)
qed

text \<open>Call by call, the pool answers as the abstract allocator does.\<close>

lemma call_shows:
  assumes r: "shows_heap p h" and c: "call_heap c h = Some (x, h')"
  shows "returns (call_pool c p) (\<lambda>(y, p'). agrees y x \<and> shows_heap p' h')"
proof -
  have rel: "pool_rel p (spare h)" "pool_base p = origin h" and b: "\<And>a b. bytes h a = Some b \<Longrightarrow> handed_out h a \<and> byte_at p a = b"
    using r by (auto simp: shows_heap_def)
  show ?thesis
  proof (cases c)
    case Allocate
    show ?thesis
    proof (cases "spare h")
      case Nil
      then show ?thesis using memory_alloc_empty [of p] rel c r Allocate by auto
    next
      case (Cons i fl)
      then obtain p' m where p': "memory_alloc p = Inr (block_ptr i p, m, p')" "pool_rel p' fl"
        "pool_base p' = pool_base p" "g_pool_storage p' = g_pool_storage p"
        using memory_alloc_rel [of p i fl] rel by auto
      then have "shows_heap p' (h\<lparr>spare := fl\<rparr>)"
        using b Cons rel(2) by (simp add: shows_heap_def handed_out_iff byte_at_def)
      then show ?thesis
        using c Allocate Cons p'(1) rel(2) by (auto simp: block_ptr_def block_start_def)
    qed
  next
    case (Release q)
    then show ?thesis
      using c r release_ignored [OF r, of q] release_held [OF r, of q]
      by (auto simp: Let_def split: if_splits)
  next
    case (Poke a v)
    then have a: "handed_out h a" and h': "h' = h\<lparr>bytes := (bytes h)(a \<mapsto> v)\<rparr>" and x: "x = Some Finished"
      using c by (auto split: if_splits)
    let ?p' = "pool_store (nat (block_of (pool_base p) a)) (offset_of (pool_base p) a) v p"
    have o: "owned p a" using a by (simp add: owned_handed_out [OF rel])
    have "nat (block_of (pool_base p) a) \<in> live_blocks p"
      using o by (auto simp: owned_def live_blocks_def Let_def)
    then have "pool_rel ?p' (spare h)" by (rule pool_store_rel [OF rel(1)])
    moreover have "pool_base ?p' = origin h" by (simp add: pool_store_def rel(2))
    moreover have "pool_shape p" using rel(1) by (simp add: pool_rel_def)
    ultimately have "shows_heap ?p' h'"
      using b a byte_at_store [OF _ a rel(2)] by (simp add: shows_heap_def h' handed_out_iff)
    then show ?thesis using Poke o x by simp
  next
    case (Peek a)
    then show ?thesis
      using c r b by (cases "bytes h a") (auto simp: owned_handed_out [OF rel] split: if_splits)
  qed
qed

lemma calls_show:
  "shows_heap p h \<Longrightarrow> heap_all cs h = Some (xs, h') \<Longrightarrow>
   returns (call_all cs p) (\<lambda>(ys, p'). list_all2 agrees ys xs \<and> shows_heap p' h')"
proof (induction cs arbitrary: p h xs)
  case Nil
  then show ?case by simp
next
  case (Cons c cs)
  from Cons.prems(2) obtain x h1 xs1 where x: "call_heap c h = Some (x, h1)" "heap_all cs h1 = Some (xs1, h')" "xs = x # xs1"
    by (auto split: option.splits)
  obtain y p1 where y: "call_pool c p = Inr (y, p1)" "agrees y x" "shows_heap p1 h1"
    using call_shows [OF Cons.prems(1) x(1)] by (auto elim: returnsE)
  obtain ys p2 where "call_all cs p1 = Inr (ys, p2)" "list_all2 agrees ys xs1" "shows_heap p2 h'"
    using Cons.IH [OF y(3) x(2)] by (auto elim: returnsE)
  then show ?case by (simp add: y x(3))
qed

lemma shows_new_heap: "pool_shape p \<Longrightarrow> shows_heap (snd (memory_init p)) (new_heap (pool_base p))"
  using memory_init_rel [of p] by (simp add: shows_heap_def new_heap_def)

section \<open>Properties\<close>

text \<open>
  C8: The pool implements the abstract allocator. Whatever sequence of calls a client makes after
  \<open>memory_init\<close> (double frees and frees of foreign pointers below \<open>pool_base + 2^36\<close> included), as long
  as it writes and reads only inside blocks it holds, no call faults, each \<open>memory_alloc\<close> returns the block freed last, or else
  the next one in order, or null when all are handed out, and each byte read is the byte the client last
  wrote there: the links the pool keeps inside free blocks never reach a block in use.
\<close>

theorem memory_pool_refines:
  assumes "pool_shape p" and "heap_all cs (new_heap (pool_base p)) = Some (xs, h)"
  shows "returns (call_all cs (snd (memory_init p))) (\<lambda>(ys, p').
    list_all2 agrees ys xs \<and> memory_available_blocks p' = int (length (spare h)))"
  by (rule returns_mono [OF calls_show [OF shows_new_heap [OF assms(1)] assms(2)]])
    (auto simp: shows_heap_def pool_rel_def memory_available_blocks_def)

theorem memory_pool_refines_witness:
  "\<exists>p'. call_all [Allocate, Allocate, Poke 4099 7, Poke 4128 9, Release 4128, Release 4128, Release 4097, Allocate, Peek 4099]
       (snd (memory_init pool_example)) =
     Inr ([Pointer 4096, Pointer 4128, Finished, Finished, Finished, Finished, Finished, Pointer 4128, Byte 7], p')"
proof -
  have b: "pool_base pool_example = 4096" by (simp add: pool_example_def)
  have h: "\<exists>h. heap_all [Allocate, Allocate, Poke 4099 7, Poke 4128 9, Release 4128, Release 4128, Release 4097, Allocate, Peek 4099]
      (new_heap (pool_base pool_example)) = Some (map Some [Pointer 4096, Pointer 4128, Finished, Finished, Finished, Finished,
        Finished, Pointer 4128, Byte 7], h)"
    unfolding b
    by (simp add: new_heap_def handed_out_def block_of_def offset_of_def block_start_def upt_conv_Cons Let_def)
  show ?thesis
    using h memory_pool_refines [OF pool_example_shape]
    by (fastforce simp: list_all2_Cons2 elim!: returnsE)
qed

end
