(* ===== verification/Cpu_Context.thy ===== *)
theory Cpu_Context
  imports Prelude
begin

text \<open>
  The software CPU context of \<open>context.h\<close> and \<open>context.c\<close>: the register file
  \<open>CPUContext\<close>, the module-private \<open>active_context\<close> and the six operations on it.
  The operations take pointers, which may be null, may point to \<open>active_context\<close> itself
  (\<open>context_active\<close> hands that pointer out) and may alias each other; so they are modelled
  over an explicit store, and every read of a pointer happens after the writes that precede it
  in the code.
\<close>

section \<open>Registers and the store of contexts\<close>

record CPUContext =
  r0 :: "32 word"
  r1 :: "32 word"
  r2 :: "32 word"
  r3 :: "32 word"
  r4 :: "32 word"
  r5 :: "32 word"
  r6 :: "32 word"
  r7 :: "32 word"
  r8 :: "32 word"
  r9 :: "32 word"
  r10 :: "32 word"
  r11 :: "32 word"
  r12 :: "32 word"
  lr :: "32 word"
  pc :: "32 word"
  xpsr :: "32 word"

text \<open>
  A \<open>CPUContext *\<close> is null, the address of \<open>active_context\<close>, or the address of a context
  owned by somebody else (a TCB), told apart by a number.
\<close>

datatype ctx_ptr = CtxNull | CtxActive | CtxObj nat

record ctx_mem =
  active_reg :: CPUContext
  ctx_objs :: "nat \<Rightarrow> CPUContext"

fun ctx_read :: "ctx_ptr \<Rightarrow> ctx_mem \<Rightarrow> CPUContext option" where
  "ctx_read CtxNull m = None"
| "ctx_read CtxActive m = Some (active_reg m)"
| "ctx_read (CtxObj i) m = Some (ctx_objs m i)"

fun ctx_write :: "ctx_ptr \<Rightarrow> CPUContext \<Rightarrow> ctx_mem \<Rightarrow> ctx_mem" where
  "ctx_write CtxNull c m = m"
| "ctx_write CtxActive c m = m\<lparr>active_reg := c\<rparr>"
| "ctx_write (CtxObj i) c m = m\<lparr>ctx_objs := (ctx_objs m)(i := c)\<rparr>"

section \<open>Operations\<close>

definition CONTEXT_INITIAL_XPSR :: "32 word" where
  "CONTEXT_INITIAL_XPSR = 0x01000000"

definition CONTEXT_INITIAL_LR :: "32 word" where
  "CONTEXT_INITIAL_LR = 0xFFFFFFFD"

definition context_clear :: CPUContext where
  "context_clear = \<lparr>r0 = 0, r1 = 0, r2 = 0, r3 = 0, r4 = 0, r5 = 0, r6 = 0, r7 = 0,
     r8 = 0, r9 = 0, r10 = 0, r11 = 0, r12 = 0, lr = 0, pc = 0, xpsr = 0\<rparr>"

text \<open>
  A function pointer is a 64-bit address; \<open>(uint32_t)(uintptr_t)entry_point\<close> keeps its low
  32 bits.
\<close>

definition init_regs :: "64 word \<Rightarrow> CPUContext" where
  "init_regs entry_point =
     context_clear\<lparr>lr := CONTEXT_INITIAL_LR, pc := ucast entry_point,
       xpsr := CONTEXT_INITIAL_XPSR\<rparr>"

definition context_init :: "ctx_ptr \<Rightarrow> 64 word \<Rightarrow> ctx_mem \<Rightarrow> ctx_mem" where
  "context_init context entry_point m =
     (if context = CtxNull then m else ctx_write context (init_regs entry_point) m)"

definition context_copy :: "ctx_ptr \<Rightarrow> ctx_ptr \<Rightarrow> ctx_mem \<Rightarrow> ctx_mem" where
  "context_copy destination source m =
     (if destination = CtxNull \<or> source = CtxNull then m
      else case ctx_read source m of None \<Rightarrow> m | Some c \<Rightarrow> ctx_write destination c m)"

definition context_save :: "ctx_ptr \<Rightarrow> ctx_mem \<Rightarrow> ctx_mem" where
  "context_save destination m =
     (if destination = CtxNull then m else context_copy destination CtxActive m)"

definition context_restore :: "ctx_ptr \<Rightarrow> ctx_mem \<Rightarrow> ctx_mem" where
  "context_restore source m =
     (if source = CtxNull then m else context_copy CtxActive source m)"

definition context_active :: ctx_ptr where
  "context_active = CtxActive"

definition context_switch :: "ctx_ptr \<Rightarrow> ctx_ptr \<Rightarrow> ctx_mem \<Rightarrow> ctx_mem" where
  "context_switch outgoing incoming m =
     (if outgoing = CtxNull \<or> incoming = CtxNull then m
      else context_copy CtxActive incoming (context_copy outgoing CtxActive m))"

section \<open>Lemmas\<close>

lemma ctx_read_eq_None [simp]: "ctx_read p m = None \<longleftrightarrow> p = CtxNull"
  by (cases p) auto

lemma ctx_read_write_same [simp]: "p \<noteq> CtxNull \<Longrightarrow> ctx_read p (ctx_write p c m) = Some c"
  by (cases p) auto

lemma ctx_read_write_other [simp]: "p \<noteq> q \<Longrightarrow> ctx_read p (ctx_write q c m) = ctx_read p m"
  by (cases p; cases q) auto

lemma ctx_write_id: "ctx_read p m = Some c \<Longrightarrow> ctx_write p c m = m"
  by (cases p) auto

lemma context_copy_reads:
  assumes "d \<noteq> CtxNull" and "s \<noteq> CtxNull"
  shows "ctx_read d (context_copy d s m) = ctx_read s m"
    and "p \<noteq> d \<Longrightarrow> ctx_read p (context_copy d s m) = ctx_read p m"
  using assms by (auto simp: context_copy_def split: option.splits)

lemma context_switch_objs [simp]:
  "context_switch (CtxObj i) (CtxObj j) m =
     m\<lparr>active_reg := (if i = j then active_reg m else ctx_objs m j),
       ctx_objs := (ctx_objs m)(i := active_reg m)\<rparr>"
  by (simp add: context_switch_def context_copy_def)

lemma context_restore_obj [simp]:
  "context_restore (CtxObj j) m = m\<lparr>active_reg := ctx_objs m j\<rparr>"
  by (simp add: context_restore_def context_copy_def)

lemma context_init_obj [simp]:
  "context_init (CtxObj j) f m = m\<lparr>ctx_objs := (ctx_objs m)(j := init_regs f)\<rparr>"
  by (simp add: context_init_def)

section \<open>Properties\<close>

text \<open>
  C32: A context switch between two distinct valid contexts loads the incoming registers into
  the active context, stores the previously active registers in the outgoing context, and
  changes no other context.
\<close>

theorem context_switch_exchanges:
  assumes "outgoing \<noteq> CtxNull" and "incoming \<noteq> CtxNull" and "outgoing \<noteq> CtxActive"
    and "incoming \<noteq> outgoing"
  shows "ctx_read CtxActive (context_switch outgoing incoming m) = ctx_read incoming m \<and>
    ctx_read outgoing (context_switch outgoing incoming m) = ctx_read CtxActive m \<and>
    (p \<noteq> CtxActive \<and> p \<noteq> outgoing \<longrightarrow>
       ctx_read p (context_switch outgoing incoming m) = ctx_read p m)"
  using assms
  by (simp add: context_switch_def context_copy_reads del: ctx_read.simps)

theorem context_switch_exchanges_witness:
  "ctx_read CtxActive
     (context_switch (CtxObj 0) (CtxObj 1)
        \<lparr>active_reg = init_regs 7, ctx_objs = (\<lambda>i. init_regs (of_nat i))\<rparr>)
   = Some (init_regs 1)"
proof -
  have "CtxObj 0 \<noteq> CtxNull" "CtxObj 1 \<noteq> CtxNull" "CtxObj 0 \<noteq> CtxActive" "CtxObj 1 \<noteq> CtxObj 0"
    by simp_all
  from context_switch_exchanges [OF this, where m = "\<lparr>active_reg = init_regs 7,
      ctx_objs = (\<lambda>i. init_regs (of_nat i))\<rparr>" and p = CtxNull]
  show ?thesis by (auto simp del: context_switch_objs)
qed

text \<open>
  A task that is switched out and later switched back in resumes with exactly the
  registers it had, whatever ran in between, as long as nobody wrote its saved context.
\<close>

lemma context_switch_roundtrip:
  assumes "outgoing \<noteq> CtxNull" and "outgoing \<noteq> CtxActive" and "incoming \<noteq> CtxNull"
    and "incoming \<noteq> outgoing"
    and "ctx_read outgoing m' = ctx_read outgoing (context_switch outgoing incoming m)"
    and "other \<noteq> CtxNull" and "other \<noteq> outgoing"
  shows "ctx_read CtxActive (context_switch other outgoing m') = ctx_read CtxActive m"
  using assms
  by (simp add: context_switch_def context_copy_reads del: ctx_read.simps)

end
