(* ===== verification/Kernel_State.thy ===== *)
theory Kernel_State
  imports Cpu_Context Memory_Pool
begin

text \<open>
  The data of the kernel: the types of \<open>rtos.h\<close> and \<open>timer.h\<close>, the messages of the simulated
  UART, and one record for the static variables of all the modules. The record is extensible:
  an application adds its own static variables as further fields, so every kernel operation
  below is polymorphic in them and cannot touch them.
\<close>

section \<open>Configuration and addresses\<close>

definition RTOS_MAX_TASKS :: nat where "RTOS_MAX_TASKS = 8"

definition RTOS_QUEUE_SIZE :: nat where "RTOS_QUEUE_SIZE = 10"

definition RTOS_STACK_SIZE :: nat where "RTOS_STACK_SIZE = 256"

definition RTOS_SOFT_TIMER_COUNT :: nat where "RTOS_SOFT_TIMER_COUNT = 8"

definition RTOS_TIME_SLICE_TICKS :: "32 word" where "RTOS_TIME_SLICE_TICKS = 1"

text \<open>\<open>RtosStackWord\<close> is a \<open>uintptr_t\<close>: eight bytes on the 64-bit hosts the simulator runs on.\<close>

definition RTOS_STACK_WORDS :: nat where "RTOS_STACK_WORDS = RTOS_STACK_SIZE div 8"

lemmas rtos_consts [simp] =
  RTOS_MAX_TASKS_def RTOS_QUEUE_SIZE_def RTOS_SOFT_TIMER_COUNT_def RTOS_TIME_SLICE_TICKS_def

text \<open>A function pointer, or the opaque argument of a callback; 0 is the null pointer.\<close>

type_synonym addr = "64 word"

section \<open>Tasks\<close>

datatype TaskState = TASK_READY | TASK_RUNNING | TASK_BLOCKED | TASK_SUSPENDED

datatype BlockReason = BLOCK_NONE | BLOCK_SLEEP | BLOCK_SEMAPHORE | BLOCK_MUTEX
  | BLOCK_QUEUE_EMPTY | BLOCK_QUEUE_FULL | BLOCK_EVENT

text \<open>
  \<open>stack_pointer\<close> points into the task's own \<open>stack_memory\<close>: it is the word offset from its
  start (\<open>RTOS_STACK_WORDS\<close> for the pointer one past the end).
\<close>

record TCB =
  task_id :: int
  priority :: int
  state :: TaskState
  block_reason :: BlockReason
  sleep_ticks :: int
  stack_memory :: "64 word list"
  stack_size :: nat
  stack_pointer :: nat
  cpu_context :: CPUContext
  task_function :: addr
  task_name :: string
  slice_ticks_used :: "32 word"

section \<open>Software timers\<close>

datatype TimerMode = TIMER_ONE_SHOT | TIMER_PERIODIC

record SoftTimer =
  timer_name :: string
  mode :: TimerMode
  period_ticks :: "32 word"
  remaining :: "32 word"
  callback :: addr
  timer_arg :: addr
  active :: bool
  in_use :: bool

section \<open>What the kernel logs\<close>

text \<open>
  One constructor per format string of \<open>uart_log\<close>, by module, with the values it prints.
\<close>

datatype switch_reason = First_tick | Forced | Preempted | Slice_expired

datatype sched_log =
    LogCurrentTask "32 word" string TaskState
  | LogContextSaved "32 word" string
  | LogContextSwitch "32 word" switch_reason "string option" string
  | LogNextTask "32 word" string int
  | LogContextRestored "32 word" string "32 word" "32 word"
  | LogTaskRunning "32 word" nat string nat nat
  | LogTaskState "32 word" string TaskState
  | LogIdle "32 word"
  | LogForcedSwitch "32 word" string TaskState string
  | LogPreempted "32 word" string int string int
  | LogSliceExpired "32 word" string string "32 word"
  | LogContinue "32 word" string "32 word" int
  | LogUnblocked string

datatype timer_log =
    LogTimerExpired "32 word" string TimerMode
  | LogCallbackExecuting "32 word" string
  | LogCallbackDone "32 word" string
  | LogTimerReload "32 word" string "32 word"
  | LogOneShotComplete "32 word" string
  | LogSleepExpired "32 word" string
  | LogCreateNullCallback "string option"
  | LogCreateZeroPeriod "string option"
  | LogTimerCreated string TimerMode "32 word"
  | LogTimerPoolExhausted
  | LogTimerStartIgnored
  | LogTimerStarted string "32 word"
  | LogTimerStopIgnored
  | LogTimerStopped string
  | LogTimerDeleteIgnored
  | LogTimerDeleted string

datatype rtos_log =
    LogTaskTableFull
  | LogTaskCreated string int
  | LogTaskSuspended string
  | LogTaskResumed string
  | LogSemAcquired string int
  | LogSemWaiting string
  | LogSemReleased int
  | LogMutexLocked string
  | LogMutexWaiting string
  | LogMutexUnlockIgnored string
  | LogMutexReleased string
  | LogQueueFull string
  | LogQueueSend string int int
  | LogQueueEmpty string
  | LogQueueReceive string int int

datatype event_log =
    LogEventSet "32 word" "32 word"
  | LogEventWake int "32 word"
  | LogEventClear "32 word" "32 word"
  | LogEventWaitOk "32 word" "32 word"
  | LogEventWaitFull "32 word"
  | LogEventWait int "32 word"

datatype logmsg = Sched sched_log | Timer timer_log | Rtos rtos_log | Pool pool_log
  | Event event_log | App string "int list"

section \<open>The static variables of all modules\<close>

text \<open>
  \<open>task_list\<close>, \<open>task_count\<close>, \<open>current_task_index\<close> are those of \<open>rtos.c\<close>. The pointers
  of the same names in \<open>scheduler.c\<close>, and \<open>g_tasks\<close>, \<open>g_task_count\<close> in \<open>timer.c\<close>, are null
  until \<open>scheduler_init\<close> and \<open>timer_init\<close> bind them to those variables; \<open>sched_bound\<close> and
  \<open>timer_bound\<close> say whether that has happened. The entries of \<open>ready_queue\<close> and the counters
  \<open>task_count\<close>, \<open>ready_count\<close> never leave the range of \<open>int\<close>. \<open>uart_out\<close> is the output so
  far, newest line first, each line with the minutes and seconds \<open>uart_log\<close> prints before it.
\<close>

record kernel =
  task_list :: "TCB list"
  task_count :: nat
  current_task_index :: int
  sched_bound :: bool
  ready_queue :: "int list"
  ready_count :: nat
  active_context :: CPUContext
  g_kernel_tick :: "32 word"
  timer_bound :: bool
  g_soft_timers :: "SoftTimer list"
  mem_pool :: pool
  uart_out :: "(int \<times> int \<times> logmsg) list"

definition timer_now :: "'a kernel_scheme \<Rightarrow> 32 word" where
  "timer_now s = g_kernel_tick s"

definition uart_log :: "logmsg \<Rightarrow> 'a kernel_scheme \<Rightarrow> 'a kernel_scheme" where
  "uart_log msg s =
     s\<lparr>uart_out := (to_int (uint (timer_now s div 60)), to_int (uint (timer_now s mod 60)), msg)
        # uart_out s\<rparr>"

text \<open>The task at an index, and an update of it.\<close>

abbreviation tcb :: "'a kernel_scheme \<Rightarrow> nat \<Rightarrow> TCB" where
  "tcb s i \<equiv> task_list s ! i"

definition upd_tcb :: "nat \<Rightarrow> (TCB \<Rightarrow> TCB) \<Rightarrow> 'a kernel_scheme \<Rightarrow> 'a kernel_scheme" where
  "upd_tcb i f s = s\<lparr>task_list := (task_list s)[i := f (task_list s ! i)]\<rparr>"

text \<open>\<open>rtos_current_task\<close>: the index of the task the returned pointer points to, or none.\<close>

definition rtos_current_task :: "'a kernel_scheme \<Rightarrow> nat option" where
  "rtos_current_task s =
     (if current_task_index s < 0 \<or> current_task_index s \<ge> int (task_count s) then None
      else Some (nat (current_task_index s)))"

lemma uart_log_fields [simp]:
  "task_list (uart_log m s) = task_list s"
  "task_count (uart_log m s) = task_count s"
  "current_task_index (uart_log m s) = current_task_index s"
  "sched_bound (uart_log m s) = sched_bound s"
  "ready_queue (uart_log m s) = ready_queue s"
  "ready_count (uart_log m s) = ready_count s"
  "active_context (uart_log m s) = active_context s"
  "g_kernel_tick (uart_log m s) = g_kernel_tick s"
  "timer_bound (uart_log m s) = timer_bound s"
  "g_soft_timers (uart_log m s) = g_soft_timers s"
  "mem_pool (uart_log m s) = mem_pool s"
  "kernel.more (uart_log m s) = kernel.more s"
  by (simp_all add: uart_log_def)

lemma upd_tcb_fields [simp]:
  "task_list (upd_tcb i f s) = (task_list s)[i := f (task_list s ! i)]"
  "task_count (upd_tcb i f s) = task_count s"
  "current_task_index (upd_tcb i f s) = current_task_index s"
  "sched_bound (upd_tcb i f s) = sched_bound s"
  "ready_queue (upd_tcb i f s) = ready_queue s"
  "ready_count (upd_tcb i f s) = ready_count s"
  "active_context (upd_tcb i f s) = active_context s"
  "g_kernel_tick (upd_tcb i f s) = g_kernel_tick s"
  "timer_bound (upd_tcb i f s) = timer_bound s"
  "g_soft_timers (upd_tcb i f s) = g_soft_timers s"
  "mem_pool (upd_tcb i f s) = mem_pool s"
  "uart_out (upd_tcb i f s) = uart_out s"
  "kernel.more (upd_tcb i f s) = kernel.more s"
  by (simp_all add: upd_tcb_def)

text \<open>The lines the application has logged, with their time stamps, newest first.\<close>

fun app_line :: "int \<times> int \<times> logmsg \<Rightarrow> (int \<times> int \<times> string \<times> int list) option" where
  "app_line (mm, ss, App m xs) = Some (mm, ss, m, xs)"
| "app_line _ = None"

definition app_lines :: "'a kernel_scheme \<Rightarrow> (int \<times> int \<times> string \<times> int list) list" where
  "app_lines s = List.map_filter app_line (uart_out s)"

lemma app_lines_log [simp]:
  "app_lines (uart_log (App m xs) s) =
     (to_int (uint (timer_now s div 60)), to_int (uint (timer_now s mod 60)), m, xs) # app_lines s"
  "app_lines (uart_log (Sched a) s) = app_lines s"
  "app_lines (uart_log (Timer b) s) = app_lines s"
  "app_lines (uart_log (Rtos c) s) = app_lines s"
  "app_lines (uart_log (Pool d) s) = app_lines s"
  "app_lines (uart_log (Event e) s) = app_lines s"
  by (simp_all add: app_lines_def uart_log_def)

lemma app_lines_cong: "uart_out t = uart_out s \<Longrightarrow> app_lines t = app_lines s"
  by (simp add: app_lines_def)

lemma app_lines_upd_tcb [simp]: "app_lines (upd_tcb i f s) = app_lines s"
  by (rule app_lines_cong) simp

lemma rtos_current_task_Some:
  "rtos_current_task s = Some i \<longleftrightarrow> current_task_index s = int i \<and> i < task_count s"
  by (auto simp: rtos_current_task_def)

lemma rtos_current_task_None:
  "rtos_current_task s = None \<longleftrightarrow> current_task_index s < 0 \<or> int (task_count s) \<le> current_task_index s"
  by (auto simp: rtos_current_task_def)

section \<open>Application code\<close>

text \<open>
  Task functions and timer callbacks are application code, reached through function pointers.
  They are parameters of the model: what calling an address does to the state (the kernel's
  variables, through the API, and the application's own). A call through a null pointer faults.
\<close>

record 's app =
  app_task :: "addr \<Rightarrow> 's \<Rightarrow> 's res"
  app_callback :: "addr \<Rightarrow> addr \<Rightarrow> 's \<Rightarrow> 's res"

definition call_task :: "'s app \<Rightarrow> addr \<Rightarrow> 's \<Rightarrow> 's res" where
  "call_task app f s = (if f = 0 then Inl NullCall else app_task app f s)"

definition call_callback :: "'s app \<Rightarrow> addr \<Rightarrow> addr \<Rightarrow> 's \<Rightarrow> 's res" where
  "call_callback app f arg s = (if f = 0 then Inl NullCall else app_callback app f arg s)"

section \<open>The state before main\<close>

text \<open>
  Static objects without an initialiser are zero; \<open>current_task_index\<close> is initialised to -1.
  The zero of an enumeration is its first constructor. \<open>base\<close> is the address of
  \<open>g_pool_storage\<close>, \<open>app\<close> the initial value of the application's own variables.
\<close>

definition zero_tcb :: TCB where
  "zero_tcb = \<lparr>task_id = 0, priority = 0, state = TASK_READY, block_reason = BLOCK_NONE,
     sleep_ticks = 0, stack_memory = replicate RTOS_STACK_WORDS 0, stack_size = 0,
     stack_pointer = 0, cpu_context = context_clear, task_function = 0, task_name = [],
     slice_ticks_used = 0\<rparr>"

definition zero_timer :: SoftTimer where
  "zero_timer = \<lparr>timer_name = [], mode = TIMER_ONE_SHOT, period_ticks = 0, remaining = 0,
     callback = 0, timer_arg = 0, active = False, in_use = False\<rparr>"

definition zero_pool :: "int \<Rightarrow> pool" where
  "zero_pool base = \<lparr>pool_base = base,
     g_pool_storage = replicate RTOS_POOL_BLOCK_COUNT (replicate RTOS_POOL_BLOCK_SIZE 0),
     g_pool_allocated = replicate RTOS_POOL_BLOCK_COUNT 0,
     g_free_list_head = 0, g_available_blocks = 0\<rparr>"

definition boot :: "int \<Rightarrow> 'a \<Rightarrow> 'a kernel_scheme" where
  "boot base app = \<lparr>task_list = replicate RTOS_MAX_TASKS zero_tcb, task_count = 0,
     current_task_index = -1, sched_bound = False, ready_queue = replicate RTOS_MAX_TASKS 0,
     ready_count = 0, active_context = context_clear, g_kernel_tick = 0, timer_bound = False,
     g_soft_timers = replicate RTOS_SOFT_TIMER_COUNT zero_timer, mem_pool = zero_pool base,
     uart_out = [], \<dots> = app\<rparr>"

lemma zero_pool_shape [simp]: "0 < base \<Longrightarrow> pool_shape (zero_pool base)"
  by (simp add: zero_pool_def pool_shape_def)

end
