(* ===== verification/Ready_Queue.thy ===== *)
theory Ready_Queue
  imports Kernel_State
begin

text \<open>
  The static ready queue of \<open>scheduler.c\<close>: an array of eight task indices of which the first
  \<open>ready_count\<close> are live. The four primitives are modelled loop by loop on the array; the lemmas
  say what they do to the list \<open>rq_list\<close> of the live entries, which is what the rest of the
  development reasons about.
\<close>

section \<open>The primitives\<close>

definition ready_queue_contains :: "int \<Rightarrow> 'a kernel_scheme \<Rightarrow> bool" where
  "ready_queue_contains task_index s \<longleftrightarrow> (\<exists>i<ready_count s. ready_queue s ! i = task_index)"

text \<open>The body of the inner loop that closes the gap.\<close>

definition shift_left :: "nat \<Rightarrow> int list \<Rightarrow> int list" where
  "shift_left j q = q[j := q ! (j + 1)]"

text \<open>The scan for the entry, with the number of entries still to look at.\<close>

primrec remove_scan :: "nat \<Rightarrow> nat \<Rightarrow> int \<Rightarrow> 'a kernel_scheme \<Rightarrow> 'a kernel_scheme" where
  "remove_scan 0 i task_index s = s"
| "remove_scan (Suc n) i task_index s =
     (if ready_queue s ! i \<noteq> task_index then remove_scan n (Suc i) task_index s
      else s\<lparr>ready_queue := loop_range i (ready_count s - 1 - i) shift_left (ready_queue s),
             ready_count := ready_count s - 1\<rparr>)"

definition ready_queue_remove :: "int \<Rightarrow> 'a kernel_scheme \<Rightarrow> 'a kernel_scheme" where
  "ready_queue_remove task_index s = remove_scan (ready_count s) 0 task_index s"

definition ready_queue_enqueue :: "int \<Rightarrow> 'a kernel_scheme \<Rightarrow> 'a kernel_scheme" where
  "ready_queue_enqueue task_index s =
     (if \<not> sched_bound s then s
      else if task_index < 0 \<or> task_index \<ge> int (task_count s) then s
      else if state (tcb s (nat task_index)) \<noteq> TASK_READY then s
      else if ready_count s \<ge> RTOS_MAX_TASKS \<or> ready_queue_contains task_index s then s
      else s\<lparr>ready_queue := (ready_queue s)[ready_count s := task_index],
             ready_count := ready_count s + 1\<rparr>)"

lemma remove_scan_count:
  "ready_count (remove_scan n i t s) \<le> ready_count s"
  by (induction n arbitrary: i) auto

lemma remove_scan_found:
  "i \<le> k \<Longrightarrow> k < i + n \<Longrightarrow> ready_queue s ! k = t \<Longrightarrow> 0 < ready_count s \<Longrightarrow>
   ready_count (remove_scan n i t s) < ready_count s"
proof (induction n arbitrary: i)
  case (Suc n)
  then show ?case by (cases "i = k") auto
qed simp

lemma ready_queue_remove_less:
  "i < ready_count s \<Longrightarrow>
   ready_count (ready_queue_remove (ready_queue s ! i) s) - i < ready_count s - i"
  using remove_scan_found [of 0 i "ready_count s" s] by (fastforce simp: ready_queue_remove_def)

text \<open>
  The scan of \<open>ready_queue_peek_highest_priority\<close>: \<open>i\<close> is the loop index, which stays where it
  is after a stale entry has been removed (\<open>i--; continue;\<close>), and \<open>best\<close> is \<open>best_queue_pos\<close>.
\<close>

function peek_loop :: "nat \<Rightarrow> int \<Rightarrow> 'a kernel_scheme \<Rightarrow> int \<times> 'a kernel_scheme" where
  "peek_loop i best s =
     (if i < ready_count s then
        let task_index = ready_queue s ! i in
        if state (tcb s (nat task_index)) \<noteq> TASK_READY then
          peek_loop i best (ready_queue_remove task_index s)
        else if best < 0 \<or>
            priority (tcb s (nat task_index)) >
            priority (tcb s (nat (ready_queue s ! nat best))) then
          peek_loop (i + 1) (int i) s
        else peek_loop (i + 1) best s
      else (best, s))"
  by pat_completeness auto
termination
  by (relation "measure (\<lambda>(i, best, s). ready_count s - i)")
    (use ready_queue_remove_less in \<open>fastforce+\<close>)

declare peek_loop.simps [simp del]

definition ready_queue_peek_highest_priority :: "'a kernel_scheme \<Rightarrow> int \<times> 'a kernel_scheme" where
  "ready_queue_peek_highest_priority s =
     (let (best, s') = peek_loop 0 (-1) s
      in if best < 0 then (-1, s') else (ready_queue s' ! nat best, s'))"

definition ready_queue_pop :: "int \<Rightarrow> 'a kernel_scheme \<Rightarrow> 'a kernel_scheme" where
  "ready_queue_pop task_index s = ready_queue_remove task_index s"

section \<open>The queue as a list\<close>

definition rq_list :: "'a kernel_scheme \<Rightarrow> int list" where
  "rq_list s = take (ready_count s) (ready_queue s)"

text \<open>The array has eight cells and the count stays within them.\<close>

definition rq_wf :: "'a kernel_scheme \<Rightarrow> bool" where
  "rq_wf s \<longleftrightarrow> length (ready_queue s) = 8 \<and> ready_count s \<le> 8"

lemma rq_list_cong:
  "ready_queue s = ready_queue t \<Longrightarrow> ready_count s = ready_count t \<Longrightarrow> rq_list s = rq_list t"
  by (simp add: rq_list_def)

lemma length_rq_list [simp]: "rq_wf s \<Longrightarrow> length (rq_list s) = ready_count s"
  by (simp add: rq_list_def rq_wf_def)

lemma rq_list_frames [simp]:
  "rq_list (uart_log m s) = rq_list s"
  "rq_list (upd_tcb i f s) = rq_list s"
  "rq_wf (uart_log m s) = rq_wf s"
  "rq_wf (upd_tcb i f s) = rq_wf s"
  by (simp_all add: rq_list_def rq_wf_def)

lemma contains_rq_list: "rq_wf s \<Longrightarrow> ready_queue_contains t s \<longleftrightarrow> t \<in> set (rq_list s)"
  by (auto simp: ready_queue_contains_def rq_list_def rq_wf_def in_set_conv_nth)

lemma shift_loop:
  "i + m < length q \<Longrightarrow>
   loop_range i m shift_left q = take i q @ take m (drop (Suc i) q) @ drop (i + m) q"
proof (induction m arbitrary: i q)
  case 0
  then show ?case by simp
next
  case (Suc m)
  let ?q = "q[i := q ! Suc i]"
  have "loop_range i (Suc m) shift_left q = take (Suc i) ?q @ take m (drop (Suc (Suc i)) ?q) @ drop (Suc i + m) ?q"
    using Suc.IH [of "Suc i" ?q] Suc.prems shift_left_def [of i q] by simp
  moreover have "take (Suc i) ?q = take i q @ [q ! Suc i]"
    using Suc.prems by (simp add: take_Suc_update)
  moreover have "drop (Suc i) q = q ! Suc i # drop (Suc (Suc i)) q"
    using Suc.prems by (simp add: Cons_nth_drop_Suc)
  ultimately show ?case using Suc.prems by simp
qed

lemma take_remove1_nth:
  "i < n \<Longrightarrow> n \<le> length q \<Longrightarrow> t = q ! i \<Longrightarrow> t \<notin> set (take i q) \<Longrightarrow>
   remove1 t (take n q) = take i q @ take (n - Suc i) (drop (Suc i) q)"
proof -
  assume a: "i < n" "n \<le> length q" "t = q ! i" "t \<notin> set (take i q)"
  have "take n q = take i q @ t # take (n - Suc i) (drop (Suc i) q)"
    using a by (subst id_take_nth_drop [of i q])
      (auto simp: min_def Suc_diff_Suc take_Cons' dest: Suc_diff_Suc)
  then show ?thesis using a(4) by (simp add: remove1_append)
qed

lemma remove_scan_eq:
  "i + n = ready_count s \<Longrightarrow> ready_count s \<le> length (ready_queue s) \<Longrightarrow>
   t \<notin> set (take i (ready_queue s)) \<Longrightarrow>
   \<exists>q. remove_scan n i t s = s\<lparr>ready_queue := q,
          ready_count := length (remove1 t (rq_list s))\<rparr> \<and>
      length q = length (ready_queue s) \<and> take (length (remove1 t (rq_list s))) q = remove1 t (rq_list s)"
proof (induction n arbitrary: i)
  case 0
  then have "remove1 t (rq_list s) = rq_list s" by (simp add: rq_list_def remove1_idem)
  moreover have "length (rq_list s) = ready_count s" using 0 by (simp add: rq_list_def)
  moreover have "take (ready_count s) (ready_queue s) = rq_list s" by (simp add: rq_list_def)
  ultimately show ?case
    by (intro exI [of _ "ready_queue s"]) simp
next
  case (Suc n)
  let ?q = "ready_queue s"
  show ?case
  proof (cases "?q ! i = t")
    case False
    then have "t \<notin> set (take (Suc i) ?q)"
      using Suc.prems by (auto simp: take_Suc_conv_app_nth)
    then show ?thesis using Suc.IH [of "Suc i"] Suc.prems False by simp
  next
    case True
    let ?q' = "loop_range i (ready_count s - 1 - i) shift_left ?q"
    have N: "ready_count s = Suc (i + n)" using Suc.prems by simp
    have r: "remove1 t (rq_list s) = take i ?q @ take (ready_count s - Suc i) (drop (Suc i) ?q)"
      unfolding rq_list_def using Suc.prems True by (intro take_remove1_nth) auto
    have l: "?q' = take i ?q @ take (ready_count s - 1 - i) (drop (Suc i) ?q) @ drop (ready_count s - 1) ?q"
      using Suc.prems by (subst shift_loop) auto
    have "length (remove1 t (rq_list s)) = ready_count s - 1"
      using Suc.prems r by simp
    moreover have "take (ready_count s - 1) ?q' = remove1 t (rq_list s)"
      using Suc.prems N unfolding l r by simp
    moreover have "length ?q' = length ?q"
      using Suc.prems unfolding l by simp
    ultimately show ?thesis using True by (intro exI [of _ ?q']) simp
  qed
qed

text \<open>Both act on two fields only; on the list, removal is \<open>remove1\<close>.\<close>

lemma ready_queue_enqueue_form:
  "\<exists>q n. ready_queue_enqueue t s = s\<lparr>ready_queue := q, ready_count := n\<rparr>"
proof (cases "ready_queue_enqueue t s = s")
  case True
  then show ?thesis by (intro exI [of _ "ready_queue s"] exI [of _ "ready_count s"]) simp
next
  case False
  then have "ready_queue_enqueue t s =
      s\<lparr>ready_queue := (ready_queue s)[ready_count s := t], ready_count := ready_count s + 1\<rparr>"
    by (auto simp: ready_queue_enqueue_def split: if_splits)
  then show ?thesis by blast
qed

lemma ready_queue_remove_form:
  assumes "rq_wf s"
  shows "\<exists>q n. ready_queue_remove t s = s\<lparr>ready_queue := q, ready_count := n\<rparr> \<and>
    rq_list (ready_queue_remove t s) = remove1 t (rq_list s) \<and> rq_wf (ready_queue_remove t s)"
proof -
  obtain q where "ready_queue_remove t s = s\<lparr>ready_queue := q,
      ready_count := length (remove1 t (rq_list s))\<rparr>" "length q = length (ready_queue s)"
    "take (length (remove1 t (rq_list s))) q = remove1 t (rq_list s)"
    using remove_scan_eq [of 0 "ready_count s" s t] assms
    by (auto simp: ready_queue_remove_def rq_wf_def)
  moreover have "length (remove1 t (rq_list s)) \<le> 8"
    using assms length_rq_list [OF assms] by (auto simp: length_remove1 rq_wf_def)
  ultimately show ?thesis
    using assms by (intro exI [of _ q] exI) (simp add: rq_list_def rq_wf_def)
qed

lemma remove_scan_frames [simp]:
  "task_list (remove_scan n i t s) = task_list s"
  "task_count (remove_scan n i t s) = task_count s"
  "current_task_index (remove_scan n i t s) = current_task_index s"
  "sched_bound (remove_scan n i t s) = sched_bound s"
  "active_context (remove_scan n i t s) = active_context s"
  "g_kernel_tick (remove_scan n i t s) = g_kernel_tick s"
  "timer_bound (remove_scan n i t s) = timer_bound s"
  "g_soft_timers (remove_scan n i t s) = g_soft_timers s"
  "mem_pool (remove_scan n i t s) = mem_pool s"
  "uart_out (remove_scan n i t s) = uart_out s"
  "kernel.more (remove_scan n i t s) = kernel.more s"
  by (induction n arbitrary: i; simp)+

lemma ready_queue_remove_frames [simp]:
  "task_list (ready_queue_remove t s) = task_list s"
  "task_count (ready_queue_remove t s) = task_count s"
  "current_task_index (ready_queue_remove t s) = current_task_index s"
  "sched_bound (ready_queue_remove t s) = sched_bound s"
  "active_context (ready_queue_remove t s) = active_context s"
  "g_kernel_tick (ready_queue_remove t s) = g_kernel_tick s"
  "timer_bound (ready_queue_remove t s) = timer_bound s"
  "g_soft_timers (ready_queue_remove t s) = g_soft_timers s"
  "mem_pool (ready_queue_remove t s) = mem_pool s"
  "uart_out (ready_queue_remove t s) = uart_out s"
  "kernel.more (ready_queue_remove t s) = kernel.more s"
  by (simp_all add: ready_queue_remove_def)

lemma rq_list_remove [simp]: "rq_wf s \<Longrightarrow> rq_list (ready_queue_remove t s) = remove1 t (rq_list s)"
  using ready_queue_remove_form by blast

lemma rq_wf_remove [simp]: "rq_wf s \<Longrightarrow> rq_wf (ready_queue_remove t s)"
  using ready_queue_remove_form by blast

lemma ready_queue_enqueue_frames [simp]:
  "task_list (ready_queue_enqueue t s) = task_list s"
  "task_count (ready_queue_enqueue t s) = task_count s"
  "current_task_index (ready_queue_enqueue t s) = current_task_index s"
  "sched_bound (ready_queue_enqueue t s) = sched_bound s"
  "active_context (ready_queue_enqueue t s) = active_context s"
  "g_kernel_tick (ready_queue_enqueue t s) = g_kernel_tick s"
  "timer_bound (ready_queue_enqueue t s) = timer_bound s"
  "g_soft_timers (ready_queue_enqueue t s) = g_soft_timers s"
  "mem_pool (ready_queue_enqueue t s) = mem_pool s"
  "uart_out (ready_queue_enqueue t s) = uart_out s"
  "kernel.more (ready_queue_enqueue t s) = kernel.more s"
  by (simp_all add: ready_queue_enqueue_def)

text \<open>The guards of the enqueue, on the list.\<close>

definition may_enqueue :: "int \<Rightarrow> 'a kernel_scheme \<Rightarrow> bool" where
  "may_enqueue t s \<longleftrightarrow> sched_bound s \<and> 0 \<le> t \<and> t < int (task_count s) \<and>
     state (tcb s (nat t)) = TASK_READY \<and> length (rq_list s) < 8 \<and> t \<notin> set (rq_list s)"

lemma rq_list_enqueue [simp]:
  assumes "rq_wf s"
  shows "rq_list (ready_queue_enqueue t s) = (if may_enqueue t s then rq_list s @ [t] else rq_list s)"
proof (cases "may_enqueue t s")
  case True
  moreover from this have "ready_count s < length (ready_queue s)"
    using assms by (simp add: may_enqueue_def rq_wf_def [of s] rq_list_def)
  ultimately show ?thesis
    using assms contains_rq_list [OF assms, of t]
    by (simp add: ready_queue_enqueue_def may_enqueue_def) (simp add: rq_list_def take_Suc_update)
next
  case False
  then show ?thesis
    using assms contains_rq_list [OF assms, of t] length_rq_list [OF assms]
    by (auto simp: ready_queue_enqueue_def may_enqueue_def)
qed

lemma rq_wf_enqueue [simp]: "rq_wf s \<Longrightarrow> rq_wf (ready_queue_enqueue t s)"
  by (simp add: ready_queue_enqueue_def rq_wf_def)

section \<open>The priority scan\<close>

definition is_ready :: "'a kernel_scheme \<Rightarrow> int \<Rightarrow> bool" where
  "is_ready s t \<longleftrightarrow> state (tcb s (nat t)) = TASK_READY"

definition prio_of :: "'a kernel_scheme \<Rightarrow> int \<Rightarrow> int" where
  "prio_of s t = priority (tcb s (nat t))"

lemma ready_prio_frames [simp]:
  "is_ready (s\<lparr>ready_queue := q\<rparr>) = is_ready s" "is_ready (s\<lparr>ready_count := n\<rparr>) = is_ready s"
  "prio_of (s\<lparr>ready_queue := q\<rparr>) = prio_of s" "prio_of (s\<lparr>ready_count := n\<rparr>) = prio_of s"
  "is_ready (uart_log m s) = is_ready s" "prio_of (uart_log m s) = prio_of s"
  by (simp_all add: is_ready_def prio_of_def fun_eq_iff)

lemma ready_prio_remove [simp]:
  "is_ready (ready_queue_remove t s) = is_ready s" "prio_of (ready_queue_remove t s) = prio_of s"
  by (simp_all add: is_ready_def prio_of_def fun_eq_iff)

text \<open>What holds at the head of the scan: the entries before \<open>i\<close> are ready and \<open>best\<close> is the
  position of the first of them with the greatest priority.\<close>

definition peek_inv :: "nat \<Rightarrow> int \<Rightarrow> 'a kernel_scheme \<Rightarrow> bool" where
  "peek_inv i best s \<longleftrightarrow> rq_wf s \<and> i \<le> ready_count s \<and>
     (\<forall>t\<in>set (take i (rq_list s)). is_ready s t) \<and>
     (if best < 0 then i = 0
      else nat best < i \<and> first_max (prio_of s) (take i (rq_list s)) = Some (rq_list s ! nat best))"

lemma rq_nth: "rq_wf s \<Longrightarrow> i < ready_count s \<Longrightarrow> ready_queue s ! i = rq_list s ! i"
  by (simp add: rq_list_def)

lemma remove1_nth_stale:
  assumes "i < length xs" and "\<forall>t\<in>set (take i xs). P t" and "\<not> P (xs ! i)"
  shows "remove1 (xs ! i) xs = take i xs @ drop (Suc i) xs"
  using assms take_remove1_nth [of i "length xs" xs "xs ! i"] by auto

lemma peek_inv_stale:
  assumes "peek_inv i best s" and "i < ready_count s" and "\<not> is_ready s (ready_queue s ! i)"
  shows "peek_inv i best (ready_queue_remove (ready_queue s ! i) s)"
    and "filter (is_ready s) (rq_list (ready_queue_remove (ready_queue s ! i) s)) =
         filter (is_ready s) (rq_list s)"
proof -
  let ?t = "ready_queue s ! i" and ?L = "rq_list s"
  have wf: "rq_wf s" using assms(1) by (simp add: peek_inv_def)
  have t: "?t = ?L ! i" using wf assms(2) by (simp add: rq_nth)
  have i: "i < length ?L" using wf assms(2) by simp
  have rem: "remove1 ?t ?L = take i ?L @ drop (Suc i) ?L"
    unfolding t using assms i by (intro remove1_nth_stale) (auto simp: peek_inv_def t)
  have "ready_count (ready_queue_remove ?t s) = length (remove1 ?t ?L)"
    using wf length_rq_list [of "ready_queue_remove ?t s"] by simp
  then have "i \<le> ready_count (ready_queue_remove ?t s)"
    using i by (simp add: rem)
  then show "peek_inv i best (ready_queue_remove ?t s)"
    using assms(1) i by (simp add: peek_inv_def rem nth_append)
  have "?L = take i ?L @ ?t # drop (Suc i) ?L"
    using i t by (simp add: id_take_nth_drop)
  then have "filter (is_ready s) ?L = filter (is_ready s) (take i ?L @ drop (Suc i) ?L)"
    using assms(3) by (metis filter.simps(2) filter_append)
  then show "filter (is_ready s) (rq_list (ready_queue_remove ?t s)) = filter (is_ready s) ?L"
    using wf by (simp add: rem)
qed

lemma peek_inv_next:
  assumes "peek_inv i best s" and "i < ready_count s" and "is_ready s (ready_queue s ! i)"
  shows "peek_inv (Suc i)
    (if best < 0 \<or> prio_of s (ready_queue s ! i) > prio_of s (ready_queue s ! nat best)
     then int i else best) s"
proof -
  let ?L = "rq_list s"
  have wf: "rq_wf s" using assms(1) by (simp add: peek_inv_def)
  have i: "i < length ?L" using wf assms(2) by simp
  have t: "ready_queue s ! i = ?L ! i" using wf assms(2) by (simp add: rq_nth)
  have b: "\<not> best < 0 \<Longrightarrow> ready_queue s ! nat best = ?L ! nat best"
    using assms(1,2) wf by (intro rq_nth) (auto simp: peek_inv_def)
  have app: "take (Suc i) ?L = take i ?L @ [?L ! i]"
    using i by (simp add: take_Suc_conv_app_nth)
  show ?thesis
    using assms b t i unfolding peek_inv_def app
    by (auto simp: first_max_append split: if_splits)
qed

lemma peek_loop_spec:
  "peek_inv i best s \<Longrightarrow> peek_loop i best s = (b, s') \<Longrightarrow>
   (\<exists>q n. s' = s\<lparr>ready_queue := q, ready_count := n\<rparr>) \<and> rq_wf s' \<and>
   rq_list s' = filter (is_ready s) (rq_list s) \<and> peek_inv (ready_count s') b s'"
proof (induction i best s rule: peek_loop.induct)
  case (1 i best s)
  show ?case
  proof (cases "i < ready_count s")
    case False
    then have i: "i = ready_count s" using "1.prems"(1) by (simp add: peek_inv_def)
    have res: "b = best" "s' = s" using False "1.prems"(2) by (simp_all add: peek_loop.simps [of i])
    have wf: "rq_wf s" using "1.prems"(1) by (simp add: peek_inv_def)
    have "take i (rq_list s) = rq_list s" using wf i by simp
    then have "filter (is_ready s) (rq_list s) = rq_list s"
      using "1.prems"(1) by (metis peek_inv_def filter_id_conv)
    then show ?thesis
      using "1.prems"(1) wf i res
      by (auto intro!: exI [of _ "ready_queue s"] exI [of _ "ready_count s"])
  next
    case True
    let ?t = "ready_queue s ! i"
    show ?thesis
    proof (cases "is_ready s ?t")
      case False
      let ?s1 = "ready_queue_remove ?t s"
      have ns: "state (tcb s (nat ?t)) \<noteq> TASK_READY" using False by (simp add: is_ready_def)
      note st = peek_inv_stale [OF "1.prems"(1) True False]
      have "peek_loop i best ?s1 = (b, s')"
        using "1.prems"(2) True False by (simp add: peek_loop.simps [of i best s] is_ready_def)
      then have IH: "(\<exists>q n. s' = ?s1\<lparr>ready_queue := q, ready_count := n\<rparr>) \<and> rq_wf s' \<and>
        rq_list s' = filter (is_ready ?s1) (rq_list ?s1) \<and> peek_inv (ready_count s') b s'"
        using "1.IH"(1) [OF True refl ns st(1)] by simp
      obtain q1 n1 where "?s1 = s\<lparr>ready_queue := q1, ready_count := n1\<rparr>"
        using ready_queue_remove_form "1.prems"(1) by (metis peek_inv_def)
      with IH st(2) show ?thesis by auto
    next
      case ready: True
      let ?c = "best < 0 \<or> priority (tcb s (nat ?t)) > priority (tcb s (nat (ready_queue s ! nat best)))"
      have rd: "\<not> state (tcb s (nat ?t)) \<noteq> TASK_READY" using ready by (simp add: is_ready_def)
      note nxt = peek_inv_next [OF "1.prems"(1) True ready]
      show ?thesis
      proof (cases ?c)
        case c: True
        then have "peek_loop (i + 1) (int i) s = (b, s')"
          using "1.prems"(2) True rd by (simp add: peek_loop.simps [of i best s])
        moreover have "peek_inv (i + 1) (int i) s"
          using nxt c by (simp add: prio_of_def)
        ultimately show ?thesis using "1.IH"(2) [OF True refl rd c] by blast
      next
        case c: False
        then have "peek_loop (i + 1) best s = (b, s')"
          using "1.prems"(2) True rd by (simp add: peek_loop.simps [of i best s])
        moreover have "peek_inv (i + 1) best s"
          using nxt c by (simp add: prio_of_def)
        ultimately show ?thesis using "1.IH"(3) [OF True refl rd c] by blast
      qed
    qed
  qed
qed

lemma peek_spec:
  assumes "rq_wf s" and "ready_queue_peek_highest_priority s = (b, s')"
  shows "(\<exists>q n. s' = s\<lparr>ready_queue := q, ready_count := n\<rparr>)" and "rq_wf s'"
    and "rq_list s' = filter (is_ready s) (rq_list s)"
    and "(case first_max (prio_of s) (rq_list s') of None \<Rightarrow> b = -1 | Some t \<Rightarrow> b = t)"
proof -
  obtain p s1 where l: "peek_loop 0 (-1) s = (p, s1)" by fastforce
  have "peek_inv 0 (-1) s" using assms(1) by (simp add: peek_inv_def)
  note sp = peek_loop_spec [OF this l]
  have s1: "s' = s1" and b: "b = (if p < 0 then -1 else ready_queue s1 ! nat p)"
    using assms(2) l by (auto simp: ready_queue_peek_highest_priority_def split: if_splits)
  show "(\<exists>q n. s' = s\<lparr>ready_queue := q, ready_count := n\<rparr>)" and "rq_wf s'"
    and "rq_list s' = filter (is_ready s) (rq_list s)"
    using sp s1 by auto
  have wf: "rq_wf s1" and inv: "peek_inv (ready_count s1) p s1" using sp by blast+
  have pr: "prio_of s1 = prio_of s" using sp by auto
  show "(case first_max (prio_of s) (rq_list s') of None \<Rightarrow> b = -1 | Some t \<Rightarrow> b = t)"
  proof (cases "p < 0")
    case True
    then have "rq_list s1 = []" using inv by (simp add: peek_inv_def rq_list_def)
    then show ?thesis using True s1 b by simp
  next
    case False
    then have "nat p < ready_count s1"
      "first_max (prio_of s1) (rq_list s1) = Some (rq_list s1 ! nat p)"
      using inv wf by (simp_all add: peek_inv_def)
    then show ?thesis using False s1 b pr wf by (simp add: rq_nth)
  qed
qed

section \<open>Properties\<close>

text \<open>
  C24: On a queue of at most eight entries the array primitives implement list operations:
  removal deletes the first occurrence and closes the gap, and enqueue appends exactly when the
  scheduler is bound, the index names a READY task, and the queue is neither full nor already
  holding it; the array never overflows and no other variable changes.
\<close>

theorem ready_queue_refines_list:
  assumes "rq_wf s"
  shows "rq_list (ready_queue_remove t s) = remove1 t (rq_list s) \<and>
    rq_list (ready_queue_enqueue t s) =
      (if sched_bound s \<and> 0 \<le> t \<and> t < int (task_count s) \<and> is_ready s t \<and>
          length (rq_list s) < 8 \<and> t \<notin> set (rq_list s)
       then rq_list s @ [t] else rq_list s) \<and>
    rq_wf (ready_queue_remove t s) \<and> rq_wf (ready_queue_enqueue t s) \<and>
    (\<exists>q n. ready_queue_remove t s = s\<lparr>ready_queue := q, ready_count := n\<rparr>) \<and>
    (\<exists>q n. ready_queue_enqueue t s = s\<lparr>ready_queue := q, ready_count := n\<rparr>)"
  using assms ready_queue_remove_form [OF assms, of t] ready_queue_enqueue_form [of t s]
  by (simp add: may_enqueue_def is_ready_def)

definition rq_example :: kernel where
  "rq_example = (boot 4096 ())\<lparr>task_count := 3, sched_bound := True,
     task_list := [zero_tcb\<lparr>priority := 1\<rparr>, zero_tcb\<lparr>priority := 5, state := TASK_BLOCKED\<rparr>,
       zero_tcb\<lparr>priority := 3\<rparr>] @ replicate 5 zero_tcb,
     ready_queue := [0, 1, 2, 0, 0, 0, 0, 0], ready_count := 3\<rparr>"

lemma rq_example_wf: "rq_wf rq_example"
  by (simp add: rq_example_def rq_wf_def)

theorem ready_queue_refines_list_witness:
  "rq_list (ready_queue_remove 1 rq_example) = [0, 2] \<and>
   rq_list (ready_queue_enqueue 1 rq_example) = [0, 1, 2]"
  using ready_queue_refines_list [OF rq_example_wf, of 1]
  by (simp add: rq_list_def rq_example_def del: rq_list_remove rq_list_enqueue)

text \<open>
  The scan evicts exactly the entries whose task is not READY, keeps the others in order,
  and returns the first of them with the greatest priority, or -1 if none is left.
\<close>

lemma peek_selects_first_highest:
  assumes "rq_wf s" and "ready_queue_peek_highest_priority s = (b, s')"
  shows "rq_list s' = filter (is_ready s) (rq_list s) \<and>
    (if rq_list s' = [] then b = -1
     else \<exists>ys zs. rq_list s' = ys @ b # zs \<and> (\<forall>y\<in>set ys. prio_of s y < prio_of s b) \<and>
            (\<forall>z\<in>set zs. prio_of s z \<le> prio_of s b))"
proof (cases "first_max (prio_of s) (rq_list s')")
  case None
  then show ?thesis using peek_spec(3,4) [OF assms] by simp
next
  case (Some t)
  then show ?thesis
    using peek_spec(3,4) [OF assms] first_max_split [OF Some] by auto
qed

end
