(* ===== verification/Task_State.thy ===== *)
theory Task_State
  imports Ready_Queue
begin

text \<open>
  The task-state operations of \<open>scheduler.c\<close>, through which every module changes the state of a
  task: \<open>scheduler_set_task_state\<close>, its variant for the current task, and the wake-up of one
  waiter. The invariant \<open>sched_inv\<close> ties the ready queue to the task states and is kept by
  each of them.
\<close>

section \<open>The operations\<close>

definition scheduler_set_task_state ::
    "int \<Rightarrow> TaskState \<Rightarrow> BlockReason \<Rightarrow> 'a kernel_scheme \<Rightarrow> 'a kernel_scheme" where
  "scheduler_set_task_state task_index st reason s =
     (if \<not> sched_bound s then s
      else if task_index < 0 \<or> task_index \<ge> int (task_count s) then s
      else
        let i = nat task_index;
            s1 = ready_queue_remove task_index s;
            s2 = upd_tcb i (\<lambda>t. t\<lparr>state := st, block_reason := reason\<rparr>) s1
        in if st = TASK_READY
           then ready_queue_enqueue task_index
                  (upd_tcb i (\<lambda>t. t\<lparr>sleep_ticks := 0, block_reason := BLOCK_NONE\<rparr>) s2)
           else s2)"

definition scheduler_set_current_task_state ::
    "TaskState \<Rightarrow> BlockReason \<Rightarrow> 'a kernel_scheme \<Rightarrow> 'a kernel_scheme" where
  "scheduler_set_current_task_state st reason s =
     (if \<not> sched_bound s then s
      else scheduler_set_task_state (current_task_index s) st reason s)"

definition waiting_for :: "BlockReason \<Rightarrow> 'a kernel_scheme \<Rightarrow> nat \<Rightarrow> bool" where
  "waiting_for reason s i \<longleftrightarrow>
     \<not> (state (tcb s i) \<noteq> TASK_BLOCKED \<or> block_reason (tcb s i) \<noteq> reason)"

text \<open>One iteration of the scan for the highest-priority waiter; \<open>best_index\<close> starts at -1.\<close>

definition unblock_scan :: "BlockReason \<Rightarrow> 'a kernel_scheme \<Rightarrow> nat \<Rightarrow> int \<Rightarrow> int" where
  "unblock_scan reason s i best_index =
     (if \<not> waiting_for reason s i then best_index
      else if best_index < 0 \<or> priority (tcb s i) > priority (tcb s (nat best_index)) then int i
      else best_index)"

text \<open>\<open>*task_count\<close> is read before any check, so the call faults while the scheduler is unbound.\<close>

definition scheduler_unblock_one :: "BlockReason \<Rightarrow> 'a kernel_scheme \<Rightarrow> 'a kernel_scheme res" where
  "scheduler_unblock_one reason s =
     (if \<not> sched_bound s then Inl NullDeref
      else
        let best_index = loop_range 0 (task_count s) (unblock_scan reason s) (-1)
        in if best_index \<ge> 0 then
             let s' = scheduler_set_task_state best_index TASK_READY BLOCK_NONE s
             in Inr (uart_log (Sched (LogUnblocked (task_name (tcb s' (nat best_index))))) s')
           else Inr s)"

definition scheduler_ready_count :: "'a kernel_scheme \<Rightarrow> nat" where
  "scheduler_ready_count s = ready_count s"

definition scheduler_current_task_index :: "'a kernel_scheme \<Rightarrow> int" where
  "scheduler_current_task_index s = (if \<not> sched_bound s then -1 else current_task_index s)"

section \<open>What they leave alone\<close>

lemma set_task_state_frames [simp]:
  "task_count (scheduler_set_task_state i st r s) = task_count s"
  "current_task_index (scheduler_set_task_state i st r s) = current_task_index s"
  "sched_bound (scheduler_set_task_state i st r s) = sched_bound s"
  "active_context (scheduler_set_task_state i st r s) = active_context s"
  "g_kernel_tick (scheduler_set_task_state i st r s) = g_kernel_tick s"
  "timer_bound (scheduler_set_task_state i st r s) = timer_bound s"
  "g_soft_timers (scheduler_set_task_state i st r s) = g_soft_timers s"
  "mem_pool (scheduler_set_task_state i st r s) = mem_pool s"
  "uart_out (scheduler_set_task_state i st r s) = uart_out s"
  "kernel.more (scheduler_set_task_state i st r s) = kernel.more s"
  "length (task_list (scheduler_set_task_state i st r s)) = length (task_list s)"
  by (simp_all add: scheduler_set_task_state_def Let_def)

lemma app_lines_set_task_state [simp]:
  "app_lines (scheduler_set_task_state i st r s) = app_lines s"
  by (rule app_lines_cong) simp

text \<open>The new contents of a task's control block.\<close>

definition tcb_to :: "TaskState \<Rightarrow> BlockReason \<Rightarrow> TCB \<Rightarrow> TCB" where
  "tcb_to st r t =
     (if st = TASK_READY then t\<lparr>state := st, sleep_ticks := 0, block_reason := BLOCK_NONE\<rparr>
      else t\<lparr>state := st, block_reason := r\<rparr>)"

lemma tcb_to_fields [simp]:
  "state (tcb_to st r t) = st"
  "block_reason (tcb_to st r t) = (if st = TASK_READY then BLOCK_NONE else r)"
  "sleep_ticks (tcb_to st r t) = (if st = TASK_READY then 0 else sleep_ticks t)"
  "priority (tcb_to st r t) = priority t"
  "task_id (tcb_to st r t) = task_id t"
  "task_function (tcb_to st r t) = task_function t"
  "task_name (tcb_to st r t) = task_name t"
  "slice_ticks_used (tcb_to st r t) = slice_ticks_used t"
  "cpu_context (tcb_to st r t) = cpu_context t"
  "stack_memory (tcb_to st r t) = stack_memory t"
  "stack_size (tcb_to st r t) = stack_size t"
  "stack_pointer (tcb_to st r t) = stack_pointer t"
  by (simp_all add: tcb_to_def)

lemma set_task_state_tcb:
  "sched_bound s \<Longrightarrow> 0 \<le> i \<Longrightarrow> i < int (task_count s) \<Longrightarrow> task_count s \<le> length (task_list s) \<Longrightarrow>
   task_list (scheduler_set_task_state i st r s) =
     (task_list s)[nat i := tcb_to st r (tcb s (nat i))]"
  by (simp add: scheduler_set_task_state_def Let_def tcb_to_def nat_less_iff)

lemma set_task_state_invalid:
  "i < 0 \<or> int (task_count s) \<le> i \<Longrightarrow> scheduler_set_task_state i st r s = s"
  by (auto simp: scheduler_set_task_state_def)

section \<open>Commutation with logging and with updates the transition overwrites\<close>

lemma upd_tcb_fuse: "upd_tcb i f (upd_tcb i g s) = upd_tcb i (f \<circ> g) s"
  by (cases "i < length (task_list s)") (simp_all add: upd_tcb_def list_update_beyond)

lemma upd_tcb_log [simp]: "upd_tcb i f (uart_log m s) = uart_log m (upd_tcb i f s)"
  by (simp add: upd_tcb_def uart_log_def timer_now_def)

lemma remove_scan_log: "remove_scan n i t (uart_log m s) = uart_log m (remove_scan n i t s)"
  by (induction n arbitrary: i) (simp_all add: uart_log_def timer_now_def)

lemma remove_scan_upd_tcb: "remove_scan n i t (upd_tcb j f s) = upd_tcb j f (remove_scan n i t s)"
  by (induction n arbitrary: i) (simp_all add: upd_tcb_def)

lemma remove_commute [simp]:
  "ready_queue_remove t (uart_log m s) = uart_log m (ready_queue_remove t s)"
  "ready_queue_remove t (upd_tcb j f s) = upd_tcb j f (ready_queue_remove t s)"
  by (simp_all add: ready_queue_remove_def remove_scan_log remove_scan_upd_tcb)

lemma enqueue_log [simp]:
  "ready_queue_enqueue t (uart_log m s) = uart_log m (ready_queue_enqueue t s)"
  by (auto simp: ready_queue_enqueue_def ready_queue_contains_def)
    (simp_all add: uart_log_def timer_now_def)

lemma set_task_state_log [simp]:
  "scheduler_set_task_state i st r (uart_log m s) = uart_log m (scheduler_set_task_state i st r s)"
  by (simp add: scheduler_set_task_state_def Let_def)

lemma set_current_log [simp]:
  "scheduler_set_current_task_state st r (uart_log m s) =
   uart_log m (scheduler_set_current_task_state st r s)"
  by (simp add: scheduler_set_current_task_state_def)

lemma set_ready_absorb_sleep:
  "sched_bound s \<Longrightarrow> i < task_count s \<Longrightarrow>
   scheduler_set_task_state (int i) TASK_READY r (upd_tcb i (\<lambda>t. t\<lparr>sleep_ticks := n\<rparr>) s) =
   scheduler_set_task_state (int i) TASK_READY r s"
  by (simp add: scheduler_set_task_state_def Let_def upd_tcb_fuse comp_def)

section \<open>The scheduler invariant\<close>

definition tcb_ok :: "nat \<Rightarrow> TCB \<Rightarrow> bool" where
  "tcb_ok i t \<longleftrightarrow> task_id t = int i + 1 \<and>
     (state t = TASK_BLOCKED \<longleftrightarrow> block_reason t \<noteq> BLOCK_NONE) \<and>
     INT_MIN < sleep_ticks t \<and> sleep_ticks t \<le> INT_MAX \<and>
     task_function t \<noteq> 0 \<and> length (stack_memory t) = RTOS_STACK_WORDS \<and>
     stack_size t = RTOS_STACK_SIZE \<and> stack_pointer t \<le> RTOS_STACK_WORDS"

text \<open>
  The kernel is initialised and the static arrays have their sizes; the live part of the ready
  queue lists, without duplicates, exactly the tasks in state READY; the current index is -1 or
  a task; every created task is well formed; and only the current task can be RUNNING.
\<close>

definition ready_set :: "'a kernel_scheme \<Rightarrow> int set" where
  "ready_set s = {int i |i. i < task_count s \<and> state (tcb s i) = TASK_READY}"

definition sched_inv :: "'a kernel_scheme \<Rightarrow> bool" where
  "sched_inv s \<longleftrightarrow> sched_bound s \<and> timer_bound s \<and> length (task_list s) = 8 \<and> task_count s \<le> 8 \<and>
     rq_wf s \<and> distinct (rq_list s) \<and> set (rq_list s) = ready_set s \<and>
     -1 \<le> current_task_index s \<and> current_task_index s < int (task_count s) \<and>
     (\<forall>i<task_count s. tcb_ok i (tcb s i)) \<and>
     (\<forall>i<task_count s. state (tcb s i) = TASK_RUNNING \<longrightarrow> current_task_index s = int i)"

lemma sched_invD:
  assumes "sched_inv s"
  shows "sched_bound s" "timer_bound s" "length (task_list s) = 8" "task_count s \<le> 8" "rq_wf s"
    "distinct (rq_list s)" "set (rq_list s) = ready_set s" "-1 \<le> current_task_index s"
    "current_task_index s < int (task_count s)"
    "\<And>i. i < task_count s \<Longrightarrow> tcb_ok i (tcb s i)"
    "\<And>i. i < task_count s \<Longrightarrow> state (tcb s i) = TASK_RUNNING \<Longrightarrow> current_task_index s = int i"
  using assms by (simp_all add: sched_inv_def)

lemma ready_set_iff [simp]:
  "int i \<in> ready_set s \<longleftrightarrow> i < task_count s \<and> state (tcb s i) = TASK_READY"
  by (auto simp: ready_set_def)

lemma ready_set_nonneg: "t \<in> ready_set s \<Longrightarrow> 0 \<le> t \<and> t < int (task_count s) \<and> is_ready s t"
  by (auto simp: ready_set_def is_ready_def)

lemma ready_set_alt:
  "t \<in> ready_set s \<longleftrightarrow> 0 \<le> t \<and> t < int (task_count s) \<and> is_ready s t"
  by (metis ready_set_iff ready_set_nonneg is_ready_def nat_int nat_0_le of_nat_less_iff)

text \<open>The states of a kernel that differ in none of the fields the invariant mentions.\<close>

lemma sched_inv_cong:
  "task_list t = task_list s \<Longrightarrow> task_count t = task_count s \<Longrightarrow>
   current_task_index t = current_task_index s \<Longrightarrow> sched_bound t = sched_bound s \<Longrightarrow>
   timer_bound t = timer_bound s \<Longrightarrow> ready_queue t = ready_queue s \<Longrightarrow>
   ready_count t = ready_count s \<Longrightarrow> sched_inv t = sched_inv s"
  by (simp add: sched_inv_def rq_wf_def rq_list_def ready_set_def)

lemma sched_inv_log [simp]: "sched_inv (uart_log m s) = sched_inv s"
  by (rule sched_inv_cong) (simp_all add: uart_log_def)

text \<open>An update of one task that changes neither its state nor what \<open>tcb_ok\<close> demands.\<close>

lemma ready_set_cong:
  "task_count t = task_count s \<Longrightarrow>
   (\<And>i. i < task_count s \<Longrightarrow> state (tcb t i) = state (tcb s i)) \<Longrightarrow> ready_set t = ready_set s"
  by (auto simp: ready_set_def)

lemma sched_inv_upd_tcb:
  assumes inv: "sched_inv s"
    and f: "i < task_count s \<Longrightarrow> tcb_ok i (f (tcb s i)) \<and> state (f (tcb s i)) = state (tcb s i)"
  shows "sched_inv (upd_tcb i f s)"
proof -
  note I = sched_invD [OF inv]
  have st: "state (tcb (upd_tcb i f s) j) = state (tcb s j)" if "j < task_count s" for j
    using that f I(3,4) by (cases "j = i") simp_all
  have "ready_set (upd_tcb i f s) = ready_set s"
    by (rule ready_set_cong) (simp_all only: upd_tcb_fields(2) st)
  moreover have "tcb_ok j (tcb (upd_tcb i f s) j)" if "j < task_count s" for j
    using that f I(3,4,10) by (cases "j = i") simp_all
  ultimately show ?thesis
    using I st unfolding sched_inv_def by (simp del: upd_tcb_fields(1)) (simp add: upd_tcb_def)
qed

lemma remove1_length_bound:
  assumes "distinct xs" and "set xs \<subseteq> int ` {..<n}" and "int i \<in> int ` {..<n}"
  shows "length (remove1 (int i) xs) < n"
proof -
  have "distinct (remove1 (int i) xs)" using assms(1) by (rule distinct_remove1)
  then have "length (remove1 (int i) xs) = card (set (remove1 (int i) xs))"
    by (rule distinct_card [symmetric])
  also have "set (remove1 (int i) xs) \<subseteq> int ` {..<n} - {int i}"
    using assms by auto
  then have "card (set (remove1 (int i) xs)) \<le> card (int ` {..<n} - {int i})"
    by (intro card_mono) auto
  also have "\<dots> = n - 1" using assms(3) by (simp add: card_image card_Diff_singleton)
  finally show ?thesis using assms(3) by (auto simp: image_iff)
qed

lemma ready_set_subset: "ready_set s \<subseteq> int ` {..<task_count s}"
  by (auto simp: ready_set_def)

lemma set_task_state_rq:
  assumes inv: "sched_inv s" and i: "i < task_count s"
  shows "rq_list (scheduler_set_task_state (int i) st r s) =
           remove1 (int i) (rq_list s) @ (if st = TASK_READY then [int i] else [])"
    and "rq_wf (scheduler_set_task_state (int i) st r s)"
proof -
  note I = sched_invD [OF inv]
  have "length (remove1 (int i) (rq_list s)) < task_count s"
    using I i ready_set_subset [of s] by (intro remove1_length_bound) auto
  then have "length (remove1 (int i) (rq_list s)) < 8" using I(4) by simp
  then show "rq_list (scheduler_set_task_state (int i) st r s) =
           remove1 (int i) (rq_list s) @ (if st = TASK_READY then [int i] else [])"
    using I i by (simp add: scheduler_set_task_state_def Let_def may_enqueue_def)
  show "rq_wf (scheduler_set_task_state (int i) st r s)"
    using I i by (simp add: scheduler_set_task_state_def Let_def)
qed

lemma ready_set_set_task_state:
  assumes "sched_inv s" and "i < task_count s"
  shows "ready_set (scheduler_set_task_state (int i) st r s) =
    (ready_set s - {int i}) \<union> (if st = TASK_READY then {int i} else {})"
proof (rule set_eqI)
  fix x
  note I = sched_invD [OF assms(1)]
  show "x \<in> ready_set (scheduler_set_task_state (int i) st r s) \<longleftrightarrow>
    x \<in> (ready_set s - {int i}) \<union> (if st = TASK_READY then {int i} else {})"
  proof (cases "\<exists>j. x = int j")
    case True
    then obtain j where "x = int j" by blast
    then show ?thesis
      using I assms(2) by (cases "j = i") (auto simp: set_task_state_tcb)
  qed (auto simp: ready_set_def)
qed

lemma tcb_ok_to: "tcb_ok i t \<Longrightarrow> st = TASK_BLOCKED \<longleftrightarrow> r \<noteq> BLOCK_NONE \<Longrightarrow> tcb_ok i (tcb_to st r t)"
  by (auto simp: tcb_ok_def int_range_defs)

lemma sched_inv_set_task_state_nat:
  assumes inv: "sched_inv s" and k: "k < task_count s"
    and r: "st = TASK_BLOCKED \<longleftrightarrow> r \<noteq> BLOCK_NONE"
    and run: "st = TASK_RUNNING \<Longrightarrow> current_task_index s = int k"
  shows "sched_inv (scheduler_set_task_state (int k) st r s)"
proof -
  let ?s = "scheduler_set_task_state (int k) st r s"
  note I = sched_invD [OF inv]
  have tl: "task_list ?s = (task_list s)[k := tcb_to st r (tcb s k)]"
    using I k by (simp add: set_task_state_tcb)
  note rq = set_task_state_rq [OF inv k, of st r]
  have "tcb_ok j (tcb ?s j)" if "j < task_count s" for j
    using I(10) [OF that] I(3,4) that r by (cases "j = k") (simp_all add: tl tcb_ok_to)
  moreover have "set (rq_list ?s) = ready_set ?s"
    using I(6,7) ready_set_set_task_state [OF inv k] rq by auto
  moreover have "distinct (rq_list ?s)"
    using I(6) by (simp add: rq)
  moreover have "current_task_index s = int j"
    if "j < task_count s" "state (tcb ?s j) = TASK_RUNNING" for j
    using that I run k by (cases "j = k") (simp_all add: tl)
  ultimately show ?thesis
    using I rq(2) by (simp add: sched_inv_def)
qed

lemma task_index_cases:
  assumes "\<not> (i < 0 \<or> int n \<le> i)"
  obtains k where "i = int k" and "k < n"
  using assms by (metis linorder_not_less nonneg_int_cases of_nat_less_iff)

lemma sched_inv_set_task_state [inv_intro]:
  assumes inv: "sched_inv s"
    and r: "st = TASK_BLOCKED \<longleftrightarrow> r \<noteq> BLOCK_NONE"
    and run: "st = TASK_RUNNING \<Longrightarrow> i = current_task_index s"
  shows "sched_inv (scheduler_set_task_state i st r s)"
proof (cases "i < 0 \<or> int (task_count s) \<le> i")
  case True
  then show ?thesis using inv by (simp add: set_task_state_invalid)
next
  case False
  then obtain k where k: "i = int k" "k < task_count s" by (rule task_index_cases)
  show ?thesis
    unfolding k(1) using inv k(2) r
    by (rule sched_inv_set_task_state_nat) (use run k(1) in simp)
qed

lemma sched_inv_set_current [inv_intro]:
  "sched_inv s \<Longrightarrow> st = TASK_BLOCKED \<longleftrightarrow> r \<noteq> BLOCK_NONE \<Longrightarrow>
   sched_inv (scheduler_set_current_task_state st r s)"
  by (simp add: scheduler_set_current_task_state_def sched_inv_set_task_state)

lemma set_current_frames [simp]:
  "task_count (scheduler_set_current_task_state st r s) = task_count s"
  "current_task_index (scheduler_set_current_task_state st r s) = current_task_index s"
  "sched_bound (scheduler_set_current_task_state st r s) = sched_bound s"
  "active_context (scheduler_set_current_task_state st r s) = active_context s"
  "g_kernel_tick (scheduler_set_current_task_state st r s) = g_kernel_tick s"
  "timer_bound (scheduler_set_current_task_state st r s) = timer_bound s"
  "g_soft_timers (scheduler_set_current_task_state st r s) = g_soft_timers s"
  "mem_pool (scheduler_set_current_task_state st r s) = mem_pool s"
  "uart_out (scheduler_set_current_task_state st r s) = uart_out s"
  "kernel.more (scheduler_set_current_task_state st r s) = kernel.more s"
  by (simp_all add: scheduler_set_current_task_state_def)

lemma app_lines_set_current [simp]: "app_lines (scheduler_set_current_task_state st r s) = app_lines s"
  by (rule app_lines_cong) simp

lemma set_current_eq:
  "sched_inv s \<Longrightarrow> rtos_current_task s = Some i \<Longrightarrow>
   scheduler_set_current_task_state st r s = scheduler_set_task_state (int i) st r s"
  by (simp add: scheduler_set_current_task_state_def sched_inv_def rtos_current_task_Some)

section \<open>Waking one waiter\<close>

text \<open>The scan finds the first task of greatest priority among the waiters.\<close>

definition blocked_on :: "BlockReason \<Rightarrow> 'a kernel_scheme \<Rightarrow> nat list" where
  "blocked_on reason s = filter (waiting_for reason s) [0..<task_count s]"

definition best_waiter :: "BlockReason \<Rightarrow> 'a kernel_scheme \<Rightarrow> nat option" where
  "best_waiter reason s = first_max (\<lambda>i. priority (tcb s i)) (blocked_on reason s)"

lemma unblock_loop:
  "loop_range 0 n (unblock_scan reason s) (-1) =
     (case first_max (\<lambda>i. priority (tcb s i)) (filter (waiting_for reason s) [0..<n]) of
        None \<Rightarrow> -1 | Some i \<Rightarrow> int i)"
proof -
  let ?P = "\<lambda>k best. best =
     (case first_max (\<lambda>i. priority (tcb s i)) (filter (waiting_for reason s) [0..<k]) of
        None \<Rightarrow> -1 | Some i \<Rightarrow> int i)"
  have "?P (0 + n) (loop_range 0 n (unblock_scan reason s) (-1))"
  proof (rule loop_range_inv)
    fix k best
    assume "?P k best"
    then show "?P (Suc k) (unblock_scan reason s k best)"
      by (auto simp: unblock_scan_def first_max_append split: option.splits)
  qed simp
  then show ?thesis by simp
qed

lemma scheduler_unblock_one_eq:
  assumes "sched_bound s"
  shows "scheduler_unblock_one reason s =
    (case best_waiter reason s of None \<Rightarrow> Inr s
     | Some i \<Rightarrow> let s' = scheduler_set_task_state (int i) TASK_READY BLOCK_NONE s
        in Inr (uart_log (Sched (LogUnblocked (task_name (tcb s' i)))) s'))"
  using assms unblock_loop [of "task_count s" reason s]
  by (simp add: scheduler_unblock_one_def best_waiter_def blocked_on_def split: option.splits)

lemma best_waiterD:
  assumes "best_waiter reason s = Some i"
  shows "i < task_count s" "state (tcb s i) = TASK_BLOCKED" "block_reason (tcb s i) = reason"
    and "\<And>j. j < task_count s \<Longrightarrow> state (tcb s j) = TASK_BLOCKED \<Longrightarrow>
      block_reason (tcb s j) = reason \<Longrightarrow>
      priority (tcb s j) < priority (tcb s i) \<or> priority (tcb s j) = priority (tcb s i) \<and> i \<le> j"
proof -
  have fm: "first_max (\<lambda>i. priority (tcb s i)) (blocked_on reason s) = Some i"
    using assms by (simp add: best_waiter_def)
  show "i < task_count s" "state (tcb s i) = TASK_BLOCKED" "block_reason (tcb s i) = reason"
    using first_max_in [OF fm] by (auto simp: blocked_on_def waiting_for_def)
  fix j
  assume j: "j < task_count s" "state (tcb s j) = TASK_BLOCKED" "block_reason (tcb s j) = reason"
  then have mem: "j \<in> set (blocked_on reason s)" by (simp add: blocked_on_def waiting_for_def)
  obtain ys zs where sp: "blocked_on reason s = ys @ i # zs"
    "\<forall>y\<in>set ys. priority (tcb s y) < priority (tcb s i)"
    "\<forall>z\<in>set zs. priority (tcb s z) \<le> priority (tcb s i)"
    using first_max_split [OF fm] by blast
  have "sorted (ys @ i # zs)"
    unfolding sp(1) [symmetric] blocked_on_def by (simp add: sorted_wrt_filter)
  then show "priority (tcb s j) < priority (tcb s i) \<or> priority (tcb s j) = priority (tcb s i) \<and> i \<le> j"
    using mem sp by (force simp: sorted_append)
qed

lemma best_waiter_None:
  "best_waiter reason s = None \<longleftrightarrow>
   (\<forall>i<task_count s. \<not> (state (tcb s i) = TASK_BLOCKED \<and> block_reason (tcb s i) = reason))"
  by (auto simp: best_waiter_def blocked_on_def waiting_for_def filter_empty_conv)

lemma sched_inv_unblock_one [inv_intro]:
  "sched_inv s \<Longrightarrow> returns (scheduler_unblock_one reason s) sched_inv"
  by (auto simp: scheduler_unblock_one_eq sched_invD(1) Let_def split: option.splits
      intro!: sched_inv_set_task_state)

text \<open>What a wake-up leaves: nothing changed, or one waiter READY at the tail of the queue.\<close>

definition woken :: "BlockReason \<Rightarrow> 'a kernel_scheme \<Rightarrow> 'a kernel_scheme \<Rightarrow> bool" where
  "woken r s s' \<longleftrightarrow>
     (case best_waiter r s of
        None \<Rightarrow> task_list s' = task_list s \<and> rq_list s' = rq_list s
      | Some w \<Rightarrow> task_list s' = (task_list s)[w := tcb_to TASK_READY BLOCK_NONE (tcb s w)] \<and>
          rq_list s' = rq_list s @ [int w])"

lemma unblock_one_woken:
  assumes inv: "sched_inv s"
  shows "returns (scheduler_unblock_one r s) (\<lambda>s'. woken r s s' \<and> task_count s' = task_count s)"
proof (cases "best_waiter r s")
  case None
  then show ?thesis
    using sched_invD(1) [OF inv] by (simp add: scheduler_unblock_one_eq woken_def)
next
  case (Some w)
  note I = sched_invD [OF inv] and W = best_waiterD [OF Some]
  have "int w \<notin> set (rq_list s)" using I(7) W(1,2) by simp
  then have "rq_list (scheduler_set_task_state (int w) TASK_READY BLOCK_NONE s) = rq_list s @ [int w]"
    using set_task_state_rq(1) [OF inv W(1)] by (simp add: remove1_idem)
  then show ?thesis
    using I W(1) Some by (simp add: scheduler_unblock_one_eq woken_def Let_def set_task_state_tcb)
qed

text \<open>What blocking leaves: the task off the queue with the reason, every other task as it was.\<close>

definition blocked_as :: "nat \<Rightarrow> BlockReason \<Rightarrow> 'a kernel_scheme \<Rightarrow> 'a kernel_scheme \<Rightarrow> bool" where
  "blocked_as i r s s' \<longleftrightarrow> state (tcb s' i) = TASK_BLOCKED \<and> block_reason (tcb s' i) = r \<and>
     rq_list s' = remove1 (int i) (rq_list s) \<and> (\<forall>j<task_count s. j \<noteq> i \<longrightarrow> tcb s' j = tcb s j)"

lemma set_current_blocked:
  assumes inv: "sched_inv s" and cur: "rtos_current_task s = Some i"
  shows "blocked_as i r s (scheduler_set_current_task_state TASK_BLOCKED r s)"
proof -
  have i: "i < task_count s" using cur by (simp add: rtos_current_task_Some)
  then show ?thesis
    using sched_invD [OF inv] set_task_state_rq(1) [OF inv i, of TASK_BLOCKED r]
    by (simp add: set_current_eq [OF inv cur] blocked_as_def set_task_state_tcb)
qed

section \<open>Properties\<close>

text \<open>
  C21: \<open>scheduler_unblock_one\<close> on a well-formed kernel never faults. If no task is blocked for the
  reason it changes nothing; otherwise it makes READY, at the tail of the ready queue, the
  blocked task of greatest priority among those, the one of least index if several, and touches
  no other task.
\<close>

theorem unblock_one_spec:
  assumes "sched_inv s"
  shows "returns (scheduler_unblock_one r s) (\<lambda>s'.
    (\<forall>i<task_count s. \<not> (state (tcb s i) = TASK_BLOCKED \<and> block_reason (tcb s i) = r)) \<and> s' = s \<or>
    (\<exists>w<task_count s. state (tcb s w) = TASK_BLOCKED \<and> block_reason (tcb s w) = r \<and>
       (\<forall>j<task_count s. state (tcb s j) = TASK_BLOCKED \<and> block_reason (tcb s j) = r \<longrightarrow>
          priority (tcb s j) < priority (tcb s w) \<or> priority (tcb s j) = priority (tcb s w) \<and> w \<le> j) \<and>
       state (tcb s' w) = TASK_READY \<and> rq_list s' = rq_list s @ [int w] \<and>
       (\<forall>j<task_count s. j \<noteq> w \<longrightarrow> tcb s' j = tcb s j)))"
proof (cases "best_waiter r s")
  case None
  moreover have "\<forall>i<task_count s. \<not> (state (tcb s i) = TASK_BLOCKED \<and> block_reason (tcb s i) = r)"
    using None by (simp only: best_waiter_None)
  ultimately show ?thesis
    using sched_invD(1) [OF assms] by (simp add: scheduler_unblock_one_eq)
next
  case (Some w)
  note W = best_waiterD [OF Some]
  have len: "w < length (task_list s)" using W(1) sched_invD(3,4) [OF assms] by simp
  show ?thesis
  proof (rule returns_mono [OF unblock_one_woken [OF assms]], rule disjI2, intro exI conjI)
    fix s'
    assume "woken r s s' \<and> task_count s' = task_count s"
    then have s': "task_list s' = (task_list s)[w := tcb_to TASK_READY BLOCK_NONE (tcb s w)]"
      "rq_list s' = rq_list s @ [int w]" using Some by (simp_all add: woken_def)
    show "w < task_count s" "state (tcb s w) = TASK_BLOCKED" "block_reason (tcb s w) = r"
      by (rule W(1), rule W(2), rule W(3))
    show "\<forall>j<task_count s. state (tcb s j) = TASK_BLOCKED \<and> block_reason (tcb s j) = r \<longrightarrow>
        priority (tcb s j) < priority (tcb s w) \<or> priority (tcb s j) = priority (tcb s w) \<and> w \<le> j"
      using W(4) by blast
    show "state (tcb s' w) = TASK_READY" "rq_list s' = rq_list s @ [int w]"
      "\<forall>j<task_count s. j \<noteq> w \<longrightarrow> tcb s' j = tcb s j"
      using s' len by simp_all
  qed
qed

text \<open>Two tasks waiting on semaphores, the second of higher priority.\<close>

definition waiting_tcb :: "nat \<Rightarrow> int \<Rightarrow> BlockReason \<Rightarrow> TCB" where
  "waiting_tcb i prio r = zero_tcb\<lparr>task_id := int i + 1, task_function := 5, priority := prio,
     state := TASK_BLOCKED, block_reason := r, stack_size := 256\<rparr>"

definition waiters_example :: kernel where
  "waiters_example = (boot 4096 ())\<lparr>task_list := (replicate 8 zero_tcb)
       [0 := waiting_tcb 0 1 BLOCK_SEMAPHORE, 1 := waiting_tcb 1 2 BLOCK_SEMAPHORE],
     task_count := 2, sched_bound := True, timer_bound := True\<rparr>"

lemma waiters_example_tcb:
  "tcb waiters_example 0 = waiting_tcb 0 1 BLOCK_SEMAPHORE"
  "tcb waiters_example (Suc 0) = waiting_tcb 1 2 BLOCK_SEMAPHORE"
  "task_count waiters_example = 2" "rq_list waiters_example = []"
  by (simp_all add: waiters_example_def rq_list_def boot_def)

lemma sched_inv_waiters_example: "sched_inv waiters_example"
proof -
  have "tcb_ok i (tcb waiters_example i) \<and> state (tcb waiters_example i) = TASK_BLOCKED" if "i < 2" for i
    using that by (cases i) (auto simp: waiters_example_tcb waiting_tcb_def tcb_ok_def zero_tcb_def
        int_range_defs RTOS_STACK_SIZE_def RTOS_STACK_WORDS_def less_Suc_eq)
  then show ?thesis
    by (auto simp: sched_inv_def rq_wf_def ready_set_def waiters_example_tcb)
      (simp_all add: waiters_example_def boot_def)
qed

theorem unblock_one_spec_witness:
  "returns (scheduler_unblock_one BLOCK_SEMAPHORE waiters_example)
     (\<lambda>s'. state (tcb s' 1) = TASK_READY \<and> state (tcb s' 0) = TASK_BLOCKED)"
proof (rule returns_mono [OF unblock_one_spec [OF sched_inv_waiters_example, of BLOCK_SEMAPHORE]], elim disjE conjE exE)
  note W = waiters_example_tcb waiting_tcb_def
  fix s' :: kernel and w
  assume "\<forall>i<task_count waiters_example. \<not> (state (tcb waiters_example i) = TASK_BLOCKED \<and>
    block_reason (tcb waiters_example i) = BLOCK_SEMAPHORE)"
  from spec [OF this, of 0] show "state (tcb s' 1) = TASK_READY \<and> state (tcb s' 0) = TASK_BLOCKED" by (simp add: W)
next
  note W = waiters_example_tcb waiting_tcb_def
  fix s' :: kernel and w
  assume w: "w < task_count waiters_example" "state (tcb s' w) = TASK_READY"
    and best: "\<forall>j<task_count waiters_example. state (tcb waiters_example j) = TASK_BLOCKED \<and>
      block_reason (tcb waiters_example j) = BLOCK_SEMAPHORE \<longrightarrow>
      priority (tcb waiters_example j) < priority (tcb waiters_example w) \<or>
      priority (tcb waiters_example j) = priority (tcb waiters_example w) \<and> w \<le> j"
    and rest: "\<forall>j<task_count waiters_example. j \<noteq> w \<longrightarrow> tcb s' j = tcb waiters_example j"
  have "w \<noteq> 0"
  proof
    assume "w = 0"
    with spec [OF best, of 1] show False by (simp add: W)
  qed
  then have "w = 1" using w(1) by (simp add: W)
  then show "state (tcb s' 1) = TASK_READY \<and> state (tcb s' 0) = TASK_BLOCKED"
    using w(2) spec [OF rest, of 0] by (simp add: W)
qed

end
