(* ===== verification/Selection.thy ===== *)
theory Selection
  imports Task_State
begin

text \<open>
  The two selections of \<open>scheduler.c\<close> by one order. The scan of the ready queue and the search for a waiter
  are different loops with the same tie rule; both compute the least element of a linear order on
  pairs of a priority and a place.
\<close>

section \<open>Ranks\<close>

datatype rank = Rank (level: int) (place: nat)

text \<open>A higher priority comes first, and of equal ones the first place.\<close>

instantiation rank :: linorder
begin

definition less_eq_rank :: "rank \<Rightarrow> rank \<Rightarrow> bool" where
  "less_eq_rank a b \<longleftrightarrow> level b < level a \<or> level a = level b \<and> place a \<le> place b"

definition less_rank :: "rank \<Rightarrow> rank \<Rightarrow> bool" where
  "less_rank a b \<longleftrightarrow> level b < level a \<or> level a = level b \<and> place a < place b"

instance
proof
  fix a b c :: rank
  show "a < b \<longleftrightarrow> a \<le> b \<and> \<not> b \<le> a" by (auto simp: less_eq_rank_def less_rank_def)
  show "a \<le> a" by (simp add: less_eq_rank_def)
  show "a \<le> b \<Longrightarrow> b \<le> c \<Longrightarrow> a \<le> c" by (auto simp: less_eq_rank_def)
  show "a \<le> b \<Longrightarrow> b \<le> a \<Longrightarrow> a = b" by (auto simp: less_eq_rank_def intro: rank.expand)
  show "a \<le> b \<or> b \<le> a" by (auto simp: less_eq_rank_def)
qed

end

text \<open>The place in \<open>K\<close> of greatest priority, the first one if there are several.\<close>

definition first_by_rank :: "(nat \<Rightarrow> int) \<Rightarrow> nat set \<Rightarrow> nat" where
  "first_by_rank f K = place (Min ((\<lambda>k. Rank (f k) k) ` K))"

lemma first_by_rankI:
  assumes "finite K" and "k \<in> K" and "\<And>j. j \<in> K \<Longrightarrow> f j < f k \<or> f j = f k \<and> k \<le> j"
  shows "first_by_rank f K = k"
proof -
  have "Min ((\<lambda>k. Rank (f k) k) ` K) = Rank (f k) k"
    using assms(1,2) by (intro Min_eqI) (auto simp: less_eq_rank_def dest: assms(3))
  then show ?thesis by (simp add: first_by_rank_def)
qed

lemma first_max_rank:
  assumes "first_max f xs = Some x"
  shows "xs ! first_by_rank (\<lambda>k. f (xs ! k)) {..<length xs} = x"
proof -
  obtain ys zs where sp: "xs = ys @ x # zs" "\<forall>y\<in>set ys. f y < f x" "\<forall>z\<in>set zs. f z \<le> f x"
    using first_max_split [OF assms] by blast
  have "first_by_rank (\<lambda>k. f (xs ! k)) {..<length xs} = length ys"
  proof (rule first_by_rankI)
    fix j
    assume j: "j \<in> {..<length xs}"
    show "f (xs ! j) < f (xs ! length ys) \<or> f (xs ! j) = f (xs ! length ys) \<and> length ys \<le> j"
    proof (cases "j < length ys")
      case True
      then show ?thesis using sp(2) by (simp add: sp(1) nth_append)
    next
      case False
      then have "xs ! j \<in> set (x # zs)" using j by (simp add: sp(1) nth_append del: set_simps)
      then have "f (xs ! j) \<le> f x" using sp(3) by auto
      then show ?thesis using False by (auto simp: sp(1))
    qed
  qed (simp_all add: sp(1))
  then show ?thesis by (simp add: sp(1))
qed

lemma best_waiter_rank:
  assumes "best_waiter r s = Some w"
  shows "first_by_rank (\<lambda>i. priority (tcb s i))
    {i. i < task_count s \<and> state (tcb s i) = TASK_BLOCKED \<and> block_reason (tcb s i) = r} = w"
  using best_waiterD [OF assms] by (intro first_by_rankI) auto

section \<open>Properties\<close>

text \<open>
  C25: Both selections of the scheduler are minima of one linear order, by priority and then by place: the scan
  of the ready queue returns the least of the entries whose tasks are READY, by their places in
  the queue; \<open>scheduler_unblock_one\<close> makes READY, at the tail of the queue, the least of the tasks blocked for
  the reason, by their indices, and changes no task if there is none.
\<close>

theorem selection_by_rank:
  assumes "sched_inv s"
  shows "(let q = filter (is_ready s) (rq_list s) in fst (ready_queue_peek_highest_priority s) =
      (if q = [] then -1 else q ! first_by_rank (\<lambda>k. prio_of s (q ! k)) {..<length q})) \<and>
    returns (scheduler_unblock_one r s) (\<lambda>s'.
      let W = {i. i < task_count s \<and> state (tcb s i) = TASK_BLOCKED \<and> block_reason (tcb s i) = r};
          w = first_by_rank (\<lambda>i. priority (tcb s i)) W
      in if W = {} then task_list s' = task_list s \<and> rq_list s' = rq_list s
         else task_list s' = (task_list s)[w := tcb_to TASK_READY BLOCK_NONE (tcb s w)] \<and>
           rq_list s' = rq_list s @ [int w])"
proof -
  let ?q = "filter (is_ready s) (rq_list s)"
  obtain b t where p: "ready_queue_peek_highest_priority s = (b, t)" by fastforce
  note P = peek_spec(3,4) [OF sched_invD(5) [OF assms] p]
  have "b = (if ?q = [] then -1 else ?q ! first_by_rank (\<lambda>k. prio_of s (?q ! k)) {..<length ?q})"
  proof (cases "first_max (prio_of s) ?q")
    case None
    then show ?thesis using P by simp
  next
    case (Some x)
    then have "?q \<noteq> []" by auto
    then show ?thesis using P Some first_max_rank [OF Some] by simp
  qed
  moreover have "returns (scheduler_unblock_one r s) (\<lambda>s'.
      let W = {i. i < task_count s \<and> state (tcb s i) = TASK_BLOCKED \<and> block_reason (tcb s i) = r};
          w = first_by_rank (\<lambda>i. priority (tcb s i)) W
      in if W = {} then task_list s' = task_list s \<and> rq_list s' = rq_list s
         else task_list s' = (task_list s)[w := tcb_to TASK_READY BLOCK_NONE (tcb s w)] \<and>
           rq_list s' = rq_list s @ [int w])"
  proof (rule returns_mono [OF unblock_one_woken [OF assms, of r]], elim conjE)
    fix s' :: "'a kernel_scheme"
    assume w: "woken r s s'"
    let ?W = "{i. i < task_count s \<and> state (tcb s i) = TASK_BLOCKED \<and> block_reason (tcb s i) = r}"
    show "let W = ?W; w = first_by_rank (\<lambda>i. priority (tcb s i)) W
      in if W = {} then task_list s' = task_list s \<and> rq_list s' = rq_list s
         else task_list s' = (task_list s)[w := tcb_to TASK_READY BLOCK_NONE (tcb s w)] \<and>
           rq_list s' = rq_list s @ [int w]"
    proof (cases "best_waiter r s")
      case None
      then have "?W = {}" by (simp add: best_waiter_None)
      then show ?thesis using w None by (simp add: woken_def)
    next
      case (Some k)
      then have "?W \<noteq> {}" using best_waiterD(1-3) [OF Some] by blast
      then show ?thesis using w Some by (simp only: Let_def best_waiter_rank [OF Some] if_False) (simp add: woken_def)
    qed
  qed
  ultimately show ?thesis by (simp add: p Let_def)
qed

text \<open>Of the two waiters of \<open>waiters_example\<close>, the second has the greater priority.\<close>

theorem selection_by_rank_witness:
  "returns (scheduler_unblock_one BLOCK_SEMAPHORE waiters_example) (\<lambda>s'. rq_list s' = [1])"
proof -
  let ?s = waiters_example
  let ?W = "{i. i < task_count ?s \<and> state (tcb ?s i) = TASK_BLOCKED \<and> block_reason (tcb ?s i) = BLOCK_SEMAPHORE}"
  have W: "?W = {0, 1}"
    by (auto simp: waiters_example_tcb waiting_tcb_def less_Suc_eq numeral_2_eq_2)
  have "first_by_rank (\<lambda>i. priority (tcb ?s i)) {0, 1} = 1"
    by (rule first_by_rankI) (auto simp: waiters_example_tcb waiting_tcb_def)
  then show ?thesis
    using conjunct2 [OF selection_by_rank [OF sched_inv_waiters_example, of BLOCK_SEMAPHORE]] unfolding W
    by (simp add: Let_def waiters_example_tcb returns_mono)
qed

end
