(* ===== verification/Soft_Timer.thy ===== *)
theory Soft_Timer
  imports Task_State
begin

text \<open>
  \<open>timer.h\<close> and \<open>timer.c\<close>: the kernel tick, the countdown of sleeping tasks and the pool of
  eight software timers. Callbacks are application code run in the middle of the pool scan, so
  every read after a callback is a read of the state the callback left.
\<close>

section \<open>Operations\<close>

definition timer_init :: "bool \<Rightarrow> 'a kernel_scheme \<Rightarrow> 'a kernel_scheme" where
  "timer_init tasks_bound s =
     s\<lparr>g_kernel_tick := 0, timer_bound := tasks_bound,
       g_soft_timers := replicate RTOS_SOFT_TIMER_COUNT zero_timer\<rparr>"

definition timer_tick :: "'a kernel_scheme \<Rightarrow> 'a kernel_scheme" where
  "timer_tick s = s\<lparr>g_kernel_tick := g_kernel_tick s + 1\<rparr>"

text \<open>An update of the timer in one slot of the pool.\<close>

definition upd_timer :: "nat \<Rightarrow> (SoftTimer \<Rightarrow> SoftTimer) \<Rightarrow> 'a kernel_scheme \<Rightarrow> 'a kernel_scheme" where
  "upd_timer i f s = s\<lparr>g_soft_timers := (g_soft_timers s)[i := f (g_soft_timers s ! i)]\<rparr>"

text \<open>
  One iteration of \<open>timer_update_soft\<close>, in three parts: the decrement of \<open>remaining\<close>, the
  expiry branch with the callback in it, and the guards around them.
\<close>

definition soft_countdown :: "nat \<Rightarrow> 'a kernel_scheme \<Rightarrow> 'a kernel_scheme" where
  "soft_countdown i s =
     (if remaining (g_soft_timers s ! i) > 0
      then upd_timer i (\<lambda>t. t\<lparr>remaining := remaining t - 1\<rparr>) s else s)"

definition soft_after_callback :: "nat \<Rightarrow> 'a kernel_scheme \<Rightarrow> 'a kernel_scheme" where
  "soft_after_callback i s =
     (let t = g_soft_timers s ! i;
          s1 = uart_log (Timer (LogCallbackDone (g_kernel_tick s) (timer_name t))) s
      in if mode t = TIMER_PERIODIC then
           uart_log (Timer (LogTimerReload (g_kernel_tick s) (timer_name t) (period_ticks t)))
             (upd_timer i (\<lambda>t. t\<lparr>remaining := period_ticks t\<rparr>) s1)
         else
           uart_log (Timer (LogOneShotComplete (g_kernel_tick s) (timer_name t)))
             (upd_timer i (\<lambda>t. t\<lparr>active := False\<rparr>) s1))"

definition soft_expire :: "'a kernel_scheme app \<Rightarrow> nat \<Rightarrow> 'a kernel_scheme \<Rightarrow> 'a kernel_scheme res" where
  "soft_expire app i s =
     (let t = g_soft_timers s ! i;
          s1 = uart_log (Timer (LogTimerExpired (g_kernel_tick s) (timer_name t) (mode t))) s;
          s2 = uart_log (Timer (LogCallbackExecuting (g_kernel_tick s) (timer_name t))) s1
      in bindr (call_callback app (callback t) (timer_arg t) s2)
           (\<lambda>s3. Inr (soft_after_callback i s3)))"

definition soft_step :: "'a kernel_scheme app \<Rightarrow> nat \<Rightarrow> 'a kernel_scheme \<Rightarrow> 'a kernel_scheme res" where
  "soft_step app i s =
     (if \<not> in_use (g_soft_timers s ! i) \<or> \<not> active (g_soft_timers s ! i) then Inr s
      else
        let s1 = soft_countdown i s
        in if remaining (g_soft_timers s1 ! i) = 0 then soft_expire app i s1 else Inr s1)"

definition timer_update_soft :: "'a kernel_scheme app \<Rightarrow> 'a kernel_scheme \<Rightarrow> 'a kernel_scheme res" where
  "timer_update_soft app s = for_range 0 RTOS_SOFT_TIMER_COUNT (soft_step app) s"

text \<open>One iteration of the loop over the tasks in \<open>timer_update_sleep\<close>.\<close>

definition sleep_step :: "nat \<Rightarrow> 'a kernel_scheme \<Rightarrow> 'a kernel_scheme res" where
  "sleep_step i s =
     (if state (tcb s i) \<noteq> TASK_BLOCKED \<or> block_reason (tcb s i) \<noteq> BLOCK_SLEEP then Inr s
      else bindr (c_int (sleep_ticks (tcb s i) - 1))
        (\<lambda>n. let s1 = upd_tcb i (\<lambda>t. t\<lparr>sleep_ticks := n\<rparr>) s
             in if sleep_ticks (tcb s1 i) \<le> 0 then
                  Inr (scheduler_set_task_state (int i) TASK_READY BLOCK_NONE
                        (uart_log (Timer (LogSleepExpired (g_kernel_tick s1) (task_name (tcb s1 i)))) s1))
                else Inr s1))"

text \<open>
  The bound \<open>*g_task_count\<close> is read again in every iteration; no iteration changes it
  (\<open>sleep_step_frames\<close> below).
\<close>

definition timer_update_sleep :: "'a kernel_scheme app \<Rightarrow> 'a kernel_scheme \<Rightarrow> 'a kernel_scheme res" where
  "timer_update_sleep app s =
     bindr (if \<not> timer_bound s then Inr s else for_range 0 (task_count s) sleep_step s)
       (timer_update_soft app)"

text \<open>
  The search for a free slot, with the number of slots still to look at. The eight assignments
  to the fields of the slot are one record here.
\<close>

primrec create_scan ::
    "nat \<Rightarrow> nat \<Rightarrow> SoftTimer \<Rightarrow> 'a kernel_scheme \<Rightarrow> nat option \<times> 'a kernel_scheme" where
  "create_scan 0 i new s = (None, uart_log (Timer LogTimerPoolExhausted) s)"
| "create_scan (Suc n) i new s =
     (if in_use (g_soft_timers s ! i) then create_scan n (Suc i) new s
      else (Some i, uart_log (Timer (LogTimerCreated (timer_name new) (mode new) (period_ticks new)))
                      (upd_timer i (\<lambda>_. new) s)))"

text \<open>
  A \<open>SoftTimer *\<close> returned to the application is the number of its slot, or none for null.
\<close>

definition timer_soft_create :: "string option \<Rightarrow> TimerMode \<Rightarrow> 32 word \<Rightarrow> addr \<Rightarrow> addr \<Rightarrow>
    'a kernel_scheme \<Rightarrow> nat option \<times> 'a kernel_scheme" where
  "timer_soft_create name md period cb arg s =
     (if cb = 0 then (None, uart_log (Timer (LogCreateNullCallback name)) s)
      else if period = 0 then (None, uart_log (Timer (LogCreateZeroPeriod name)) s)
      else create_scan RTOS_SOFT_TIMER_COUNT 0
             \<lparr>timer_name = (case name of Some n \<Rightarrow> n | None \<Rightarrow> ''unnamed''),
              mode = md, period_ticks = period, remaining = period, callback = cb,
              timer_arg = arg, active = False, in_use = True\<rparr> s)"

definition timer_soft_start :: "nat option \<Rightarrow> 'a kernel_scheme \<Rightarrow> 'a kernel_scheme res" where
  "timer_soft_start timer s =
     (case timer of None \<Rightarrow> Inr (uart_log (Timer LogTimerStartIgnored) s)
      | Some i \<Rightarrow>
        if i \<ge> length (g_soft_timers s) then Inl OutOfBounds
        else if \<not> in_use (g_soft_timers s ! i) then Inr (uart_log (Timer LogTimerStartIgnored) s)
        else
          let s1 = upd_timer i (\<lambda>t. t\<lparr>remaining := period_ticks t, active := True\<rparr>) s;
              t1 = g_soft_timers s1 ! i
          in Inr (uart_log (Timer (LogTimerStarted (timer_name t1) (period_ticks t1))) s1))"

definition timer_soft_stop :: "nat option \<Rightarrow> 'a kernel_scheme \<Rightarrow> 'a kernel_scheme res" where
  "timer_soft_stop timer s =
     (case timer of None \<Rightarrow> Inr (uart_log (Timer LogTimerStopIgnored) s)
      | Some i \<Rightarrow>
        if i \<ge> length (g_soft_timers s) then Inl OutOfBounds
        else if \<not> in_use (g_soft_timers s ! i) then Inr (uart_log (Timer LogTimerStopIgnored) s)
        else
          let s1 = upd_timer i (\<lambda>t. t\<lparr>active := False\<rparr>) s
          in Inr (uart_log (Timer (LogTimerStopped (timer_name (g_soft_timers s1 ! i)))) s1))"

definition timer_soft_delete :: "nat option \<Rightarrow> 'a kernel_scheme \<Rightarrow> 'a kernel_scheme res" where
  "timer_soft_delete timer s =
     (case timer of None \<Rightarrow> Inr (uart_log (Timer LogTimerDeleteIgnored) s)
      | Some i \<Rightarrow>
        if i \<ge> length (g_soft_timers s) then Inl OutOfBounds
        else if \<not> in_use (g_soft_timers s ! i) then Inr (uart_log (Timer LogTimerDeleteIgnored) s)
        else
          let name = timer_name (g_soft_timers s ! i);
              s1 = upd_timer i (\<lambda>t. t\<lparr>active := False, in_use := False\<rparr>) s
          in Inr (uart_log (Timer (LogTimerDeleted name)) s1))"

section \<open>What they leave alone\<close>

lemma upd_timer_fields [simp]:
  "g_soft_timers (upd_timer i f s) = (g_soft_timers s)[i := f (g_soft_timers s ! i)]"
  "task_list (upd_timer i f s) = task_list s"
  "task_count (upd_timer i f s) = task_count s"
  "current_task_index (upd_timer i f s) = current_task_index s"
  "sched_bound (upd_timer i f s) = sched_bound s"
  "ready_queue (upd_timer i f s) = ready_queue s"
  "ready_count (upd_timer i f s) = ready_count s"
  "active_context (upd_timer i f s) = active_context s"
  "g_kernel_tick (upd_timer i f s) = g_kernel_tick s"
  "timer_bound (upd_timer i f s) = timer_bound s"
  "mem_pool (upd_timer i f s) = mem_pool s"
  "uart_out (upd_timer i f s) = uart_out s"
  "kernel.more (upd_timer i f s) = kernel.more s"
  by (simp_all add: upd_timer_def)

lemma timer_tick_fields [simp]:
  "g_kernel_tick (timer_tick s) = g_kernel_tick s + 1"
  "g_soft_timers (timer_tick s) = g_soft_timers s"
  "task_list (timer_tick s) = task_list s"
  "task_count (timer_tick s) = task_count s"
  "current_task_index (timer_tick s) = current_task_index s"
  "sched_bound (timer_tick s) = sched_bound s"
  "ready_queue (timer_tick s) = ready_queue s"
  "ready_count (timer_tick s) = ready_count s"
  "active_context (timer_tick s) = active_context s"
  "timer_bound (timer_tick s) = timer_bound s"
  "mem_pool (timer_tick s) = mem_pool s"
  "uart_out (timer_tick s) = uart_out s"
  "kernel.more (timer_tick s) = kernel.more s"
  by (simp_all add: timer_tick_def)

lemma sched_inv_timer [simp]:
  "sched_inv (upd_timer i f s) = sched_inv s"
  "sched_inv (timer_tick s) = sched_inv s"
  by (rule sched_inv_cong; simp)+

lemma sleep_step_frames:
  assumes "sleep_step i s = Inr s'"
  shows "task_count s' = task_count s" "current_task_index s' = current_task_index s"
    "sched_bound s' = sched_bound s" "active_context s' = active_context s"
    "g_kernel_tick s' = g_kernel_tick s" "timer_bound s' = timer_bound s"
    "g_soft_timers s' = g_soft_timers s" "mem_pool s' = mem_pool s"
    "kernel.more s' = kernel.more s" "app_lines s' = app_lines s"
  using assms by (auto simp: sleep_step_def bindr_eq_Inr Let_def split: if_splits)

section \<open>The countdown of sleeping tasks\<close>

definition sleeping :: "TCB \<Rightarrow> bool" where
  "sleeping t \<longleftrightarrow> state t = TASK_BLOCKED \<and> block_reason t = BLOCK_SLEEP"

definition sleep_expires :: "TCB \<Rightarrow> bool" where
  "sleep_expires t \<longleftrightarrow> sleeping t \<and> sleep_ticks t \<le> 1"

text \<open>What one tick does to a control block.\<close>

definition sleep_tcb :: "TCB \<Rightarrow> TCB" where
  "sleep_tcb t =
     (if \<not> sleeping t then t
      else if sleep_ticks t \<le> 1 then tcb_to TASK_READY BLOCK_NONE t
      else t\<lparr>sleep_ticks := sleep_ticks t - 1\<rparr>)"

lemma sleep_step_spec:
  assumes inv: "sched_inv s" and i: "i < task_count s"
  shows "returns (sleep_step i s) (\<lambda>s'. sched_inv s' \<and>
    task_list s' = (task_list s)[i := sleep_tcb (tcb s i)] \<and>
    rq_list s' = rq_list s @ (if sleep_expires (tcb s i) then [int i] else []))"
proof (cases "sleeping (tcb s i)")
  case False
  then show ?thesis
    using inv by (auto simp: sleep_step_def sleeping_def sleep_expires_def sleep_tcb_def)
next
  case True
  note I = sched_invD [OF inv]
  let ?t = "tcb s i"
  let ?n = "sleep_ticks ?t - 1"
  let ?s1 = "upd_tcb i (\<lambda>t. t\<lparr>sleep_ticks := ?n\<rparr>) s"
  let ?s2 = "scheduler_set_task_state (int i) TASK_READY BLOCK_NONE s"
  have ok: "tcb_ok i ?t" using I(10) i by simp
  then have n: "in_int ?n" by (simp add: tcb_ok_def int_range_defs)
  have "\<exists>m. sleep_step i s = (if ?n \<le> 0 then Inr (uart_log m ?s2) else Inr ?s1)"
    using True n I(1,3,4) i
    by (intro exI [of _ "Timer (LogSleepExpired (g_kernel_tick s) (task_name (tcb s i)))"])
      (simp add: sleep_step_def sleeping_def Let_def set_ready_absorb_sleep)
  then obtain m where step: "sleep_step i s = (if ?n \<le> 0 then Inr (uart_log m ?s2) else Inr ?s1)"
    by blast
  show ?thesis
  proof (cases "?n \<le> 0")
    case False
    have "sched_inv ?s1"
      using inv ok False by (intro sched_inv_upd_tcb) (auto simp: tcb_ok_def int_range_defs)
    then show ?thesis
      using True False step by (simp add: sleep_tcb_def sleep_expires_def)
  next
    case expired: True
    have "int i \<notin> set (rq_list s)"
      using I(7) True by (simp add: sleeping_def)
    then have "rq_list ?s2 = rq_list s @ [int i]"
      using set_task_state_rq(1) [OF inv i] by (simp add: remove1_idem)
    moreover have "sched_inv ?s2"
      using inv by (intro sched_inv_set_task_state) simp_all
    ultimately show ?thesis
      using True expired step I i by (simp add: set_task_state_tcb sleep_tcb_def sleep_expires_def)
  qed
qed

text \<open>The whole loop: every task counts down once; the expired ones join the queue by index.\<close>

definition sleep_frame :: "'a kernel_scheme \<Rightarrow> 'a kernel_scheme \<Rightarrow> bool" where
  "sleep_frame s s' \<longleftrightarrow> task_count s' = task_count s \<and> current_task_index s' = current_task_index s \<and>
     sched_bound s' = sched_bound s \<and> active_context s' = active_context s \<and>
     g_kernel_tick s' = g_kernel_tick s \<and> timer_bound s' = timer_bound s \<and>
     g_soft_timers s' = g_soft_timers s \<and> mem_pool s' = mem_pool s \<and>
     kernel.more s' = kernel.more s \<and> app_lines s' = app_lines s"

lemma sleep_frame_step: "sleep_frame s t \<Longrightarrow> sleep_step i t = Inr t' \<Longrightarrow> sleep_frame s t'"
  using sleep_step_frames [of i t t'] by (simp add: sleep_frame_def)

lemma sleep_loop_spec:
  assumes inv: "sched_inv s"
  shows "returns (for_range 0 (task_count s) sleep_step s) (\<lambda>s'. sched_inv s' \<and> sleep_frame s s' \<and>
    length (task_list s') = length (task_list s) \<and>
    (\<forall>j. tcb s' j = (if j < task_count s then sleep_tcb (tcb s j) else tcb s j)) \<and>
    rq_list s' = rq_list s @ map int (filter (\<lambda>j. sleep_expires (tcb s j)) [0..<task_count s]))"
proof -
  let ?P = "\<lambda>k t. sched_inv t \<and> sleep_frame s t \<and> length (task_list t) = length (task_list s) \<and>
    (\<forall>j. tcb t j = (if j < k then sleep_tcb (tcb s j) else tcb s j)) \<and>
    rq_list t = rq_list s @ map int (filter (\<lambda>j. sleep_expires (tcb s j)) [0..<k])"
  have "returns (for_range 0 (task_count s) sleep_step s) (?P (0 + task_count s))"
  proof (rule for_range_returns)
    show "?P 0 s" using inv by (simp add: sleep_frame_def)
  next
    fix k t
    assume k: "k < 0 + task_count s" and P: "?P k t"
    then have kt: "k < task_count t" "k < length (task_list t)"
      using sched_invD [OF inv] by (simp_all add: sleep_frame_def)
    from P have "sched_inv t" by blast
    from sleep_step_spec [OF this kt(1)] obtain t' where t': "sleep_step k t = Inr t'"
      "sched_inv t'" "task_list t' = (task_list t)[k := sleep_tcb (tcb t k)]"
      "rq_list t' = rq_list t @ (if sleep_expires (tcb t k) then [int k] else [])"
      by (auto elim: returnsE)
    have "tcb t k = tcb s k" using P by simp
    moreover have "sleep_frame s t'" using P t'(1) sleep_frame_step by blast
    ultimately have "?P (Suc k) t'"
      using P t' kt(2) by (auto simp: nth_list_update less_Suc_eq)
    then show "returns (sleep_step k t) (?P (Suc k))" using t'(1) by simp
  qed
  then show ?thesis by simp
qed

section \<open>One tick of the software timers\<close>

text \<open>Whether the scan calls the callback of a slot, and what it does to the slot if the callback
  leaves the slot alone.\<close>

definition timer_fires :: "SoftTimer \<Rightarrow> bool" where
  "timer_fires t \<longleftrightarrow> in_use t \<and> active t \<and> remaining t \<le> 1"

definition soft_tick :: "SoftTimer \<Rightarrow> SoftTimer" where
  "soft_tick t =
     (if \<not> in_use t \<or> \<not> active t then t
      else if \<not> timer_fires t then t\<lparr>remaining := remaining t - 1\<rparr>
      else if mode t = TIMER_PERIODIC then t\<lparr>remaining := period_ticks t\<rparr>
      else t\<lparr>remaining := 0, active := False\<rparr>)"

lemma word_le_1: "(w :: 32 word) \<le> 1 \<longleftrightarrow> w = 0 \<or> w = 1"
  by (auto simp: word_le_nat_alt word_unat_eq_iff)

lemma remaining_id [simp]: "remaining t = n \<Longrightarrow> t\<lparr>remaining := n\<rparr> = t"
  by auto

lemma soft_step_idle:
  "\<not> in_use (g_soft_timers s ! i) \<or> \<not> active (g_soft_timers s ! i) \<Longrightarrow> soft_step app i s = Inr s"
  by (simp add: soft_step_def)

lemma soft_countdown_slots:
  "g_soft_timers (soft_countdown i s) = (g_soft_timers s)[i := (g_soft_timers s ! i)\<lparr>remaining :=
     (if remaining (g_soft_timers s ! i) > 0 then remaining (g_soft_timers s ! i) - 1 else 0)\<rparr>]"
  by (simp add: soft_countdown_def word_gt_0)

lemma soft_countdown_frames [simp]:
  "task_list (soft_countdown i s) = task_list s"
  "task_count (soft_countdown i s) = task_count s"
  "current_task_index (soft_countdown i s) = current_task_index s"
  "active_context (soft_countdown i s) = active_context s"
  "g_kernel_tick (soft_countdown i s) = g_kernel_tick s"
  "mem_pool (soft_countdown i s) = mem_pool s"
  "uart_out (soft_countdown i s) = uart_out s"
  "sched_inv (soft_countdown i s) = sched_inv s"
  "rq_list (soft_countdown i s) = rq_list s"
  "kernel.more (soft_countdown i s) = kernel.more s"
  by (simp_all add: soft_countdown_def rq_list_def)

lemma soft_after_callback_slots:
  "g_soft_timers (soft_after_callback i s) =
     (g_soft_timers s)[i := (if mode (g_soft_timers s ! i) = TIMER_PERIODIC
        then (g_soft_timers s ! i)\<lparr>remaining := period_ticks (g_soft_timers s ! i)\<rparr>
        else (g_soft_timers s ! i)\<lparr>active := False\<rparr>)]"
  by (simp add: soft_after_callback_def Let_def)

lemma soft_after_callback_frames [simp]:
  "task_list (soft_after_callback i s) = task_list s"
  "task_count (soft_after_callback i s) = task_count s"
  "current_task_index (soft_after_callback i s) = current_task_index s"
  "active_context (soft_after_callback i s) = active_context s"
  "g_kernel_tick (soft_after_callback i s) = g_kernel_tick s"
  "mem_pool (soft_after_callback i s) = mem_pool s"
  "sched_inv (soft_after_callback i s) = sched_inv s"
  "rq_list (soft_after_callback i s) = rq_list s"
  "kernel.more (soft_after_callback i s) = kernel.more s"
  by (simp_all add: soft_after_callback_def Let_def rq_list_def)

lemma soft_step_counts:
  assumes "i < length (g_soft_timers s)" and "in_use (g_soft_timers s ! i)"
    and "active (g_soft_timers s ! i)" and "\<not> timer_fires (g_soft_timers s ! i)"
  shows "soft_step app i s = Inr (upd_timer i soft_tick s)"
proof -
  have "remaining (g_soft_timers s ! i) \<noteq> 0" "remaining (g_soft_timers s ! i) - 1 \<noteq> 0"
    using assms by (auto simp: timer_fires_def word_le_1)
  then show ?thesis
    using assms by (simp add: soft_step_def soft_countdown_def soft_tick_def word_gt_0
        upd_timer_def Let_def)
qed

lemma soft_step_fire_eq:
  assumes "i < length (g_soft_timers s)" and f: "timer_fires (g_soft_timers s ! i)"
  shows "soft_step app i s = soft_expire app i (soft_countdown i s)"
    and "g_soft_timers (soft_countdown i s) =
      (g_soft_timers s)[i := (g_soft_timers s ! i)\<lparr>remaining := 0\<rparr>]"
proof -
  have r: "remaining (g_soft_timers s ! i) = 0 \<or> remaining (g_soft_timers s ! i) = 1"
    and u: "in_use (g_soft_timers s ! i)" "active (g_soft_timers s ! i)"
    using f by (simp_all add: timer_fires_def word_le_1)
  show slots: "g_soft_timers (soft_countdown i s) =
      (g_soft_timers s)[i := (g_soft_timers s ! i)\<lparr>remaining := 0\<rparr>]"
    using r by (auto simp: soft_countdown_slots)
  show "soft_step app i s = soft_expire app i (soft_countdown i s)"
    using u assms(1) by (simp add: soft_step_def slots)
qed

text \<open>A firing slot whose callback leaves the timers alone.\<close>

lemma soft_step_fires:
  assumes i: "i < length (g_soft_timers s)" and f: "timer_fires (g_soft_timers s ! i)"
    and nz: "callback (g_soft_timers s ! i) \<noteq> 0"
    and cb: "\<And>t. kernel.more t = kernel.more s \<Longrightarrow>
      returns (app_callback app (callback (g_soft_timers s ! i)) (timer_arg (g_soft_timers s ! i)) t)
        (\<lambda>t'. g_soft_timers t' = g_soft_timers t \<and> P (kernel.more t'))"
  shows "returns (soft_step app i s)
    (\<lambda>s'. g_soft_timers s' = (g_soft_timers s)[i := soft_tick (g_soft_timers s ! i)] \<and>
      P (kernel.more s'))"
proof -
  note eq = soft_step_fire_eq [OF i f]
  have u: "in_use (g_soft_timers s ! i)" "active (g_soft_timers s ! i)"
    using f by (simp_all add: timer_fires_def)
  show ?thesis
    unfolding eq(1) soft_expire_def Let_def
  proof (rule returns_bindrI [where P = "\<lambda>t'. g_soft_timers t' = g_soft_timers (soft_countdown i s) \<and>
      P (kernel.more t')"], goal_cases)
    case 1
    show ?case
      using i nz eq(2) by (simp add: call_callback_def) (rule returns_mono [OF cb], simp_all)
  next
    case (2 t')
    then show ?case
      using i u f by (simp add: soft_after_callback_slots eq(2) soft_tick_def)
  qed
qed

text \<open>A tick in which only slot \<open>i\<close> is running is the step of that slot.\<close>

definition only_slot :: "nat \<Rightarrow> 'a kernel_scheme \<Rightarrow> bool" where
  "only_slot i s \<longleftrightarrow> length (g_soft_timers s) = 8 \<and> i < 8 \<and>
     (\<forall>j<8. j \<noteq> i \<longrightarrow> \<not> in_use (g_soft_timers s ! j) \<or> \<not> active (g_soft_timers s ! j))"

lemma only_slot_update: "only_slot i s \<Longrightarrow> g_soft_timers t = (g_soft_timers s)[i := x] \<Longrightarrow> only_slot i t"
  by (simp add: only_slot_def)

lemma timer_update_soft_single:
  assumes only: "only_slot i s"
    and step: "returns (soft_step app i s) (\<lambda>s'. g_soft_timers s' = (g_soft_timers s)[i := x] \<and> Q s')"
  shows "returns (timer_update_soft app s) (\<lambda>s'. g_soft_timers s' = (g_soft_timers s)[i := x] \<and> Q s')"
proof -
  let ?Q = "\<lambda>s'. g_soft_timers s' = (g_soft_timers s)[i := x] \<and> Q s'"
  let ?P = "\<lambda>k t. if k \<le> i then t = s else ?Q t"
  have i: "i < 8" using only by (simp add: only_slot_def)
  have "returns (for_range 0 8 (soft_step app) s) (?P (0 + 8))"
  proof (rule for_range_returns)
    fix k t
    assume k: "k < (0::nat) + 8" and P: "?P k t"
    consider "k < i" | "k = i" | "k > i" by linarith
    then show "returns (soft_step app k t) (?P (Suc k))"
    proof cases
      case 1
      then have "soft_step app k t = Inr s"
        using P only k by (simp add: soft_step_idle only_slot_def)
      then show ?thesis using 1 by simp
    next
      case 2
      then show ?thesis using P step by simp
    next
      case 3
      then have "only_slot i t" using P only only_slot_update by fastforce
      then have "soft_step app k t = Inr t"
        using 3 k by (simp add: soft_step_idle only_slot_def)
      then show ?thesis using 3 P by simp
    qed
  qed simp
  then show ?thesis using i by (simp add: timer_update_soft_def)
qed

text \<open>\<open>n\<close> ticks of the timer pool in a row.\<close>

definition soft_ticks :: "'a kernel_scheme app \<Rightarrow> nat \<Rightarrow> 'a kernel_scheme \<Rightarrow> 'a kernel_scheme res" where
  "soft_ticks app n s = for_range 0 n (\<lambda>_. timer_update_soft app) s"

text \<open>A callback that only changes the application's variables, by \<open>g\<close>.\<close>

definition callback_does :: "'a kernel_scheme app \<Rightarrow> addr \<Rightarrow> addr \<Rightarrow> ('a \<Rightarrow> 'a) \<Rightarrow> bool" where
  "callback_does app cb arg g \<longleftrightarrow>
     (\<forall>t. app_callback app cb arg t = Inr (kernel.more_update g t))"

lemma tick_slot:
  assumes only: "only_slot i s" and t: "g_soft_timers s ! i = t" "in_use t" "active t"
    and cb: "callback t \<noteq> 0" "callback_does app (callback t) (timer_arg t) g"
  shows "returns (timer_update_soft app s) (\<lambda>s'. g_soft_timers s' = (g_soft_timers s)[i := soft_tick t] \<and>
    kernel.more s' = (if timer_fires t then g (kernel.more s) else kernel.more s))"
proof (rule timer_update_soft_single [OF only])
  have i: "i < length (g_soft_timers s)" using only by (simp add: only_slot_def)
  show "returns (soft_step app i s) (\<lambda>s'. g_soft_timers s' = (g_soft_timers s)[i := soft_tick t] \<and>
    kernel.more s' = (if timer_fires t then g (kernel.more s) else kernel.more s))"
  proof (cases "timer_fires t")
    case False
    then show ?thesis using soft_step_counts [OF i, of app] t by simp
  next
    case True
    have "returns (soft_step app i s) (\<lambda>s'. g_soft_timers s' = (g_soft_timers s)[i := soft_tick t] \<and>
      kernel.more s' = g (kernel.more s))"
      using soft_step_fires [OF i, of app "\<lambda>m. m = g (kernel.more s)"] True cb t
      by (simp add: callback_does_def)
    then show ?thesis using True by simp
  qed
qed

text \<open>The state of a started timer after \<open>n\<close> ticks.\<close>

definition started :: "SoftTimer \<Rightarrow> bool" where
  "started t \<longleftrightarrow> in_use t \<and> active t \<and> remaining t = period_ticks t \<and> period_ticks t \<noteq> 0 \<and> callback t \<noteq> 0"

definition slot_after :: "nat \<Rightarrow> SoftTimer \<Rightarrow> SoftTimer" where
  "slot_after n t =
     (let p = unat (period_ticks t) in
      if mode t = TIMER_PERIODIC then t\<lparr>remaining := of_nat (p - n mod p)\<rparr>
      else if n < p then t\<lparr>remaining := of_nat (p - n)\<rparr>
      else t\<lparr>remaining := 0, active := False\<rparr>)"

definition fired_after :: "nat \<Rightarrow> SoftTimer \<Rightarrow> nat" where
  "fired_after n t =
     (let p = unat (period_ticks t) in
      if mode t = TIMER_PERIODIC then n div p else if n < p then 0 else 1)"

lemma unat_of_nat_period: "k \<le> unat (p :: 32 word) \<Longrightarrow> unat (of_nat k :: 32 word) = k"
proof -
  assume k: "k \<le> unat p"
  have "unat p < 2 ^ LENGTH(32)" by (rule unsigned_less)
  with k show ?thesis by (simp add: unat_of_nat)
qed

lemma slot_after_Suc:
  assumes "started t"
  shows "soft_tick (slot_after n t) = slot_after (Suc n) t"
    and "fired_after (Suc n) t = fired_after n t + (if timer_fires (slot_after n t) then 1 else 0)"
proof -
  let ?p = "unat (period_ticks t)"
  have p: "0 < ?p" using assms by (simp add: started_def unat_gt_0)
  have dec: "(of_nat k :: 32 word) - 1 = of_nat (k - 1)" if "0 < k" for k
    using that by (cases k) simp_all
  have le1: "(of_nat k :: 32 word) \<le> 1 \<longleftrightarrow> k \<le> 1" if "k \<le> ?p" for k
    using unat_of_nat_period [OF that] by (simp add: word_le_nat_alt)
  have m: "0 < ?p - n mod ?p" "n mod ?p < ?p" using p by simp_all
  show "soft_tick (slot_after n t) = slot_after (Suc n) t"
  proof (cases "mode t = TIMER_PERIODIC")
    case True
    have "Suc n mod ?p = (if Suc (n mod ?p) = ?p then 0 else Suc (n mod ?p))"
      by (simp add: mod_Suc)
    then show ?thesis
      using True assms m le1 [of "?p - n mod ?p"] dec [OF m(1)]
      by (auto simp: slot_after_def soft_tick_def timer_fires_def started_def Let_def)
  next
    case False
    then show ?thesis
      using assms p le1 [of "?p - n"] dec [of "?p - n"]
      by (auto simp: slot_after_def soft_tick_def timer_fires_def started_def Let_def)
  qed
  show "fired_after (Suc n) t = fired_after n t + (if timer_fires (slot_after n t) then 1 else 0)"
  proof (cases "mode t = TIMER_PERIODIC")
    case True
    then show ?thesis
      using assms m le1 [of "?p - n mod ?p"]
      by (auto simp: fired_after_def slot_after_def timer_fires_def started_def Let_def div_Suc mod_Suc)
  next
    case False
    then show ?thesis
      using assms p le1 [of "?p - n"]
      by (auto simp: fired_after_def slot_after_def timer_fires_def started_def Let_def)
  qed
qed

lemma slot_after_fields [simp]:
  "in_use (slot_after n t) = in_use t"
  "callback (slot_after n t) = callback t"
  "timer_arg (slot_after n t) = timer_arg t"
  "period_ticks (slot_after n t) = period_ticks t"
  "mode (slot_after n t) = mode t"
  by (simp_all add: slot_after_def Let_def)

lemma soft_tick_inactive [simp]: "\<not> active t \<Longrightarrow> soft_tick t = t" "\<not> active t \<Longrightarrow> \<not> timer_fires t"
  by (simp_all add: soft_tick_def timer_fires_def)

lemma soft_ticks_slot:
  assumes only: "only_slot i s" and t: "g_soft_timers s ! i = t" "started t"
    and cb: "callback_does app (callback t) (timer_arg t) g"
  shows "returns (soft_ticks app n s) (\<lambda>s'. g_soft_timers s' = (g_soft_timers s)[i := slot_after n t] \<and>
    kernel.more s' = (g ^^ fired_after n t) (kernel.more s))"
proof -
  let ?P = "\<lambda>k s'. g_soft_timers s' = (g_soft_timers s)[i := slot_after k t] \<and>
    kernel.more s' = (g ^^ fired_after k t) (kernel.more s)"
  have i: "i < length (g_soft_timers s)" using only by (simp add: only_slot_def)
  have "returns (for_range 0 n (\<lambda>_. timer_update_soft app) s) (?P (0 + n))"
  proof (rule for_range_returns)
    have "slot_after 0 t = t" "fired_after 0 t = 0"
      using t(2) by (auto simp: slot_after_def fired_after_def started_def Let_def unat_eq_0)
    moreover have "(g_soft_timers s)[i := t] = g_soft_timers s"
      using t(1) list_update_id by metis
    ultimately show "?P 0 s" by simp
  next
    fix k s1
    assume P: "?P k s1"
    have o1: "only_slot i s1" using only_slot_update [OF only] P by blast
    have slot: "g_soft_timers s1 ! i = slot_after k t" using P i by simp
    have "returns (timer_update_soft app s1) (\<lambda>s'. g_soft_timers s' = (g_soft_timers s1)[i := soft_tick (slot_after k t)] \<and>
      kernel.more s' = (if timer_fires (slot_after k t) then g (kernel.more s1) else kernel.more s1))"
    proof (cases "active (slot_after k t)")
      case True
      then show ?thesis using o1 slot t(2) cb by (intro tick_slot) (simp_all add: started_def)
    next
      case False
      then have "soft_step app i s1 = Inr s1" using slot by (simp add: soft_step_idle)
      moreover have "(g_soft_timers s1)[i := slot_after k t] = g_soft_timers s1"
        using slot list_update_id by metis
      ultimately show ?thesis
        using False by (intro timer_update_soft_single [OF o1]) simp
    qed
    then show "returns (timer_update_soft app s1) (?P (Suc k))"
      using P slot_after_Suc [OF t(2), of k] by (elim returns_mono) (auto simp: funpow_swap1)
  qed
  then show ?thesis by (simp add: soft_ticks_def)
qed

text \<open>A tick of the timer module with no armed timer.\<close>

lemma all_active_free:
  "\<forall>j<8. \<not> active (g_soft_timers s ! j) \<Longrightarrow>
   \<forall>j<8. \<not> in_use (g_soft_timers s ! j) \<or> \<not> active (g_soft_timers s ! j)"
  by blast

lemma update_sleep_unarmed:
  assumes "sched_inv s" and "\<forall>j<8. \<not> in_use (g_soft_timers s ! j) \<or> \<not> active (g_soft_timers s ! j)"
  shows "returns (timer_update_sleep app s) (\<lambda>s'. sched_inv s' \<and> sleep_frame s s' \<and>
    (\<forall>j<task_count s. tcb s' j = sleep_tcb (tcb s j)) \<and>
    rq_list s' = rq_list s @ map int (filter (\<lambda>j. sleep_expires (tcb s j)) [0..<task_count s]))"
proof -
  have idle: "timer_update_soft app t = Inr t" if "g_soft_timers t = g_soft_timers s" for t
  proof -
    have "returns (for_range 0 8 (soft_step app) t) ((\<lambda>k t'. t' = t) (0 + 8))"
      by (rule for_range_returns) (use that assms(2) in \<open>simp_all add: soft_step_idle\<close>)
    then show ?thesis by (auto simp: timer_update_soft_def returns_def)
  qed
  show ?thesis
    unfolding timer_update_sleep_def using sched_invD(2) [OF assms(1)]
    by (simp, intro returns_bindrI [OF sleep_loop_spec [OF assms(1)]])
      (auto simp: idle sleep_frame_def)
qed

lemmas update_sleep_idle = update_sleep_unarmed [OF _ all_active_free]

section \<open>Properties\<close>

text \<open>
  C23: A timer started with period \<open>p\<close>, alone in the pool, whose callback acts on the
  application's variables by \<open>g\<close>: after \<open>n\<close> ticks a periodic timer has called back exactly
  \<open>n div p\<close> times and has \<open>p - n mod p\<close> ticks to go; a one-shot timer has called back once if
  \<open>n \<ge> p\<close> and not at all before, and is active exactly before. No tick faults.
\<close>

theorem soft_timer_schedule:
  assumes "only_slot i s" and "started (g_soft_timers s ! i)"
    and "callback_does app (callback (g_soft_timers s ! i)) (timer_arg (g_soft_timers s ! i)) g"
    and "p = unat (period_ticks (g_soft_timers s ! i))"
  shows "returns (soft_ticks app n s) (\<lambda>s'.
    if mode (g_soft_timers s ! i) = TIMER_PERIODIC then
      kernel.more s' = (g ^^ (n div p)) (kernel.more s) \<and>
      unat (remaining (g_soft_timers s' ! i)) = p - n mod p \<and> active (g_soft_timers s' ! i)
    else
      kernel.more s' = (if n < p then kernel.more s else g (kernel.more s)) \<and>
      (active (g_soft_timers s' ! i) \<longleftrightarrow> n < p))"
proof (rule returns_mono [OF soft_ticks_slot [OF assms(1) refl assms(2,3)]])
  fix s'
  assume s': "g_soft_timers s' = (g_soft_timers s)[i := slot_after n (g_soft_timers s ! i)] \<and>
    kernel.more s' = (g ^^ fired_after n (g_soft_timers s ! i)) (kernel.more s)"
  moreover have "i < length (g_soft_timers s)" using assms(1) by (simp add: only_slot_def)
  moreover have "active (g_soft_timers s ! i)" using assms(2) by (simp add: started_def)
  moreover have "unat (of_nat q :: 32 word) = q" if "q = p - n mod p" for q
    using that assms(4) by (intro unat_of_nat_period [of _ "period_ticks (g_soft_timers s ! i)"]) simp
  moreover obtain q where "q = p - n mod p" by blast
  ultimately show "if mode (g_soft_timers s ! i) = TIMER_PERIODIC then
      kernel.more s' = (g ^^ (n div p)) (kernel.more s) \<and>
      unat (remaining (g_soft_timers s' ! i)) = p - n mod p \<and> active (g_soft_timers s' ! i)
    else
      kernel.more s' = (if n < p then kernel.more s else g (kernel.more s)) \<and>
      (active (g_soft_timers s' ! i) \<longleftrightarrow> n < p)"
    using assms(4) by (simp add: slot_after_def fired_after_def Let_def
        del: of_nat_diff of_nat_mod)
qed

definition timer_example :: "TimerMode \<Rightarrow> nat kernel_scheme" where
  "timer_example md = (boot 4096 0)\<lparr>g_soft_timers := (replicate 8 zero_timer)[2 :=
     zero_timer\<lparr>mode := md, period_ticks := 3, remaining := 3, callback := 7, active := True,
       in_use := True\<rparr>]\<rparr>"

lemma timer_example_only: "only_slot 2 (timer_example md)"
  by (auto simp: timer_example_def only_slot_def zero_timer_def nth_list_update)

theorem soft_timer_schedule_witness:
  "returns (soft_ticks \<lparr>app_task = (\<lambda>_ s. Inr s), app_callback = (\<lambda>_ _ s. Inr (kernel.more_update Suc s))\<rparr>
     10 (timer_example TIMER_PERIODIC)) (\<lambda>s'. kernel.more s' = 3)"
proof -
  let ?app = "\<lparr>app_task = (\<lambda>_ s. Inr s), app_callback = (\<lambda>_ _ s. Inr (kernel.more_update Suc s))\<rparr>"
  have slot: "g_soft_timers (timer_example TIMER_PERIODIC) ! 2 = zero_timer\<lparr>mode := TIMER_PERIODIC,
      period_ticks := 3, remaining := 3, callback := 7, active := True, in_use := True\<rparr>"
    by (simp add: timer_example_def)
  have st: "started (g_soft_timers (timer_example TIMER_PERIODIC) ! 2)"
    by (simp add: slot started_def)
  have cb: "callback_does ?app (callback (g_soft_timers (timer_example TIMER_PERIODIC) ! 2))
      (timer_arg (g_soft_timers (timer_example TIMER_PERIODIC) ! 2)) Suc"
    by (simp add: callback_does_def)
  have m: "kernel.more (timer_example TIMER_PERIODIC) = 0"
    by (simp add: timer_example_def boot_def)
  have "(Suc ^^ 3) 0 = 3" by (simp add: numeral_3_eq_3)
  with soft_timer_schedule [OF timer_example_only st cb refl, of 10] show ?thesis
    by (elim returns_mono) (simp add: slot m)
qed

text \<open>
  C35: \<open>timer_soft_create\<close> returns null, leaving the pool alone, exactly if the callback is null,
  the period is zero or all eight slots are claimed; otherwise it claims the first free slot,
  writes the configuration there, not running, and changes no other slot.
\<close>

theorem timer_soft_create_spec:
  assumes "length (g_soft_timers s) = 8" and "timer_soft_create nm md period cb arg s = (r, s')"
  shows "if cb = 0 \<or> period = 0 \<or> (\<forall>j<8. in_use (g_soft_timers s ! j))
    then r = None \<and> g_soft_timers s' = g_soft_timers s
    else \<exists>i<8. r = Some i \<and> \<not> in_use (g_soft_timers s ! i) \<and> (\<forall>j<i. in_use (g_soft_timers s ! j)) \<and>
      g_soft_timers s' = (g_soft_timers s)[i := \<lparr>timer_name = (case nm of Some n \<Rightarrow> n | None \<Rightarrow> ''unnamed''),
        mode = md, period_ticks = period, remaining = period, callback = cb, timer_arg = arg,
        active = False, in_use = True\<rparr>]"
proof -
  have scan: "if \<forall>j<8. in_use (g_soft_timers s ! j) then r = None \<and> g_soft_timers s' = g_soft_timers s
    else \<exists>i<8. r = Some i \<and> \<not> in_use (g_soft_timers s ! i) \<and> (\<forall>j<i. in_use (g_soft_timers s ! j)) \<and>
      g_soft_timers s' = (g_soft_timers s)[i := new]"
    if "create_scan n k new s = (r, s')" "k + n = 8" "\<forall>j<k. in_use (g_soft_timers s ! j)" for n k new
    using that
  proof (induction n arbitrary: k)
    case (Suc n)
    show ?case
    proof (cases "in_use (g_soft_timers s ! k)")
      case True
      then have "\<forall>j<Suc k. in_use (g_soft_timers s ! j)" using Suc.prems(3) less_Suc_eq by auto
      then show ?thesis using Suc.IH [of "Suc k"] Suc.prems True by simp
    next
      case False
      then show ?thesis using Suc.prems by auto
    qed
  qed auto
  show ?thesis
    using assms(2) scan [of 8 0] by (auto simp: timer_soft_create_def split: if_splits)
qed

theorem timer_soft_create_spec_witness:
  "\<exists>i s'. timer_soft_create None TIMER_ONE_SHOT 5 7 0 (timer_example TIMER_PERIODIC) = (Some i, s') \<and>
     timer_name (g_soft_timers s' ! i) = ''unnamed''"
proof -
  have l: "length (g_soft_timers (timer_example TIMER_PERIODIC)) = 8"
    by (simp add: timer_example_def)
  obtain r s' where c: "timer_soft_create None TIMER_ONE_SHOT 5 7 0 (timer_example TIMER_PERIODIC) = (r, s')"
    by fastforce
  have "\<not> in_use (g_soft_timers (timer_example TIMER_PERIODIC) ! 0)"
    by (simp add: timer_example_def zero_timer_def)
  then have "\<not> (\<forall>j<8. in_use (g_soft_timers (timer_example TIMER_PERIODIC) ! j))"
    by (metis zero_less_numeral)
  with timer_soft_create_spec [OF l c] l c show ?thesis by auto
qed

text \<open>
  C39: A one-shot timer is disarmed after its callback, so a callback that re-arms its own
  one-shot timer with \<open>timer_soft_start\<close> has no lasting effect: the timer is inactive when the
  scan moves on.
\<close>

theorem one_shot_restart_lost:
  assumes "i < length (g_soft_timers s)" and "timer_fires (g_soft_timers s ! i)"
    and "mode (g_soft_timers s ! i) = TIMER_ONE_SHOT" and "callback (g_soft_timers s ! i) \<noteq> 0"
    and "\<And>t. app_callback app (callback (g_soft_timers s ! i)) (timer_arg (g_soft_timers s ! i)) t =
      timer_soft_start (Some i) t"
  shows "returns (soft_step app i s) (\<lambda>s'. \<not> active (g_soft_timers s' ! i))"
proof -
  note eq = soft_step_fire_eq [OF assms(1,2)]
  have "in_use (g_soft_timers s ! i)" using assms(2) by (simp add: timer_fires_def)
  then show ?thesis
    unfolding eq(1) soft_expire_def Let_def
    using assms by (simp add: call_callback_def eq(2) timer_soft_start_def soft_after_callback_slots Let_def)
qed

theorem one_shot_restart_lost_witness:
  "\<exists>s :: nat kernel_scheme. timer_fires (g_soft_timers s ! 2) \<and>
     returns (soft_step \<lparr>app_task = (\<lambda>_ s. Inr s), app_callback = (\<lambda>_ _. timer_soft_start (Some 2))\<rparr> 2 s)
       (\<lambda>s'. \<not> active (g_soft_timers s' ! 2))"
proof -
  let ?s = "upd_timer 2 (\<lambda>t. t\<lparr>remaining := 1\<rparr>) (timer_example TIMER_ONE_SHOT)"
  have f: "timer_fires (g_soft_timers ?s ! 2)"
    by (simp add: timer_example_def timer_fires_def)
  moreover have "returns (soft_step \<lparr>app_task = (\<lambda>_ s. Inr s),
      app_callback = (\<lambda>_ _. timer_soft_start (Some 2))\<rparr> 2 ?s) (\<lambda>s'. \<not> active (g_soft_timers s' ! 2))"
    by (rule one_shot_restart_lost [OF _ f]) (simp_all add: timer_example_def)
  ultimately show ?thesis by blast
qed

text \<open>
  One call of \<open>timer_update_sleep\<close> never faults on a well-formed kernel with no armed timer;
  it counts every sleeping task down by one, wakes exactly those whose count was one or less
  (in index order, behind the tasks already in the ready queue), and touches no other task.
\<close>

lemma timer_update_sleep_spec:
  assumes "sched_inv s" and "\<forall>j<8. \<not> active (g_soft_timers s ! j)"
  shows "returns (timer_update_sleep app s) (\<lambda>s'. sched_inv s' \<and>
    (\<forall>j<task_count s. tcb s' j =
       (if state (tcb s j) = TASK_BLOCKED \<and> block_reason (tcb s j) = BLOCK_SLEEP then
          if sleep_ticks (tcb s j) \<le> 1
          then (tcb s j)\<lparr>state := TASK_READY, sleep_ticks := 0, block_reason := BLOCK_NONE\<rparr>
          else (tcb s j)\<lparr>sleep_ticks := sleep_ticks (tcb s j) - 1\<rparr>
        else tcb s j)) \<and>
    rq_list s' = rq_list s @ map int (filter (\<lambda>j. sleep_expires (tcb s j)) [0..<task_count s]))"
  by (rule returns_mono [OF update_sleep_idle [OF assms]])
    (auto simp: sleep_tcb_def sleeping_def tcb_to_def)

text \<open>Two tasks asleep, one of them with one tick left.\<close>

definition sleepers_example :: "nat kernel_scheme" where
  "sleepers_example = (boot 4096 0)\<lparr>task_list := (replicate 8 zero_tcb)
       [0 := zero_tcb\<lparr>task_id := 1, task_function := 5, priority := 2, state := TASK_BLOCKED,
          sleep_ticks := 1, block_reason := BLOCK_SLEEP, stack_size := 256\<rparr>,
        1 := zero_tcb\<lparr>task_id := 2, task_function := 6, priority := 1, state := TASK_BLOCKED,
          sleep_ticks := 3, block_reason := BLOCK_SLEEP, stack_size := 256\<rparr>],
     task_count := 2, sched_bound := True, timer_bound := True\<rparr>"

end
