(* ===== verification/Dispatch.thy ===== *)
theory Dispatch
  imports Soft_Timer
begin

text \<open>
  The scheduling loop of \<open>scheduler.c\<close>: the context switch on the task control blocks,
  \<open>do_context_switch\<close> and one cycle of \<open>scheduler_run\<close>. The main lemma says, for every
  application, which task a cycle runs and in which state of the kernel it runs.
\<close>

section \<open>Operations\<close>

definition scheduler_init :: "'a kernel_scheme \<Rightarrow> 'a kernel_scheme" where
  "scheduler_init s = timer_init True (s\<lparr>sched_bound := True, ready_count := 0\<rparr>)"

text \<open>
  The operations of \<open>context.c\<close> act on the contexts inside the task control blocks: object
  \<open>i\<close> of their store is the context of task \<open>i\<close>.
\<close>

definition ctx_view :: "'a kernel_scheme \<Rightarrow> ctx_mem" where
  "ctx_view s = \<lparr>active_reg = active_context s, ctx_objs = (\<lambda>i. cpu_context (tcb s i))\<rparr>"

definition ctx_put :: "ctx_mem \<Rightarrow> 'a kernel_scheme \<Rightarrow> 'a kernel_scheme" where
  "ctx_put m s = s\<lparr>active_context := active_reg m,
     task_list := map (\<lambda>i. (tcb s i)\<lparr>cpu_context := ctx_objs m i\<rparr>) [0..<length (task_list s)]\<rparr>"

definition on_contexts :: "(ctx_mem \<Rightarrow> ctx_mem) \<Rightarrow> 'a kernel_scheme \<Rightarrow> 'a kernel_scheme" where
  "on_contexts f s = ctx_put (f (ctx_view s)) s"

text \<open>
  Phase 4 of \<open>do_context_switch\<close>, which the Continue path of the loop repeats word for word:
  the task is RUNNING, its function is called, and it becomes READY again unless it left the
  RUNNING state.
\<close>

definition requeue_running :: "nat \<Rightarrow> 'a kernel_scheme \<Rightarrow> 'a kernel_scheme" where
  "requeue_running i s =
     (if state (tcb s i) = TASK_RUNNING
      then scheduler_set_task_state (int i) TASK_READY BLOCK_NONE s else s)"

definition run_task :: "'a kernel_scheme app \<Rightarrow> 32 word \<Rightarrow> nat \<Rightarrow> 'a kernel_scheme \<Rightarrow> 'a kernel_scheme res" where
  "run_task app tick i s =
     (let s1 = scheduler_set_task_state (int i) TASK_RUNNING BLOCK_NONE s;
          s2 = uart_log (Sched (LogTaskRunning tick i (task_name (tcb s1 i)) (stack_pointer (tcb s1 i))
                 (ready_count s1))) s1
      in bindr (call_task app (task_function (tcb s2 i)) s2)
           (\<lambda>s3. let s4 = requeue_running i s3
                 in Inr (uart_log (Sched (LogTaskState tick (task_name (tcb s4 i)) (state (tcb s4 i)))) s4)))"

text \<open>Phases 1 to 3. An \<open>outgoing_index\<close> below 0 is no outgoing task.\<close>

definition save_and_restore :: "32 word \<Rightarrow> int \<Rightarrow> nat \<Rightarrow> 'a kernel_scheme \<Rightarrow> 'a kernel_scheme" where
  "save_and_restore tick outgoing_index i s =
     (if outgoing_index \<ge> 0 then
        let k = nat outgoing_index;
            s1 = uart_log (Sched (LogCurrentTask tick (task_name (tcb s k)) (state (tcb s k)))) s;
            s2 = on_contexts (context_switch (CtxObj k) (CtxObj i)) s1
        in uart_log (Sched (LogContextSaved tick (task_name (tcb s2 k)))) s2
      else on_contexts (context_restore (CtxObj i)) s)"

definition switch_in :: "32 word \<Rightarrow> switch_reason \<Rightarrow> int \<Rightarrow> nat \<Rightarrow> 'a kernel_scheme \<Rightarrow> 'a kernel_scheme" where
  "switch_in tick reason outgoing_index i s =
     (let nm = task_name (tcb s i);
          old = (if outgoing_index \<ge> 0 then Some (task_name (tcb s (nat outgoing_index))) else None);
          s1 = uart_log (Sched (LogContextSwitch tick reason old nm)) s;
          s2 = upd_tcb i (\<lambda>t. t\<lparr>slice_ticks_used := 1\<rparr>) (s1\<lparr>current_task_index := int i\<rparr>);
          s3 = uart_log (Sched (LogNextTask tick nm (priority (tcb s2 i)))) s2
      in uart_log (Sched (LogContextRestored tick nm (pc (active_context s3)) (lr (active_context s3)))) s3)"

definition do_context_switch :: "'a kernel_scheme app \<Rightarrow> int \<Rightarrow> int \<Rightarrow> switch_reason \<Rightarrow>
    'a kernel_scheme \<Rightarrow> 'a kernel_scheme res" where
  "do_context_switch app outgoing_index incoming_index reason s =
     (let tick = timer_now s; i = nat incoming_index
      in run_task app tick i
           (switch_in tick reason outgoing_index i (save_and_restore tick outgoing_index i s)))"

text \<open>\<open>cur_idx\<close> and \<open>cur_task\<close> of the loop: none for a null \<open>cur_task\<close>.\<close>

definition running_index :: "'a kernel_scheme \<Rightarrow> nat option" where
  "running_index s =
     (if sched_bound s \<and> current_task_index s \<ge> 0 \<and> current_task_index s < int (task_count s)
      then Some (nat (current_task_index s)) else None)"

definition scheduler_idle :: "32 word \<Rightarrow> 'a kernel_scheme \<Rightarrow> 'a kernel_scheme" where
  "scheduler_idle tick s =
     (let s1 = uart_log (Sched (LogIdle tick)) s
      in case running_index s of None \<Rightarrow> s1
         | Some c \<Rightarrow> upd_tcb c (\<lambda>t. t\<lparr>slice_ticks_used := 0\<rparr>) s1)"

definition scheduler_continue :: "'a kernel_scheme app \<Rightarrow> 32 word \<Rightarrow> nat \<Rightarrow> 'a kernel_scheme \<Rightarrow> 'a kernel_scheme res" where
  "scheduler_continue app tick c s =
     (let s1 = upd_tcb c (\<lambda>t. t\<lparr>slice_ticks_used := slice_ticks_used t + 1\<rparr>) s;
          t = tcb s1 c
      in run_task app tick c
           (uart_log (Sched (LogContinue tick (task_name t) (slice_ticks_used t) (priority t))) s1))"

text \<open>
  The body of the loop after the tick: the scan for the best task, the idle case, and the
  cases A to E of the source in their order.
\<close>

definition scheduler_decide :: "'a kernel_scheme app \<Rightarrow> 'a kernel_scheme \<Rightarrow> 'a kernel_scheme res" where
  "scheduler_decide app s0 =
     (let tick = timer_now s0;
          cur = running_index s0;
          (best, s) = ready_queue_peek_highest_priority s0
      in if best < 0 then Inr (scheduler_idle tick s)
         else case cur of
           None \<Rightarrow> do_context_switch app (-1) best First_tick (ready_queue_pop best s)
         | Some c \<Rightarrow>
             let b = nat best; cur_task = tcb s c;
                 best_prio = priority (tcb s b); cur_prio = priority cur_task
             in if state cur_task \<noteq> TASK_RUNNING \<and> state cur_task \<noteq> TASK_READY then
                  let s1 = uart_log (Sched (LogForcedSwitch tick (task_name cur_task) (state cur_task)
                             (task_name (tcb s b)))) s
                  in do_context_switch app (int c) best Forced (ready_queue_pop best s1)
                else if best_prio > cur_prio then
                  let s1 = uart_log (Sched (LogPreempted tick (task_name cur_task) cur_prio
                             (task_name (tcb s b)) best_prio)) s
                  in do_context_switch app (int c) best Preempted (ready_queue_pop best (requeue_running c s1))
                else if best_prio = cur_prio \<and> slice_ticks_used cur_task \<ge> RTOS_TIME_SLICE_TICKS \<and>
                    best \<noteq> int c then
                  let s1 = uart_log (Sched (LogSliceExpired tick (task_name cur_task) (task_name (tcb s b))
                             (slice_ticks_used cur_task))) s
                  in do_context_switch app (int c) best Slice_expired (ready_queue_pop best (requeue_running c s1))
                else scheduler_continue app tick c s)"

definition scheduler_cycle :: "'a kernel_scheme app \<Rightarrow> 'a kernel_scheme \<Rightarrow> 'a kernel_scheme res" where
  "scheduler_cycle app s = bindr (timer_update_sleep app (timer_tick s)) (scheduler_decide app)"

definition scheduler_run :: "'a kernel_scheme app \<Rightarrow> int \<Rightarrow> 'a kernel_scheme \<Rightarrow> 'a kernel_scheme res" where
  "scheduler_run app max_ticks s = for_range 0 (nat max_ticks) (\<lambda>_. scheduler_cycle app) s"

section \<open>Contexts\<close>

lemma on_contexts_fields [simp]:
  "task_count (on_contexts f s) = task_count s"
  "current_task_index (on_contexts f s) = current_task_index s"
  "sched_bound (on_contexts f s) = sched_bound s"
  "ready_queue (on_contexts f s) = ready_queue s"
  "ready_count (on_contexts f s) = ready_count s"
  "rq_list (on_contexts f s) = rq_list s"
  "active_context (on_contexts f s) = active_reg (f (ctx_view s))"
  "g_kernel_tick (on_contexts f s) = g_kernel_tick s"
  "timer_bound (on_contexts f s) = timer_bound s"
  "g_soft_timers (on_contexts f s) = g_soft_timers s"
  "mem_pool (on_contexts f s) = mem_pool s"
  "uart_out (on_contexts f s) = uart_out s"
  "kernel.more (on_contexts f s) = kernel.more s"
  "length (task_list (on_contexts f s)) = length (task_list s)"
  by (simp_all add: on_contexts_def ctx_put_def rq_list_def)

lemma on_contexts_tcb [simp]:
  "j < length (task_list s) \<Longrightarrow>
   tcb (on_contexts f s) j = (tcb s j)\<lparr>cpu_context := ctx_objs (f (ctx_view s)) j\<rparr>"
  by (simp add: on_contexts_def ctx_put_def)

lemma app_lines_on_contexts [simp]: "app_lines (on_contexts f s) = app_lines s"
  by (rule app_lines_cong) simp

lemma ctx_view_log [simp]: "ctx_view (uart_log m s) = ctx_view s"
  by (simp add: ctx_view_def)

lemma rq_wf_ext: "ready_queue t = ready_queue s \<Longrightarrow> ready_count t = ready_count s \<Longrightarrow> rq_wf t = rq_wf s"
  by (simp add: rq_wf_def)

section \<open>The scan of a queue that holds only ready tasks\<close>

lemma peek_loop_same:
  assumes "\<forall>t\<in>set (rq_list s). is_ready s t" and "rq_wf s"
  shows "snd (peek_loop i best s) = s"
  using assms
proof (induction i best s rule: peek_loop.induct)
  case (1 i best s)
  show ?case
  proof (cases "i < ready_count s")
    case True
    have "ready_queue s ! i \<in> set (rq_list s)"
      using True "1.prems"(2) by (simp add: rq_nth)
    then have rd: "\<not> state (tcb s (nat (ready_queue s ! i))) \<noteq> TASK_READY"
      using "1.prems"(1) by (simp add: is_ready_def)
    show ?thesis
      using "1.IH"(2,3) [OF True refl rd] "1.prems" True rd
      by (cases "best < 0 \<or> priority (tcb s (nat (ready_queue s ! i))) >
            priority (tcb s (nat (ready_queue s ! nat best)))")
        (simp_all add: peek_loop.simps [of i best s] Let_def)
  next
    case False
    then show ?thesis by (simp add: peek_loop.simps [of i best s])
  qed
qed

text \<open>The first entry of greatest priority.\<close>

definition head_task :: "'a kernel_scheme \<Rightarrow> int option" where
  "head_task s = first_max (prio_of s) (rq_list s)"

lemma peek_head:
  assumes "sched_inv s"
  shows "ready_queue_peek_highest_priority s =
    (case head_task s of None \<Rightarrow> -1 | Some t \<Rightarrow> t, s)"
proof -
  note I = sched_invD [OF assms]
  have rd: "\<forall>t\<in>set (rq_list s). is_ready s t"
    using I(7) ready_set_nonneg by blast
  obtain b s' where p: "ready_queue_peek_highest_priority s = (b, s')" by fastforce
  have "snd (ready_queue_peek_highest_priority s) = s"
    using peek_loop_same [OF rd I(5), of 0 "-1"]
    by (cases "peek_loop 0 (-1) s") (simp add: ready_queue_peek_highest_priority_def)
  then have "s' = s" using p by simp
  with peek_spec(4) [OF I(5) p] p show ?thesis
    by (auto simp: head_task_def split: option.splits)
qed

lemma head_task_Some:
  assumes "sched_inv s" and "head_task s = Some b"
  obtains i where "b = int i" and "i < task_count s" and "state (tcb s i) = TASK_READY"
    and "\<And>j. j < task_count s \<Longrightarrow> state (tcb s j) = TASK_READY \<Longrightarrow> priority (tcb s j) \<le> priority (tcb s i)"
proof -
  note I = sched_invD [OF assms(1)]
  have fm: "first_max (prio_of s) (rq_list s) = Some b" using assms(2) by (simp add: head_task_def)
  have "b \<in> ready_set s" using first_max_in [OF fm] I(7) by simp
  then obtain i where i: "b = int i" "i < task_count s" "state (tcb s i) = TASK_READY"
    unfolding ready_set_def by blast
  moreover have "priority (tcb s j) \<le> priority (tcb s i)"
    if "j < task_count s" "state (tcb s j) = TASK_READY" for j
  proof -
    have "int j \<in> set (rq_list s)" using that I(7) by simp
    from first_max_Some_ge [OF fm this] show ?thesis using i(1) by (simp add: prio_of_def)
  qed
  ultimately show thesis by (rule that)
qed

lemma head_task_None:
  assumes "sched_inv s"
  shows "head_task s = None \<longleftrightarrow> (\<forall>i<task_count s. state (tcb s i) \<noteq> TASK_READY)"
proof -
  have "head_task s = None \<longleftrightarrow> set (rq_list s) = {}" by (simp add: head_task_def)
  also have "\<dots> \<longleftrightarrow> ready_set s = {}" using sched_invD(7) [OF assms] by simp
  also have "\<dots> \<longleftrightarrow> (\<forall>i<task_count s. state (tcb s i) \<noteq> TASK_READY)"
    unfolding ready_set_def by blast
  finally show ?thesis .
qed

lemma app_lines_pop [simp]:
  "app_lines (ready_queue_remove b s) = app_lines s" "app_lines (ready_queue_pop b s) = app_lines s"
  by (rule app_lines_cong, simp add: ready_queue_pop_def)+

section \<open>From the decision to the task function\<close>

text \<open>
  At the start of a cycle no task is RUNNING. Between the decision and the call of the task
  function the chosen task may be READY and yet off the queue; \<open>dispatchable\<close> is the invariant
  there, and \<open>same_core\<close> says that only contexts, slice counters, the current index and the
  output may have changed.
\<close>

definition cycle_inv :: "'a kernel_scheme \<Rightarrow> bool" where
  "cycle_inv s \<longleftrightarrow> sched_inv s \<and> (\<forall>i<task_count s. state (tcb s i) \<noteq> TASK_RUNNING)"

definition tcb_core :: "TCB \<Rightarrow> TCB" where
  "tcb_core t = t\<lparr>cpu_context := context_clear, slice_ticks_used := 0\<rparr>"

lemma tcb_core_updates [simp]:
  "tcb_core (t\<lparr>cpu_context := c\<rparr>) = tcb_core t"
  "tcb_core (t\<lparr>slice_ticks_used := n\<rparr>) = tcb_core t"
  by (simp_all add: tcb_core_def)

lemma tcb_core_eqD:
  assumes "tcb_core t = tcb_core u"
  shows "state t = state u" "priority t = priority u" "task_function t = task_function u"
    "task_name t = task_name u" "tcb_ok i t = tcb_ok i u" "block_reason t = block_reason u"
    "sleep_ticks t = sleep_ticks u" "stack_pointer t = stack_pointer u" "task_id t = task_id u"
  using assms by (cases t; cases u; simp add: tcb_core_def tcb_ok_def)+

definition dispatchable :: "nat \<Rightarrow> 'a kernel_scheme \<Rightarrow> bool" where
  "dispatchable i s \<longleftrightarrow> sched_bound s \<and> timer_bound s \<and> length (task_list s) = 8 \<and> task_count s \<le> 8 \<and>
     rq_wf s \<and> distinct (rq_list s) \<and> set (rq_list s) - {int i} = ready_set s - {int i} \<and>
     i < task_count s \<and> current_task_index s = int i \<and>
     (\<forall>j<task_count s. tcb_ok j (tcb s j)) \<and>
     (\<forall>j<task_count s. state (tcb s j) \<noteq> TASK_RUNNING)"

definition same_core :: "nat \<Rightarrow> 'a kernel_scheme \<Rightarrow> 'a kernel_scheme \<Rightarrow> bool" where
  "same_core i s d \<longleftrightarrow> length (task_list d) = length (task_list s) \<and> task_count d = task_count s \<and>
     (\<forall>j<length (task_list s). tcb_core (tcb d j) = tcb_core (tcb s j)) \<and>
     sched_bound d = sched_bound s \<and> timer_bound d = timer_bound s \<and>
     g_kernel_tick d = g_kernel_tick s \<and> g_soft_timers d = g_soft_timers s \<and>
     mem_pool d = mem_pool s \<and> kernel.more d = kernel.more s \<and> app_lines d = app_lines s \<and>
     remove1 (int i) (rq_list d) = remove1 (int i) (rq_list s)"

lemma dispatchableI:
  assumes inv: "cycle_inv s" and i: "i < task_count s" and same: "same_core i s d"
    and rq: "rq_wf d" "distinct (rq_list d)" and cur: "current_task_index d = int i"
  shows "dispatchable i d"
proof -
  have S: "sched_inv s" using inv by (simp add: cycle_inv_def)
  note I = sched_invD [OF S]
  have D: "length (task_list d) = 8" "task_count d = task_count s" "sched_bound d" "timer_bound d"
    and rm: "remove1 (int i) (rq_list d) = remove1 (int i) (rq_list s)"
    and core: "\<And>j. j < task_count s \<Longrightarrow> tcb_core (tcb d j) = tcb_core (tcb s j)"
    using same I by (simp_all add: same_core_def)
  note E = tcb_core_eqD [OF core]
  have "ready_set d = ready_set s" using D(2) E(1) by (intro ready_set_cong) simp_all
  moreover have "set (rq_list d) - {int i} = set (rq_list s) - {int i}"
    using arg_cong [OF rm, of set] rq(2) I(6) by simp
  moreover have "tcb_ok j (tcb d j)" if "j < task_count s" for j
    using I(10) [OF that] E(5) [OF that] by simp
  moreover have "state (tcb d j) \<noteq> TASK_RUNNING" if "j < task_count s" for j
    using inv that E(1) [OF that] by (simp add: cycle_inv_def)
  ultimately show ?thesis
    using D I i rq cur by (simp add: dispatchable_def)
qed

text \<open>The state in which the task function is called.\<close>

definition entered :: "nat \<Rightarrow> 'a kernel_scheme \<Rightarrow> 'a kernel_scheme" where
  "entered i d = scheduler_set_task_state (int i) TASK_RUNNING BLOCK_NONE d"

lemma entered_tasks:
  assumes "dispatchable i d"
  shows "task_list (entered i d) = (task_list d)[i := tcb_to TASK_RUNNING BLOCK_NONE (tcb d i)]"
  using assms by (simp add: entered_def dispatchable_def set_task_state_tcb)

lemma entered_rq:
  assumes "dispatchable i d"
  shows "rq_list (entered i d) = remove1 (int i) (rq_list d)" and "rq_wf (entered i d)"
  using assms by (simp_all add: entered_def dispatchable_def scheduler_set_task_state_def Let_def)

lemma sched_inv_entered:
  assumes d: "dispatchable i d"
  shows "sched_inv (entered i d)"
proof -
  have D: "sched_bound d" "timer_bound d" "length (task_list d) = 8" "task_count d \<le> 8"
    "distinct (rq_list d)" "set (rq_list d) - {int i} = ready_set d - {int i}"
    "i < task_count d" "current_task_index d = int i"
    and ok: "\<And>j. j < task_count d \<Longrightarrow> tcb_ok j (tcb d j)"
    and nr: "\<And>j. j < task_count d \<Longrightarrow> state (tcb d j) \<noteq> TASK_RUNNING"
    using d by (simp_all add: dispatchable_def)
  have st: "state (tcb (entered i d) j) = (if j = i then TASK_RUNNING else state (tcb d j))"
    if "j < task_count d" for j
    using that D by (simp add: entered_tasks [OF d])
  have ok': "tcb_ok j (tcb (entered i d) j)" if "j < task_count d" for j
    using that D ok [OF that] by (cases "j = i") (simp_all add: entered_tasks [OF d] tcb_ok_to)
  have "ready_set (entered i d) = ready_set d - {int i}"
    using st by (auto simp: ready_set_def entered_def split: if_splits)
  moreover have "set (rq_list (entered i d)) = set (rq_list d) - {int i}"
    using D(5) by (simp add: entered_rq(1) [OF d])
  ultimately have "set (rq_list (entered i d)) = ready_set (entered i d)" using D(6) by simp
  moreover have "state (tcb (entered i d) j) = TASK_RUNNING \<longrightarrow> current_task_index d = int j"
    if "j < task_count d" for j
    using st [OF that] nr [OF that] D(8) by simp
  ultimately show ?thesis
    unfolding sched_inv_def using D entered_rq [OF d] ok'
    by (simp add: entered_def)
qed

section \<open>What one decision does\<close>

text \<open>
  The current task goes on if it is READY, none has greater priority, and it is itself the head
  or has not used its slice.
\<close>

definition continues :: "int \<Rightarrow> 'a kernel_scheme \<Rightarrow> nat option" where
  "continues b s =
     (case running_index s of None \<Rightarrow> None
      | Some c \<Rightarrow> if state (tcb s c) = TASK_READY \<and> priority (tcb s c) = prio_of s b \<and>
                    (b = int c \<or> slice_ticks_used (tcb s c) = 0) then Some c else None)"

lemma pop_commute:
  "sched_bound (ready_queue_pop b s) = sched_bound s"
  "task_list (ready_queue_pop b s) = task_list s"
  by (simp_all add: ready_queue_pop_def)

lemma save_and_restore_fields [simp]:
  "task_count (save_and_restore tk k i s) = task_count s"
  "sched_bound (save_and_restore tk k i s) = sched_bound s"
  "timer_bound (save_and_restore tk k i s) = timer_bound s"
  "ready_queue (save_and_restore tk k i s) = ready_queue s"
  "ready_count (save_and_restore tk k i s) = ready_count s"
  "rq_list (save_and_restore tk k i s) = rq_list s"
  "rq_wf (save_and_restore tk k i s) = rq_wf s"
  "g_kernel_tick (save_and_restore tk k i s) = g_kernel_tick s"
  "g_soft_timers (save_and_restore tk k i s) = g_soft_timers s"
  "mem_pool (save_and_restore tk k i s) = mem_pool s"
  "kernel.more (save_and_restore tk k i s) = kernel.more s"
  "length (task_list (save_and_restore tk k i s)) = length (task_list s)"
  "app_lines (save_and_restore tk k i s) = app_lines s"
  by (simp_all add: save_and_restore_def Let_def rq_wf_def)

lemma save_and_restore_core [simp]:
  "j < length (task_list s) \<Longrightarrow>
   tcb_core (tcb (save_and_restore tk k i s) j) = tcb_core (tcb s j)"
  by (simp add: save_and_restore_def Let_def)

lemma switch_in_fields [simp]:
  "task_count (switch_in tk r k i s) = task_count s"
  "current_task_index (switch_in tk r k i s) = int i"
  "sched_bound (switch_in tk r k i s) = sched_bound s"
  "timer_bound (switch_in tk r k i s) = timer_bound s"
  "ready_queue (switch_in tk r k i s) = ready_queue s"
  "ready_count (switch_in tk r k i s) = ready_count s"
  "rq_list (switch_in tk r k i s) = rq_list s"
  "rq_wf (switch_in tk r k i s) = rq_wf s"
  "active_context (switch_in tk r k i s) = active_context s"
  "g_kernel_tick (switch_in tk r k i s) = g_kernel_tick s"
  "g_soft_timers (switch_in tk r k i s) = g_soft_timers s"
  "mem_pool (switch_in tk r k i s) = mem_pool s"
  "kernel.more (switch_in tk r k i s) = kernel.more s"
  "task_list (switch_in tk r k i s) = (task_list s)[i := (tcb s i)\<lparr>slice_ticks_used := 1\<rparr>]"
  "app_lines (switch_in tk r k i s) = app_lines s"
  by (simp_all add: switch_in_def Let_def rq_list_def rq_wf_def)
    (simp_all add: app_lines_def uart_log_def timer_now_def)

lemma switch_in_core:
  assumes "j < length (task_list s)"
  shows "tcb_core (tcb (switch_in tk r k i s) j) = tcb_core (tcb s j)"
  using assms by (cases "j = i") simp_all

text \<open>The state \<open>do_context_switch\<close> runs the incoming task from.\<close>

definition switched :: "switch_reason \<Rightarrow> int \<Rightarrow> nat \<Rightarrow> 'a kernel_scheme \<Rightarrow> 'a kernel_scheme" where
  "switched r k i s = switch_in (timer_now s) r k i (save_and_restore (timer_now s) k i s)"

lemma do_context_switch_eq:
  "do_context_switch app k (int i) r s = run_task app (timer_now s) i (switched r k i s)"
  by (simp add: do_context_switch_def switched_def Let_def)

lemma switched_same_core:
  assumes "same_core i s t"
  shows "same_core i s (switched r k i t)"
proof -
  have "tcb_core (tcb (switched r k i t) j) = tcb_core (tcb t j)" if "j < length (task_list t)" for j
    using that by (simp add: switched_def switch_in_core del: switch_in_fields(14))
  then show ?thesis
    using assms by (simp add: same_core_def switched_def)
qed

lemma popped_same_core:
  assumes "sched_inv s"
  shows "same_core i s (ready_queue_pop (int i) (uart_log (Sched m) s))"
    and "same_core i s (ready_queue_pop (int i) s)"
    and "rq_wf (ready_queue_pop (int i) s)" and "distinct (rq_list (ready_queue_pop (int i) s))"
proof -
  note I = sched_invD [OF assms]
  have "int i \<notin> set (remove1 (int i) (rq_list s))" using I(6) by simp
  then have "remove1 (int i) (remove1 (int i) (rq_list s)) = remove1 (int i) (rq_list s)"
    by (simp add: remove1_idem)
  then show "same_core i s (ready_queue_pop (int i) s)"
    "same_core i s (ready_queue_pop (int i) (uart_log (Sched m) s))"
    using I(5) by (simp_all add: same_core_def ready_queue_pop_def)
  show "rq_wf (ready_queue_pop (int i) s)" "distinct (rq_list (ready_queue_pop (int i) s))"
    using I(5,6) by (simp_all add: ready_queue_pop_def)
qed

lemma switch_from_log:
  assumes inv: "cycle_inv s" and i: "i < task_count s"
    and t: "t = ready_queue_pop (int i) s \<or> (\<exists>m. t = ready_queue_pop (int i) (uart_log (Sched m) s))"
  shows "same_core i s (switched r k i t)" and "dispatchable i (switched r k i t)"
    and "task_list t = task_list s" and "active_context t = active_context s"
    and "timer_now t = timer_now s"
proof -
  have S: "sched_inv s" using inv by (simp add: cycle_inv_def)
  note I = sched_invD [OF S]
  show same: "same_core i s (switched r k i t)"
    using t popped_same_core(1,2) [OF S] by (intro switched_same_core) blast
  have "rq_list t = rq_list (ready_queue_pop (int i) s)" "rq_wf t = rq_wf (ready_queue_pop (int i) s)"
    using t by (auto simp: ready_queue_pop_def rq_wf_def rq_list_def)
  then have "rq_wf (switched r k i t)" "distinct (rq_list (switched r k i t))"
    using popped_same_core(3,4) [OF S] by (simp_all add: switched_def)
  then show "dispatchable i (switched r k i t)"
    by (rule dispatchableI [OF inv i same]) (simp add: switched_def)
  show "task_list t = task_list s" "active_context t = active_context s" "timer_now t = timer_now s"
    using t by (auto simp: ready_queue_pop_def timer_now_def)
qed

text \<open>
  The effect of a dispatch on contexts and slices: switching in loads the saved context of the
  incoming task, saves the active one for the outgoing task and starts the slice; going on
  leaves both alone and counts the slice.
\<close>

definition switched_in :: "int \<Rightarrow> nat \<Rightarrow> 'a kernel_scheme \<Rightarrow> 'a kernel_scheme \<Rightarrow> bool" where
  "switched_in k i s d \<longleftrightarrow> active_context d = cpu_context (tcb s i) \<and>
     slice_ticks_used (tcb d i) = 1 \<and>
     (\<forall>j<length (task_list s). cpu_context (tcb d j) =
        (if int j = k then active_context s else cpu_context (tcb s j))) \<and>
     (\<forall>j<length (task_list s). j \<noteq> i \<longrightarrow> slice_ticks_used (tcb d j) = slice_ticks_used (tcb s j))"

lemma switched_switched_in:
  assumes "task_list t = task_list s" and "active_context t = active_context s"
    and "i < length (task_list s)" and "k \<noteq> int i" and "k < int (length (task_list s))"
  shows "switched_in k i s (switched r k i t)"
proof -
  have v: "ctx_view t = ctx_view s" using assms(1,2) by (simp add: ctx_view_def)
  show ?thesis
  proof (cases "0 \<le> k")
    case True
    then have "nat k \<noteq> i" using assms(4) by auto
    then show ?thesis
      using assms True v
      by (auto simp: switched_in_def switched_def save_and_restore_def Let_def nth_list_update
          ctx_view_def)
  next
    case False
    then show ?thesis
      using assms v
      by (auto simp: switched_in_def switched_def save_and_restore_def Let_def nth_list_update
          ctx_view_def)
  qed
qed

definition goes_on :: "nat \<Rightarrow> 'a kernel_scheme \<Rightarrow> 'a kernel_scheme \<Rightarrow> bool" where
  "goes_on i s d \<longleftrightarrow> current_task_index s = int i \<and> active_context d = active_context s \<and>
     (\<forall>j<length (task_list s). cpu_context (tcb d j) = cpu_context (tcb s j) \<and>
        slice_ticks_used (tcb d j) = slice_ticks_used (tcb s j) + (if j = i then 1 else 0))"

lemma running_index_Some:
  "sched_inv s \<Longrightarrow> running_index s = Some c \<longleftrightarrow> current_task_index s = int c \<and> c < task_count s"
  by (auto simp: running_index_def sched_inv_def)

lemma running_index_None:
  "sched_inv s \<Longrightarrow> running_index s = None \<longleftrightarrow> current_task_index s = -1"
  by (auto simp: running_index_def sched_inv_def)

text \<open>The source's case distinction, once the scan has found the READY task \<open>b\<close>.\<close>

lemma decide_switch:
  assumes inv: "cycle_inv s" and hd: "head_task s = Some (int b)" and b: "b < task_count s"
    and cont: "continues (int b) s = None"
  obtains r t where "scheduler_decide app s =
      run_task app (timer_now s) b (switched r (current_task_index s) b t)"
    and "t = ready_queue_pop (int b) s \<or> (\<exists>m. t = ready_queue_pop (int b) (uart_log (Sched m) s))"
    and "current_task_index s \<noteq> int b"
proof -
  have S: "sched_inv s" using inv by (simp add: cycle_inv_def)
  note peek = peek_head [OF S, unfolded hd option.case]
  have tn: "timer_now (ready_queue_pop (int b) s) = timer_now s"
    "timer_now (ready_queue_pop (int b) (uart_log (Sched m) s)) = timer_now s" for m
    by (simp_all add: ready_queue_pop_def timer_now_def)
  show thesis
  proof (cases "running_index s")
    case None
    then have "current_task_index s = -1" using S by (simp add: running_index_None)
    then show thesis
      using None by (intro that [of First_tick "ready_queue_pop (int b) s"])
        (simp_all add: scheduler_decide_def peek Let_def do_context_switch_eq tn)
  next
    case (Some c)
    then have c: "current_task_index s = int c" "c < task_count s"
      using S by (simp_all add: running_index_Some)
    have nr: "state (tcb s c) \<noteq> TASK_RUNNING" using inv c(2) by (simp add: cycle_inv_def)
    then have rq: "requeue_running c (uart_log (Sched m) s) = uart_log (Sched m) s" for m
      by (simp add: requeue_running_def)
    have le: "priority (tcb s c) \<le> priority (tcb s b)" if "state (tcb s c) = TASK_READY"
      using head_task_Some [OF S hd] c(2) that by (metis nat_int)
    have ne: "c \<noteq> b"
    proof
      assume "c = b"
      moreover have "state (tcb s b) = TASK_READY" using head_task_Some [OF S hd] by (metis of_nat_eq_iff)
      ultimately show False using cont Some by (simp add: continues_def prio_of_def)
    qed
    show thesis
    proof (cases "state (tcb s c) = TASK_READY")
      case False
      then show thesis
        using nr ne c(1) Some by (intro that [of Forced])
          (simp_all add: scheduler_decide_def peek Let_def do_context_switch_eq tn, blast)
    next
      case True
      show thesis
      proof (cases "priority (tcb s b) > priority (tcb s c)")
        case gt: True
        then show thesis
          using True ne c(1) Some by (intro that [of Preempted])
            (simp_all add: scheduler_decide_def peek Let_def do_context_switch_eq tn rq, blast)
      next
        case False
        then have eq: "priority (tcb s b) = priority (tcb s c)" using le [OF True] by simp
        then have "slice_ticks_used (tcb s c) \<noteq> 0"
          using cont Some True ne by (auto simp: continues_def prio_of_def split: if_splits)
        then have "slice_ticks_used (tcb s c) \<ge> 1"
          by (simp add: word_le_nat_alt unat_gt_0 Suc_leI)
        then show thesis
          using True ne c(1) Some eq by (intro that [of Slice_expired])
            (simp_all add: scheduler_decide_def peek Let_def do_context_switch_eq tn rq, blast)
      qed
    qed
  qed
qed

lemma continuesD:
  assumes "sched_inv s" and "continues b s = Some c"
  shows "current_task_index s = int c" "c < task_count s" "state (tcb s c) = TASK_READY"
    "priority (tcb s c) = prio_of s b" "b = int c \<or> slice_ticks_used (tcb s c) = 0"
    "running_index s = Some c"
proof -
  show r: "running_index s = Some c"
    using assms(2) by (auto simp: continues_def split: option.splits if_splits)
  then show "current_task_index s = int c" "c < task_count s"
    using assms(1) by (simp_all add: running_index_Some)
  show "state (tcb s c) = TASK_READY" "priority (tcb s c) = prio_of s b"
    "b = int c \<or> slice_ticks_used (tcb s c) = 0"
    using assms(2) r by (auto simp: continues_def split: if_splits)
qed

lemma decide_continue:
  assumes inv: "cycle_inv s" and hd: "head_task s = Some b" and cont: "continues b s = Some c"
  obtains d where "scheduler_decide app s = run_task app (timer_now s) c d"
    and "same_core c s d" and "dispatchable c d" and "goes_on c s d"
proof -
  have S: "sched_inv s" using inv by (simp add: cycle_inv_def)
  note I = sched_invD [OF S] and C = continuesD [OF S cont]
  note peek = peek_head [OF S, unfolded hd option.case]
  obtain i where i: "b = int i" using head_task_Some [OF S hd] by blast
  let ?d0 = "upd_tcb c (\<lambda>t. t\<lparr>slice_ticks_used := slice_ticks_used t + 1\<rparr>) s"
  let ?d = "uart_log (Sched (LogContinue (timer_now s) (task_name (tcb ?d0 c))
      (slice_ticks_used (tcb ?d0 c)) (priority (tcb ?d0 c)))) ?d0"
  have "scheduler_decide app s = scheduler_continue app (timer_now s) c s"
    using C i by (auto simp: scheduler_decide_def peek Let_def prio_of_def word_le_nat_alt)
  also have "\<dots> = run_task app (timer_now s) c ?d"
    by (simp add: scheduler_continue_def Let_def)
  finally have eq: "scheduler_decide app s = run_task app (timer_now s) c ?d" .
  have core: "tcb_core (tcb ?d0 j) = tcb_core (tcb s j)" if "j < length (task_list s)" for j
    using that by (cases "j = c") simp_all
  have rq: "rq_list ?d0 = rq_list s" by (simp add: rq_list_def)
  have same: "same_core c s ?d"
    using core rq by (simp add: same_core_def del: upd_tcb_fields(1)) simp
  moreover have "rq_wf ?d" "distinct (rq_list ?d)"
    using I(5,6) rq by (simp_all add: rq_wf_def)
  then have "dispatchable c ?d"
    by (rule dispatchableI [OF inv C(2) same]) (simp add: C)
  moreover have "goes_on c s ?d"
    using C(1) by (auto simp: goes_on_def nth_list_update)
  ultimately show thesis using eq by (intro that)
qed

text \<open>The two together.\<close>

definition chosen :: "'a kernel_scheme \<Rightarrow> nat option" where
  "chosen s = (case head_task s of None \<Rightarrow> None
     | Some b \<Rightarrow> (case continues b s of Some c \<Rightarrow> Some c | None \<Rightarrow> Some (nat b)))"

lemma decide_idle:
  assumes "cycle_inv s" and "chosen s = None"
  shows "scheduler_decide app s = Inr (scheduler_idle (timer_now s) s)"
proof -
  have S: "sched_inv s" using assms(1) by (simp add: cycle_inv_def)
  have "head_task s = None" using assms(2) by (simp add: chosen_def split: option.splits)
  then show ?thesis using peek_head [OF S] by (simp add: scheduler_decide_def Let_def)
qed

lemma chosenD:
  assumes "sched_inv s" and "chosen s = Some i"
  shows "i < task_count s" and "state (tcb s i) = TASK_READY"
    and "\<And>j. j < task_count s \<Longrightarrow> state (tcb s j) = TASK_READY \<Longrightarrow> priority (tcb s j) \<le> priority (tcb s i)"
proof -
  obtain b where b: "head_task s = Some b"
    and c: "(case continues b s of Some c \<Rightarrow> c | None \<Rightarrow> nat b) = i"
    using assms(2) by (auto simp: chosen_def split: option.splits)
  obtain k where k: "b = int k" "k < task_count s" "state (tcb s k) = TASK_READY"
    "\<And>j. j < task_count s \<Longrightarrow> state (tcb s j) = TASK_READY \<Longrightarrow> priority (tcb s j) \<le> priority (tcb s k)"
    using head_task_Some [OF assms(1) b] by blast
  have *: "i < task_count s \<and> state (tcb s i) = TASK_READY \<and> priority (tcb s i) = priority (tcb s k)"
  proof (cases "continues b s")
    case None
    then show ?thesis using c k by simp
  next
    case (Some d)
    then show ?thesis using continuesD [OF assms(1) Some] c k(1) by (simp add: prio_of_def)
  qed
  then show "i < task_count s" "state (tcb s i) = TASK_READY" by simp_all
  show "priority (tcb s j) \<le> priority (tcb s i)"
    if "j < task_count s" "state (tcb s j) = TASK_READY" for j
    using k(4) [OF that] * by simp
qed

lemma decide_runs:
  assumes inv: "cycle_inv s" and ch: "chosen s = Some i"
  obtains d where "scheduler_decide app s = run_task app (timer_now s) i d"
    and "same_core i s d" and "dispatchable i d"
    and "goes_on i s d \<or> current_task_index s \<noteq> int i \<and> switched_in (current_task_index s) i s d"
proof -
  have S: "sched_inv s" using inv by (simp add: cycle_inv_def)
  note I = sched_invD [OF S]
  obtain b where b: "head_task s = Some b"
    and c: "(case continues b s of Some c \<Rightarrow> c | None \<Rightarrow> nat b) = i"
    using ch by (auto simp: chosen_def split: option.splits)
  show thesis
  proof (cases "continues b s")
    case (Some d)
    then have "continues b s = Some i" using c by simp
    from decide_continue [OF inv b this] that show thesis by blast
  next
    case None
    obtain k where k: "b = int k" using head_task_Some [OF S b] by blast
    then have bi: "b = int i" using c None by simp
    have i: "i < task_count s" using chosenD(1) [OF S ch] .
    obtain r t where eq: "scheduler_decide app s =
        run_task app (timer_now s) i (switched r (current_task_index s) i t)"
      and t: "t = ready_queue_pop (int i) s \<or> (\<exists>m. t = ready_queue_pop (int i) (uart_log (Sched m) s))"
      and ne: "current_task_index s \<noteq> int i"
      using decide_switch [OF inv b [unfolded bi] i None [unfolded bi]] by metis
    note sw = switch_from_log [OF inv i t]
    have "switched_in (current_task_index s) i s (switched r (current_task_index s) i t)"
      using sw(3,4) i I ne by (intro switched_switched_in) simp_all
    then show thesis using that eq sw(1,2) ne by blast
  qed
qed

section \<open>Round robin\<close>

text \<open>
  Tasks of equal priority that are always ready: their functions only touch the application's
  variables, nobody sleeps, no software timer runs.
\<close>

definition passive_app :: "'a kernel_scheme app \<Rightarrow> bool" where
  "passive_app app \<longleftrightarrow> (\<forall>f s. \<exists>g. app_task app f s = Inr (kernel.more_update g s))"

definition all_ready :: "int \<Rightarrow> 'a kernel_scheme \<Rightarrow> bool" where
  "all_ready p s \<longleftrightarrow> (\<forall>i<task_count s. state (tcb s i) = TASK_READY \<and> priority (tcb s i) = p) \<and>
     (\<forall>j<8. \<not> active (g_soft_timers s ! j))"

text \<open>The current task, if any, has had its slice and is the last in the queue.\<close>

definition turn_ended :: "'a kernel_scheme \<Rightarrow> bool" where
  "turn_ended s \<longleftrightarrow> length (rq_list s) = 1 \<or> current_task_index s = -1 \<or>
     last (rq_list s) = current_task_index s \<and> slice_ticks_used (tcb s (nat (current_task_index s))) \<noteq> 0"

lemma first_max_const: "(\<And>y. y \<in> set xs \<Longrightarrow> f y = f x) \<Longrightarrow> first_max f (x # xs) = Some x"
  by (auto split: option.split dest: first_max_in)

lemma quiet_tick:
  assumes "sched_inv s" and "all_ready p s"
  shows "timer_update_sleep app s = Inr s"
proof -
  have "returns (for_range 0 (task_count s) sleep_step s) ((\<lambda>k t. t = s) (0 + task_count s))"
    by (rule for_range_returns) (use assms(2) in \<open>simp_all add: sleep_step_def all_ready_def\<close>)
  moreover have "returns (for_range 0 8 (soft_step app) s) ((\<lambda>k t. t = s) (0 + 8))"
    by (rule for_range_returns) (use assms(2) in \<open>simp_all add: soft_step_idle all_ready_def\<close>)
  ultimately show ?thesis
    using sched_invD(2) [OF assms(1)]
    by (auto simp: timer_update_sleep_def timer_update_soft_def returns_def)
qed

lemma run_passive:
  assumes d: "dispatchable i d" and app: "passive_app app"
  obtains s' where "run_task app tk i d = Inr s'"
    and "task_list s' = (task_list d)[i := tcb_to TASK_READY BLOCK_NONE (tcb d i)]"
    and "rq_list s' = remove1 (int i) (rq_list d) @ [int i]" and "task_count s' = task_count d"
    and "current_task_index s' = int i" and "g_soft_timers s' = g_soft_timers d" and "sched_inv s'"
proof -
  have D: "i < task_count d" "i < length (task_list d)" "task_function (tcb d i) \<noteq> 0"
    "distinct (rq_list d)" "current_task_index d = int i"
    using d by (simp_all add: dispatchable_def tcb_ok_def)
  let ?e = "entered i d"
  let ?l = "uart_log (Sched (LogTaskRunning tk i (task_name (tcb ?e i)) (stack_pointer (tcb ?e i)) (ready_count ?e))) ?e"
  obtain g where g: "app_task app (task_function (tcb d i)) ?l = Inr (kernel.more_update g ?l)"
    using app unfolding passive_app_def by blast
  let ?s3 = "kernel.more_update g ?l"
  let ?s4 = "scheduler_set_task_state (int i) TASK_READY BLOCK_NONE ?s3"
  note E = entered_tasks [OF d]
  have run: "run_task app tk i d =
      Inr (uart_log (Sched (LogTaskState tk (task_name (tcb ?s4 i)) (state (tcb ?s4 i)))) ?s4)"
    using D(2,3) g E by (simp add: run_task_def Let_def call_task_def requeue_running_def
        entered_def [symmetric])
  have inv: "sched_inv ?s3"
    using sched_inv_cong [of ?s3 ?l] sched_inv_entered [OF d] by simp
  have n: "i < task_count ?s3" using D(1) by (simp add: entered_def)
  have ti: "tcb_to TASK_READY BLOCK_NONE (tcb_to TASK_RUNNING BLOCK_NONE t) = tcb_to TASK_READY BLOCK_NONE t" for t
    by (simp add: tcb_to_def)
  have tl: "task_list ?s4 = (task_list d)[i := tcb_to TASK_READY BLOCK_NONE (tcb d i)]"
    using sched_invD(1-4) [OF inv] n D(2) by (simp add: set_task_state_tcb E ti)
  have "rq_list ?s3 = remove1 (int i) (rq_list d)" by (simp add: rq_list_def entered_rq(1) [OF d, unfolded rq_list_def])
  moreover have "int i \<notin> set (remove1 (int i) (rq_list d))" using D(4) by simp
  ultimately have rq: "rq_list ?s4 = remove1 (int i) (rq_list d) @ [int i]"
    using set_task_state_rq(1) [OF inv n] by (simp add: remove1_idem)
  have inv4: "sched_inv ?s4" by (rule sched_inv_set_task_state_nat [OF inv n]) simp_all
  show thesis
    by (rule that [OF run]) (simp_all add: tl rq inv4, simp_all add: entered_def D(5))
qed

lemma round_robin_cycle:
  assumes inv: "cycle_inv s" and rdy: "all_ready p s" and turn: "turn_ended s" and app: "passive_app app"
    and q: "rq_list s = b # xs"
  obtains s' where "scheduler_cycle app s = Inr s'" and "cycle_inv s'" and "all_ready p s'"
    and "turn_ended s'" and "rq_list s' = xs @ [b]" and "current_task_index s' = b"
proof -
  let ?t = "timer_tick s"
  have "rq_list ?t = rq_list s" by (simp add: rq_list_def)
  then have tick: "cycle_inv ?t" "all_ready p ?t" "rq_list ?t = b # xs" "turn_ended ?t"
    using assms by (simp_all add: cycle_inv_def all_ready_def turn_ended_def)
  then have S: "sched_inv ?t" by (simp add: cycle_inv_def)
  note I = sched_invD [OF S]
  have prio: "prio_of ?t y = p" if "y \<in> set (b # xs)" for y
  proof -
    have "y \<in> ready_set ?t" using that unfolding I(7) [symmetric] tick(3) .
    then obtain j where "y = int j" "j < task_count ?t" unfolding ready_set_def by blast
    then show ?thesis using tick(2) by (simp add: all_ready_def prio_of_def)
  qed
  have hd: "head_task ?t = Some b"
    unfolding head_task_def tick(3) by (rule first_max_const) (simp add: prio)
  obtain i where i: "b = int i" "i < task_count ?t"
    using head_task_Some [OF S hd] by metis
  have dist: "distinct (b # xs)" using I(6) tick(3) by simp
  have same: "c = i" if "continues b ?t = Some c" for c
  proof -
    note C = continuesD [OF S that]
    have "int c \<in> set (b # xs)" using C(2,3) I(7) tick(3) by simp
    then show "c = i"
      using tick(4) C(1,5) i(1) by (auto simp: turn_ended_def tick(3))
  qed
  then have ch: "chosen ?t = Some i"
    using hd i(1) by (auto simp: chosen_def split: option.split)
  obtain d where d: "scheduler_decide app ?t = run_task app (timer_now ?t) i d" "same_core i ?t d"
    "dispatchable i d"
    and how: "goes_on i ?t d \<or> current_task_index ?t \<noteq> int i \<and> switched_in (current_task_index ?t) i ?t d"
    using decide_runs [OF tick(1) ch] by metis
  obtain s' where r: "run_task app (timer_now ?t) i d = Inr s'"
    "task_list s' = (task_list d)[i := tcb_to TASK_READY BLOCK_NONE (tcb d i)]"
    "rq_list s' = remove1 (int i) (rq_list d) @ [int i]" "task_count s' = task_count d"
    "current_task_index s' = int i" "g_soft_timers s' = g_soft_timers d" "sched_inv s'"
    using run_passive [OF d(3) app] by metis
  have len: "length (task_list d) = 8" "i < 8" using d(2) I(3,4) i(2) by (simp_all add: same_core_def)
  have "scheduler_cycle app s = Inr s'"
    using quiet_tick [OF S tick(2)] d(1) r(1) by (simp add: scheduler_cycle_def)
  moreover have st: "state (tcb s' j) = TASK_READY \<and> priority (tcb s' j) = p" if "j < task_count s'" for j
  proof -
    have j: "j < task_count ?t" "j < length (task_list ?t)"
      using that r(4) d(2) I(3,4) by (simp_all add: same_core_def)
    then have "tcb_core (tcb d j) = tcb_core (tcb ?t j)" using d(2) by (simp add: same_core_def)
    with tcb_core_eqD(1,2) [OF this] j(1) tick(2) len show ?thesis
      by (cases "j = i") (simp_all add: r(2) all_ready_def)
  qed
  moreover have "all_ready p s'"
    using st tick(2) d(2) r(6) by (simp add: all_ready_def same_core_def)
  moreover have "cycle_inv s'" using st r(7) by (simp add: cycle_inv_def)
  moreover have rq: "rq_list s' = xs @ [b]"
    using r(3) d(2) i(1) tick(3) by (simp add: same_core_def)
  moreover have "turn_ended s'"
  proof (cases "xs = []")
    case True
    then show ?thesis using rq by (simp add: turn_ended_def)
  next
    case False
    then have "last xs \<noteq> b" using dist last_in_set [of xs] distinct.simps(2) [of b xs] by metis
    then have "current_task_index ?t \<noteq> int i"
      using tick(4) i(1) False by (auto simp: turn_ended_def tick(3) split: if_splits)
    then have "slice_ticks_used (tcb d i) = 1" using how by (simp add: goes_on_def switched_in_def)
    then show ?thesis using rq r(2,5) i(1) len by (simp add: turn_ended_def)
  qed
  ultimately show thesis using that r(5) i(1) by blast
qed

section \<open>Properties\<close>

text \<open>
  C4: One scheduling decision, whatever the application: if no task is READY the cycle idles and
  calls nobody; otherwise it calls the function of exactly one task, a READY one of the greatest
  priority among the READY tasks. A blocked or suspended task is never run. Up to that call the
  states of all tasks and the application's variables are as they were.
\<close>

theorem dispatch_highest_priority:
  assumes "cycle_inv s"
  shows "if \<forall>i<task_count s. state (tcb s i) \<noteq> TASK_READY
    then scheduler_decide app s = Inr (scheduler_idle (timer_now s) s)
    else \<exists>i d. i < task_count s \<and> state (tcb s i) = TASK_READY \<and>
      (\<forall>j<task_count s. state (tcb s j) = TASK_READY \<longrightarrow> priority (tcb s j) \<le> priority (tcb s i)) \<and>
      scheduler_decide app s = run_task app (timer_now s) i d \<and> current_task_index d = int i \<and>
      (\<forall>j<task_count s. state (tcb d j) = state (tcb s j)) \<and> kernel.more d = kernel.more s"
proof -
  have S: "sched_inv s" using assms by (simp add: cycle_inv_def)
  show ?thesis
  proof (cases "chosen s")
    case None
    then have "head_task s = None" by (auto simp: chosen_def split: option.splits)
    then have "\<forall>i<task_count s. state (tcb s i) \<noteq> TASK_READY" using head_task_None [OF S] by simp
    then show ?thesis using decide_idle [OF assms None] by simp
  next
    case (Some i)
    note C = chosenD [OF S Some]
    obtain d where d: "scheduler_decide app s = run_task app (timer_now s) i d" "same_core i s d"
      "dispatchable i d" using decide_runs [OF assms Some] by metis
    have st: "\<forall>j<task_count s. state (tcb d j) = state (tcb s j)"
    proof (intro allI impI)
      fix j
      assume "j < task_count s"
      then have "tcb_core (tcb d j) = tcb_core (tcb s j)"
        using d(2) sched_invD(3,4) [OF S] by (simp add: same_core_def)
      then show "state (tcb d j) = state (tcb s j)" by (rule tcb_core_eqD)
    qed
    have cur: "current_task_index d = int i" and more: "kernel.more d = kernel.more s"
      using d(2,3) by (simp_all add: same_core_def dispatchable_def)
    have best: "\<forall>j<task_count s. state (tcb s j) = TASK_READY \<longrightarrow> priority (tcb s j) \<le> priority (tcb s i)"
      using C(3) by blast
    have nr: "\<not> (\<forall>j<task_count s. state (tcb s j) \<noteq> TASK_READY)"
      using C(1,2) by blast
    show ?thesis
      unfolding if_not_P [OF nr]
      by (intro exI [of _ i] exI [of _ d] conjI C(1,2) best d(1) cur st more)
  qed
qed

text \<open>Three ready tasks, the second of the highest priority.\<close>

definition ready_tcb :: "nat \<Rightarrow> int \<Rightarrow> TCB" where
  "ready_tcb i p = zero_tcb\<lparr>task_id := int i + 1, task_function := 5, priority := p, stack_size := 256\<rparr>"

definition ready_example :: "int \<Rightarrow> int \<Rightarrow> int \<Rightarrow> nat kernel_scheme" where
  "ready_example p q r = (boot 4096 0)\<lparr>task_list := [ready_tcb 0 p, ready_tcb 1 q, ready_tcb 2 r]
       @ replicate 5 zero_tcb, task_count := 3, sched_bound := True, timer_bound := True,
     ready_queue := [0, 1, 2, 0, 0, 0, 0, 0], ready_count := 3\<rparr>"

lemma ready_example_fields [simp]:
  "task_count (ready_example p q r) = 3" "rq_list (ready_example p q r) = [0, 1, 2]"
  "current_task_index (ready_example p q r) = -1"
  "tcb (ready_example p q r) 0 = ready_tcb 0 p" "tcb (ready_example p q r) (Suc 0) = ready_tcb 1 q"
  "tcb (ready_example p q r) 2 = ready_tcb 2 r" "length (task_list (ready_example p q r)) = 8"
  "timer_now (ready_example p q r) = 0"
  "j < 8 \<Longrightarrow> g_soft_timers (ready_example p q r) ! j = zero_timer"
  by (simp_all add: ready_example_def rq_list_def boot_def timer_now_def)

lemma ready_tcb_fields [simp]:
  "state (ready_tcb i p) = TASK_READY" "priority (ready_tcb i p) = p" "tcb_ok i (ready_tcb i p)"
  by (simp_all add: ready_tcb_def tcb_ok_def zero_tcb_def int_range_defs
        RTOS_STACK_SIZE_def RTOS_STACK_WORDS_def)

lemma less_3: "i < (3 :: nat) \<longleftrightarrow> i = 0 \<or> i = Suc 0 \<or> i = 2"
  by auto

lemma cycle_inv_ready_example: "cycle_inv (ready_example p q r)"
proof -
  have r: "ready_set (ready_example p q r) = {0, 1, 2}"
    by (auto simp: ready_set_def less_3)
  have o: "tcb_ok i (tcb (ready_example p q r) i)" "state (tcb (ready_example p q r) i) = TASK_READY"
    if "i < 3" for i
    using that ready_tcb_fields(3) [of 1] by (auto simp: less_3)
  have "rq_wf (ready_example p q r)" "sched_bound (ready_example p q r)" "timer_bound (ready_example p q r)"
    by (simp_all add: ready_example_def rq_wf_def)
  then show ?thesis
    using o r by (simp add: cycle_inv_def sched_inv_def)
qed

theorem dispatch_highest_priority_witness:
  "\<forall>app. \<exists>d. scheduler_decide app (ready_example 1 7 3) = run_task app 0 1 d"
proof
  fix app :: "nat kernel_scheme app"
  have "0 < task_count (ready_example 1 7 3)" "state (tcb (ready_example 1 7 3) 0) = TASK_READY"
    by simp_all
  then have nr: "\<not> (\<forall>i<task_count (ready_example 1 7 3). state (tcb (ready_example 1 7 3) i) \<noteq> TASK_READY)"
    by blast
  from dispatch_highest_priority [OF cycle_inv_ready_example, of 1 7 3 app, unfolded if_not_P [OF nr]]
  obtain i d where i: "i < 3"
    "\<forall>j<3. state (tcb (ready_example 1 7 3) j) = TASK_READY \<longrightarrow>
       priority (tcb (ready_example 1 7 3) j) \<le> priority (tcb (ready_example 1 7 3) i)"
    "scheduler_decide app (ready_example 1 7 3) = run_task app 0 i d"
    unfolding ready_example_fields(1,8) by blast
  have "priority (tcb (ready_example 1 7 3) i) \<ge> 7" using i(2) by (simp add: less_3)
  then have "i = 1" using i(1) by (auto simp: less_3)
  with i(3) show "\<exists>d. scheduler_decide app (ready_example 1 7 3) = run_task app 0 1 d" by blast
qed

text \<open>
  C26: A decision that stays with the current task moves no context and counts its slice; one
  that moves to another task loads that task's saved context, saves the active one for the
  outgoing task and for nobody else, and starts the slice at 1.
\<close>

theorem dispatch_contexts:
  assumes "cycle_inv s" and "\<exists>i<task_count s. state (tcb s i) = TASK_READY"
  shows "\<exists>i d. scheduler_decide app s = run_task app (timer_now s) i d \<and>
    (if current_task_index s = int i
     then active_context d = active_context s \<and> (\<forall>j<8. cpu_context (tcb d j) = cpu_context (tcb s j)) \<and>
       slice_ticks_used (tcb d i) = slice_ticks_used (tcb s i) + 1
     else active_context d = cpu_context (tcb s i) \<and> slice_ticks_used (tcb d i) = 1 \<and>
       (\<forall>j<8. cpu_context (tcb d j) =
          (if int j = current_task_index s then active_context s else cpu_context (tcb s j))))"
proof -
  have S: "sched_inv s" using assms(1) by (simp add: cycle_inv_def)
  then have "chosen s \<noteq> None"
    using assms(2) head_task_None [OF S] by (auto simp: chosen_def split: option.splits)
  then obtain i where i: "chosen s = Some i" by blast
  note I = sched_invD [OF S] and C = chosenD [OF S i]
  obtain d where "scheduler_decide app s = run_task app (timer_now s) i d"
    "goes_on i s d \<or> current_task_index s \<noteq> int i \<and> switched_in (current_task_index s) i s d"
    using decide_runs [OF assms(1) i] by metis
  then show ?thesis
    using I(3,4) C(1) by (intro exI [of _ i] exI [of _ d]) (auto simp: goes_on_def switched_in_def)
qed

theorem dispatch_contexts_witness:
  "\<forall>app. \<exists>i d. scheduler_decide app (ready_example 1 7 3) = run_task app 0 i d \<and>
     slice_ticks_used (tcb d i) = 1"
proof
  fix app :: "nat kernel_scheme app"
  have "\<exists>i<task_count (ready_example 1 7 3). state (tcb (ready_example 1 7 3) i) = TASK_READY"
    by (rule exI [of _ 0]) simp
  from dispatch_contexts [OF cycle_inv_ready_example this, of app]
  obtain i d where d: "scheduler_decide app (ready_example 1 7 3) = run_task app 0 i d"
    "if current_task_index (ready_example 1 7 3) = int i then True else slice_ticks_used (tcb d i) = 1"
    unfolding ready_example_fields(8) by (metis (no_types, lifting))
  then show "\<exists>i d. scheduler_decide app (ready_example 1 7 3) = run_task app 0 i d \<and>
      slice_ticks_used (tcb d i) = 1" by auto
qed

text \<open>
  C5: Tasks of equal priority that stay ready share the processor round robin: over \<open>n\<close> ticks
  the ready queue rotates \<open>n\<close> times and the task run in the last tick is the one at position
  \<open>(n - 1) mod k\<close> of the initial queue of \<open>k\<close> tasks. So each runs exactly once in every \<open>k\<close>
  consecutive ticks.
\<close>

theorem round_robin:
  fixes s :: "'a kernel_scheme"
  assumes "cycle_inv s" and "all_ready p s" and "turn_ended s" and "passive_app app"
    and "rq_list s \<noteq> []"
  shows "returns (scheduler_run app (int n) s) (\<lambda>s'. rq_list s' = rotate n (rq_list s) \<and>
    (n > 0 \<longrightarrow> current_task_index s' = rq_list s ! ((n - 1) mod length (rq_list s))))"
proof -
  let ?P = "\<lambda>k (t :: 'a kernel_scheme). cycle_inv t \<and> all_ready p t \<and> turn_ended t \<and> rq_list t = rotate k (rq_list s) \<and>
    (k > 0 \<longrightarrow> current_task_index t = rq_list s ! ((k - 1) mod length (rq_list s)))"
  have "returns (for_range 0 n (\<lambda>_. scheduler_cycle app) s) (?P (0 + n))"
  proof (rule for_range_returns)
    show "?P 0 s" using assms by simp
  next
    fix k t
    assume P: "?P k t"
    then have "rq_list t \<noteq> []" using assms(5) by simp
    then obtain b xs where bx: "rq_list t = b # xs" by (cases "rq_list t") auto
    obtain t' where t': "scheduler_cycle app t = Inr t'" "cycle_inv t'" "all_ready p t'" "turn_ended t'"
      "rq_list t' = xs @ [b]" "current_task_index t' = b"
      using round_robin_cycle [of t p app b xs] P assms(4) bx by metis
    have "rotate (Suc k) (rq_list s) = rotate1 (rq_list t)" using P by simp
    then have "rotate (Suc k) (rq_list s) = xs @ [b]" using bx by simp
    moreover have "b = rq_list s ! (k mod length (rq_list s))"
      using bx P assms(5) by (metis hd_rotate_conv_nth list.sel(1))
    ultimately show "returns (scheduler_cycle app t) (?P (Suc k))"
      using t' by simp
  qed
  then show ?thesis by (simp add: scheduler_run_def) (elim returns_mono, simp)
qed

theorem round_robin_witness:
  "returns (scheduler_run \<lparr>app_task = (\<lambda>_ s. Inr (kernel.more_update Suc s)), app_callback = (\<lambda>_ _ s. Inr s)\<rparr>
     (int 5) (ready_example 4 4 4)) (\<lambda>s'. rq_list s' = [2, 0, 1] \<and> current_task_index s' = 1)"
proof -
  have a: "all_ready 4 (ready_example 4 4 4)"
    by (auto simp: all_ready_def less_3 zero_timer_def)
  have t: "turn_ended (ready_example 4 4 4)" by (simp add: turn_ended_def)
  have p: "passive_app \<lparr>app_task = (\<lambda>_ s. Inr (kernel.more_update Suc s)), app_callback = (\<lambda>_ _ s. Inr s)\<rparr>"
    by (auto simp: passive_app_def)
  have r: "rotate 5 (rq_list (ready_example 4 4 4)) = [2, 0, 1]" by (simp add: eval_nat_numeral)
  show ?thesis
    by (rule returns_mono [OF round_robin [OF cycle_inv_ready_example a t p, of 5]])
      (simp_all only: r, simp_all)
qed

end
