(* ===== verification/Kernel_Inv.thy ===== *)
theory Kernel_Inv
  imports Dispatch
begin

text \<open>
  The invariant of the whole kernel, and what every call of the public API keeps besides it:
  the relation \<open>kframe\<close>. An API call never moves the clock, the current index or a register,
  never changes the identity of a task, and never makes a task RUNNING. \<open>api_ok s s'\<close> joins the
  two; it is the contract each API operation is proved against.
\<close>

section \<open>The invariant\<close>

definition timer_ok :: "SoftTimer \<Rightarrow> bool" where
  "timer_ok t \<longleftrightarrow> (in_use t \<longrightarrow> callback t \<noteq> 0 \<and> period_ticks t \<noteq> 0)"

definition kernel_inv :: "'a kernel_scheme \<Rightarrow> bool" where
  "kernel_inv s \<longleftrightarrow> sched_inv s \<and>
     (\<forall>i<8. length (stack_memory (tcb s i)) = RTOS_STACK_WORDS) \<and>
     length (g_soft_timers s) = 8 \<and> (\<forall>i<8. timer_ok (g_soft_timers s ! i)) \<and>
     pool_inv (mem_pool s)"

lemma kernel_invD:
  assumes "kernel_inv s"
  shows "sched_inv s" "\<And>i. i < 8 \<Longrightarrow> length (stack_memory (tcb s i)) = RTOS_STACK_WORDS"
    "length (g_soft_timers s) = 8" "\<And>i. i < 8 \<Longrightarrow> timer_ok (g_soft_timers s ! i)"
    "pool_inv (mem_pool s)"
  using assms by (simp_all add: kernel_inv_def)

text \<open>Equal stacks, timers and pool carry the other parts over.\<close>

lemma kernel_invI:
  assumes "kernel_inv s" and "sched_inv t"
    and "\<And>i. i < 8 \<Longrightarrow> length (stack_memory (tcb t i)) = length (stack_memory (tcb s i))"
    and "g_soft_timers t = g_soft_timers s" and "mem_pool t = mem_pool s"
  shows "kernel_inv t"
  using assms by (simp add: kernel_inv_def)

section \<open>The frame\<close>

text \<open>A control block without its scheduling state.\<close>

definition tcb_fixed :: "TCB \<Rightarrow> TCB" where
  "tcb_fixed t = t\<lparr>state := TASK_READY, block_reason := BLOCK_NONE, sleep_ticks := 0\<rparr>"

lemma tcb_fixed_updates [simp]:
  "tcb_fixed (t\<lparr>state := st\<rparr>) = tcb_fixed t"
  "tcb_fixed (t\<lparr>block_reason := r\<rparr>) = tcb_fixed t"
  "tcb_fixed (t\<lparr>sleep_ticks := n\<rparr>) = tcb_fixed t"
  "tcb_fixed (tcb_to st r t) = tcb_fixed t"
  by (simp_all add: tcb_fixed_def tcb_to_def)

lemma tcb_fixed_eqD:
  assumes "tcb_fixed t = tcb_fixed u"
  shows "task_id t = task_id u" "priority t = priority u" "task_function t = task_function u"
    "task_name t = task_name u" "cpu_context t = cpu_context u"
    "slice_ticks_used t = slice_ticks_used u" "stack_memory t = stack_memory u"
    "stack_size t = stack_size u" "stack_pointer t = stack_pointer u"
  using assms by (cases t; cases u; simp add: tcb_fixed_def)+

definition kframe :: "'a kernel_scheme \<Rightarrow> 'a kernel_scheme \<Rightarrow> bool" where
  "kframe s t \<longleftrightarrow> current_task_index t = current_task_index s \<and> g_kernel_tick t = g_kernel_tick s \<and>
     active_context t = active_context s \<and> task_count s \<le> task_count t \<and>
     (\<forall>i<task_count s. tcb_fixed (tcb t i) = tcb_fixed (tcb s i)) \<and>
     (\<forall>i<task_count t. state (tcb t i) = TASK_RUNNING \<longrightarrow>
        i < task_count s \<and> state (tcb s i) = TASK_RUNNING)"

lemma kframe_refl: "kframe s s"
  by (simp add: kframe_def)

lemma kframe_trans:
  assumes "kframe s t" and "kframe t u"
  shows "kframe s u"
  using assms unfolding kframe_def by (metis (no_types, lifting) dual_order.trans order_less_le_trans)

definition api_ok :: "'a kernel_scheme \<Rightarrow> 'a kernel_scheme \<Rightarrow> bool" where
  "api_ok s t \<longleftrightarrow> kernel_inv t \<and> kframe s t"

lemma api_ok_refl: "kernel_inv s \<Longrightarrow> api_ok s s"
  by (simp add: api_ok_def kframe_refl)

lemma api_ok_trans: "api_ok s t \<Longrightarrow> (kernel_inv t \<Longrightarrow> api_ok t u) \<Longrightarrow> api_ok s u"
  using kframe_trans by (auto simp: api_ok_def)

section \<open>The building blocks of the operations\<close>

lemma kernel_inv_log [simp]: "kernel_inv (uart_log m s) = kernel_inv s"
  by (simp add: kernel_inv_def)

lemma kframe_log [simp]: "kframe s (uart_log m t) = kframe s t" "kframe (uart_log m s) t = kframe s t"
  by (simp_all add: kframe_def)

lemma api_ok_log [simp]: "api_ok s (uart_log m t) = api_ok s t" "api_ok (uart_log m s) t = api_ok s t"
  by (simp_all add: api_ok_def)

lemma nth_update_fixed:
  "tcb_fixed (f (tcb s k)) = tcb_fixed (tcb s k) \<Longrightarrow>
   tcb_fixed ((task_list s)[k := f (tcb s k)] ! i) = tcb_fixed (tcb s i)"
  by (cases "k < length (task_list s)"; cases "i = k") (simp_all add: list_update_beyond)

lemma api_ok_set_task_state:
  assumes inv: "kernel_inv s" and st: "st \<noteq> TASK_RUNNING" and r: "st = TASK_BLOCKED \<longleftrightarrow> r \<noteq> BLOCK_NONE"
  shows "api_ok s (scheduler_set_task_state i st r s)"
proof (cases "i < 0 \<or> int (task_count s) \<le> i")
  case True
  then show ?thesis using inv by (simp add: set_task_state_invalid api_ok_refl)
next
  case False
  then obtain k where k: "i = int k" "k < task_count s" by (rule task_index_cases)
  note I = sched_invD [OF kernel_invD(1) [OF inv]]
  let ?t = "scheduler_set_task_state i st r s"
  have tl: "task_list ?t = (task_list s)[k := tcb_to st r (tcb s k)]"
    using I k by (simp add: set_task_state_tcb)
  have fx: "tcb_fixed (tcb ?t j) = tcb_fixed (tcb s j)" for j
    unfolding tl by (rule nth_update_fixed) simp
  have "sched_inv ?t"
    using kernel_invD(1) [OF inv] st r by (intro sched_inv_set_task_state) simp_all
  then have "kernel_inv ?t"
    by (rule kernel_invI [OF inv]) (simp_all add: tcb_fixed_eqD(7) [OF fx])
  moreover have "state (tcb s j) = TASK_RUNNING"
    if "j < task_count s" "state (tcb ?t j) = TASK_RUNNING" for j
    using that st I k(2) by (cases "j = k") (simp_all add: tl)
  ultimately show ?thesis
    using fx by (simp add: api_ok_def kframe_def)
qed

lemma api_ok_set_current:
  "kernel_inv s \<Longrightarrow> st \<noteq> TASK_RUNNING \<Longrightarrow> st = TASK_BLOCKED \<longleftrightarrow> r \<noteq> BLOCK_NONE \<Longrightarrow>
   api_ok s (scheduler_set_current_task_state st r s)"
  by (simp add: scheduler_set_current_task_state_def api_ok_set_task_state api_ok_refl)

lemma api_ok_unblock_one:
  assumes "kernel_inv s"
  shows "returns (scheduler_unblock_one reason s) (api_ok s)"
proof -
  have "sched_bound s" using assms kernel_invD(1) sched_invD(1) by blast
  then show ?thesis
    using assms by (simp add: scheduler_unblock_one_eq Let_def api_ok_refl api_ok_set_task_state
        split: option.split)
qed

text \<open>Operations that touch no task, queue or index: the timers, the pool, the application.\<close>

lemma api_ok_outside:
  assumes "kernel_inv s" and "task_list t = task_list s" and "task_count t = task_count s"
    and "current_task_index t = current_task_index s" and "sched_bound t = sched_bound s"
    and "timer_bound t = timer_bound s" and "ready_queue t = ready_queue s"
    and "ready_count t = ready_count s" and "g_kernel_tick t = g_kernel_tick s"
    and "active_context t = active_context s" and "pool_inv (mem_pool t)"
    and "length (g_soft_timers t) = 8" and "\<And>i. i < 8 \<Longrightarrow> timer_ok (g_soft_timers t ! i)"
  shows "api_ok s t"
proof -
  have "sched_inv t"
    using kernel_invD(1) [OF assms(1)] sched_inv_cong [OF assms(2-8)] by simp
  then show ?thesis
    using assms by (simp add: api_ok_def kframe_def kernel_inv_def)
qed

lemma api_ok_more:
  assumes "kernel_inv s"
  shows "api_ok s (kernel.more_update g s)"
  by (rule api_ok_outside [OF assms]) (use kernel_invD [OF assms] in simp_all)

end
