(* ===== verification/Rtos_Core.thy ===== *)
theory Rtos_Core
  imports Kernel_Inv
begin

text \<open>
  Initialisation and task management of \<open>rtos.c\<close>, and the pool and timer operations as the
  application calls them. Every operation is shown to satisfy \<open>api_ok\<close>.
\<close>

section \<open>Operations\<close>

text \<open>The first task with the given id; -1 if there is none.\<close>

definition task_index_from_id :: "int \<Rightarrow> 'a kernel_scheme \<Rightarrow> int" where
  "task_index_from_id tid s =
     (case find (\<lambda>i. task_id (tcb s i) = tid) [0..<task_count s] of
        Some i \<Rightarrow> int i | None \<Rightarrow> -1)"

definition init_task_stack :: "TCB \<Rightarrow> TCB" where
  "init_task_stack task =
     (let t1 = loop_range 0 RTOS_STACK_WORDS
                 (\<lambda>i t. t\<lparr>stack_memory := (stack_memory t)[i := 0]\<rparr>) task
      in t1\<lparr>stack_size := 8 * RTOS_STACK_WORDS, stack_pointer := RTOS_STACK_WORDS\<rparr>)"

text \<open>The pool operations of \<open>memory.c\<close> on the pool of the kernel, with their output.\<close>

definition k_memory_init :: "'a kernel_scheme \<Rightarrow> 'a kernel_scheme" where
  "k_memory_init s =
     (let (m, p) = memory_init (mem_pool s) in uart_log (Pool m) (s\<lparr>mem_pool := p\<rparr>))"

definition k_memory_alloc :: "'a kernel_scheme \<Rightarrow> (int \<times> 'a kernel_scheme) res" where
  "k_memory_alloc s =
     bindr (memory_alloc (mem_pool s))
       (\<lambda>(q, m, p). Inr (q, uart_log (Pool m) (s\<lparr>mem_pool := p\<rparr>)))"

definition k_memory_free :: "int \<Rightarrow> 'a kernel_scheme \<Rightarrow> 'a kernel_scheme" where
  "k_memory_free ptr s =
     (let (m, p) = memory_free ptr (mem_pool s) in uart_log (Pool m) (s\<lparr>mem_pool := p\<rparr>))"

definition rtos_init :: "'a kernel_scheme \<Rightarrow> 'a kernel_scheme" where
  "rtos_init s = k_memory_init (scheduler_init (s\<lparr>task_count := 0, current_task_index := -1\<rparr>))"

text \<open>The control block \<open>rtos_create_task\<close> fills in, before its context.\<close>

definition new_tcb :: "nat \<Rightarrow> string \<Rightarrow> int \<Rightarrow> addr \<Rightarrow> TCB \<Rightarrow> TCB" where
  "new_tcb i nm prio f t =
     (init_task_stack (t\<lparr>task_id := int i + 1, priority := prio, state := TASK_SUSPENDED,
        block_reason := BLOCK_NONE, sleep_ticks := 0, slice_ticks_used := 0\<rparr>))
     \<lparr>task_function := f, task_name := nm\<rparr>"

definition rtos_create_task :: "string \<Rightarrow> int \<Rightarrow> addr \<Rightarrow> 'a kernel_scheme \<Rightarrow> int \<times> 'a kernel_scheme" where
  "rtos_create_task nm prio f s =
     (if task_count s \<ge> RTOS_MAX_TASKS then (-1, uart_log (Rtos LogTaskTableFull) s)
      else
        let i = task_count s;
            s1 = on_contexts (context_init (CtxObj i) f) (upd_tcb i (new_tcb i nm prio f) s);
            s2 = s1\<lparr>task_count := i + 1\<rparr>;
            s3 = scheduler_set_task_state (int (task_count s2) - 1) TASK_READY BLOCK_NONE s2;
            t = tcb s3 i
        in (task_id t, uart_log (Rtos (LogTaskCreated (task_name t) (priority t))) s3))"

definition rtos_run :: "'a kernel_scheme app \<Rightarrow> int \<Rightarrow> 'a kernel_scheme \<Rightarrow> 'a kernel_scheme res" where
  "rtos_run app max_ticks s = scheduler_run app max_ticks s"

definition rtos_task_sleep :: "int \<Rightarrow> 'a kernel_scheme \<Rightarrow> 'a kernel_scheme" where
  "rtos_task_sleep ticks s =
     (case rtos_current_task s of None \<Rightarrow> s
      | Some i \<Rightarrow> scheduler_set_current_task_state TASK_BLOCKED BLOCK_SLEEP
                   (upd_tcb i (\<lambda>t. t\<lparr>sleep_ticks := ticks\<rparr>) s))"

definition rtos_suspend_task :: "int \<Rightarrow> 'a kernel_scheme \<Rightarrow> bool \<times> 'a kernel_scheme" where
  "rtos_suspend_task tid s =
     (let i = task_index_from_id tid s in
      if i < 0 then (False, s)
      else let s1 = scheduler_set_task_state i TASK_SUSPENDED BLOCK_NONE s
           in (True, uart_log (Rtos (LogTaskSuspended (task_name (tcb s1 (nat i))))) s1))"

definition rtos_resume_task :: "int \<Rightarrow> 'a kernel_scheme \<Rightarrow> bool \<times> 'a kernel_scheme" where
  "rtos_resume_task tid s =
     (let i = task_index_from_id tid s in
      if i < 0 \<or> state (tcb s (nat i)) \<noteq> TASK_SUSPENDED then (False, s)
      else let s1 = scheduler_set_task_state i TASK_READY BLOCK_NONE s
           in (True, uart_log (Rtos (LogTaskResumed (task_name (tcb s1 (nat i))))) s1))"

definition rtos_get_task_state :: "int \<Rightarrow> 'a kernel_scheme \<Rightarrow> TaskState" where
  "rtos_get_task_state tid s =
     (let i = task_index_from_id tid s in if i < 0 then TASK_SUSPENDED else state (tcb s (nat i)))"

definition rtos_ready_count :: "'a kernel_scheme \<Rightarrow> nat" where
  "rtos_ready_count s = scheduler_ready_count s"

text \<open>
  The stack getters return pointers into a control block: its index, with the word offset for
  the stack pointer, or none for null.
\<close>

definition rtos_get_task_stack_base :: "int \<Rightarrow> 'a kernel_scheme \<Rightarrow> nat option" where
  "rtos_get_task_stack_base tid s =
     (let i = task_index_from_id tid s in if i < 0 then None else Some (nat i))"

definition rtos_get_task_stack_pointer :: "int \<Rightarrow> 'a kernel_scheme \<Rightarrow> (nat \<times> nat) option" where
  "rtos_get_task_stack_pointer tid s =
     (let i = task_index_from_id tid s
      in if i < 0 then None else Some (nat i, stack_pointer (tcb s (nat i))))"

definition rtos_get_task_stack_size :: "int \<Rightarrow> 'a kernel_scheme \<Rightarrow> nat" where
  "rtos_get_task_stack_size tid s =
     (let i = task_index_from_id tid s in if i < 0 then 0 else stack_size (tcb s (nat i)))"

section \<open>Looking tasks up\<close>

lemma task_index_cases_id:
  obtains (none) "task_index_from_id tid s = -1" "\<forall>i<task_count s. task_id (tcb s i) \<noteq> tid"
  | (found) i where "task_index_from_id tid s = int i" "i < task_count s" "task_id (tcb s i) = tid"
proof (cases "find (\<lambda>i. task_id (tcb s i) = tid) [0..<task_count s]")
  case None
  then show thesis by (intro none) (simp add: task_index_from_id_def, simp add: find_None_iff)
next
  case (Some i)
  then have "task_index_from_id tid s = int i" by (simp add: task_index_from_id_def)
  moreover have "i < task_count s" "task_id (tcb s i) = tid"
    using Some by (auto simp: find_Some_iff)
  ultimately show thesis by (rule found)
qed

text \<open>The id of a task is its index plus one, so the search inverts it.\<close>

lemma task_index_of_id:
  assumes inv: "sched_inv s"
  shows "task_index_from_id tid s = (if 1 \<le> tid \<and> tid \<le> int (task_count s) then tid - 1 else -1)"
proof (cases s tid rule: task_index_cases_id)
  case none
  have "\<not> (1 \<le> tid \<and> tid \<le> int (task_count s))"
  proof
    assume t: "1 \<le> tid \<and> tid \<le> int (task_count s)"
    then have "nat (tid - 1) < task_count s" by linarith
    moreover from this have "task_id (tcb s (nat (tid - 1))) = int (nat (tid - 1)) + 1"
      using sched_invD(10) [OF inv] by (simp add: tcb_ok_def)
    ultimately show False using none(2) t by simp
  qed
  then show ?thesis using none(1) by simp
next
  case (found i)
  then have "tid = int i + 1" using sched_invD(10) [OF inv found(2)] by (simp add: tcb_ok_def)
  then show ?thesis using found by simp
qed

section \<open>The stack and the control block of a new task\<close>

lemma zero_words_loop:
  assumes "length (stack_memory t) = k + n" and "take k (stack_memory t) = replicate k 0"
  shows "loop_range k n (\<lambda>i t. t\<lparr>stack_memory := (stack_memory t)[i := 0]\<rparr>) t =
    t\<lparr>stack_memory := replicate (k + n) 0\<rparr>"
  using assms
proof (induction n arbitrary: k t)
  case 0
  then show ?case by simp
next
  case (Suc n)
  then have "take (Suc k) ((stack_memory t)[k := 0]) = replicate (Suc k) 0"
    by (simp add: take_Suc_update flip: replicate_append_same)
  then show ?case using Suc.IH [of "t\<lparr>stack_memory := (stack_memory t)[k := 0]\<rparr>" "Suc k"] Suc.prems
    by simp
qed

lemma init_task_stack_eq:
  "length (stack_memory t) = RTOS_STACK_WORDS \<Longrightarrow>
   init_task_stack t = t\<lparr>stack_memory := replicate RTOS_STACK_WORDS 0, stack_size := RTOS_STACK_SIZE,
     stack_pointer := RTOS_STACK_WORDS\<rparr>"
  using zero_words_loop [of t 0 RTOS_STACK_WORDS]
  by (simp add: init_task_stack_def RTOS_STACK_WORDS_def RTOS_STACK_SIZE_def)

definition created_tcb :: "nat \<Rightarrow> string \<Rightarrow> int \<Rightarrow> addr \<Rightarrow> TCB" where
  "created_tcb i nm prio f = \<lparr>task_id = int i + 1, priority = prio, state = TASK_SUSPENDED,
     block_reason = BLOCK_NONE, sleep_ticks = 0, stack_memory = replicate RTOS_STACK_WORDS 0,
     stack_size = RTOS_STACK_SIZE, stack_pointer = RTOS_STACK_WORDS, cpu_context = init_regs f,
     task_function = f, task_name = nm, slice_ticks_used = 0\<rparr>"

lemma new_tcb_eq:
  "length (stack_memory t) = RTOS_STACK_WORDS \<Longrightarrow>
   (new_tcb i nm prio f t)\<lparr>cpu_context := init_regs f\<rparr> = created_tcb i nm prio f"
  by (simp add: new_tcb_def init_task_stack_eq created_tcb_def)

lemma tcb_ok_created: "f \<noteq> 0 \<Longrightarrow> tcb_ok i (created_tcb i nm prio f)"
  by (simp add: tcb_ok_def created_tcb_def int_range_defs)

text \<open>The state just before the new task becomes READY.\<close>

definition with_task :: "TCB \<Rightarrow> 'a kernel_scheme \<Rightarrow> 'a kernel_scheme" where
  "with_task t s = s\<lparr>task_list := (task_list s)[task_count s := t], task_count := task_count s + 1\<rparr>"

lemma create_eq_with_task:
  assumes "task_count s < 8" and "length (task_list s) = 8"
    and "length (stack_memory (tcb s (task_count s))) = RTOS_STACK_WORDS"
  shows "(on_contexts (context_init (CtxObj (task_count s)) f)
      (upd_tcb (task_count s) (new_tcb (task_count s) nm prio f) s))\<lparr>task_count := task_count s + 1\<rparr>
    = with_task (created_tcb (task_count s) nm prio f) s"
proof -
  let ?i = "task_count s"
  let ?u = "upd_tcb ?i (new_tcb ?i nm prio f) s"
  have tl: "map (\<lambda>j. (tcb ?u j)\<lparr>cpu_context := ((\<lambda>j. cpu_context (tcb ?u j))(?i := init_regs f)) j\<rparr>)
      [0..<length (task_list ?u)] = (task_list s)[?i := created_tcb ?i nm prio f]"
    using assms new_tcb_eq [OF assms(3)] by (intro nth_equalityI) (auto simp: nth_list_update)
  show ?thesis
    using tl by (simp add: on_contexts_def ctx_put_def ctx_view_def with_task_def upd_tcb_def)
qed

lemma sched_inv_with_task:
  assumes inv: "sched_inv s" and full: "task_count s < 8" and ok: "tcb_ok (task_count s) t"
    and st: "state t = TASK_SUSPENDED"
  shows "sched_inv (with_task t s)"
proof -
  note I = sched_invD [OF inv]
  let ?w = "with_task t s"
  have w: "task_count ?w = Suc (task_count s)" "rq_list ?w = rq_list s" "rq_wf ?w = rq_wf s"
    by (simp_all add: with_task_def rq_list_def rq_wf_def)
  have tcb: "tcb ?w j = (if j = task_count s then t else tcb s j)" if "j < Suc (task_count s)" for j
    using that full I(3) by (simp add: with_task_def)
  have "ready_set ?w = ready_set s"
    using tcb st w(1) by (auto simp: ready_set_def less_Suc_eq)
  moreover have "tcb_ok j (tcb ?w j)" if "j < Suc (task_count s)" for j
    using that ok I(10) tcb by (auto simp: less_Suc_eq)
  moreover have "current_task_index s = int j"
    if "j < Suc (task_count s)" "state (tcb ?w j) = TASK_RUNNING" for j
    using that st I(11) tcb by (auto simp: less_Suc_eq)
  ultimately show ?thesis
    unfolding sched_inv_def w using I full by (simp add: with_task_def)
qed

lemma create_ok_eq:
  assumes inv: "kernel_inv s" and full: "task_count s < 8"
  shows "rtos_create_task nm prio f s =
    (int (task_count s) + 1, uart_log (Rtos (LogTaskCreated nm prio))
      (scheduler_set_task_state (int (task_count s)) TASK_READY BLOCK_NONE
        (with_task (created_tcb (task_count s) nm prio f) s)))"
proof -
  note K = kernel_invD [OF inv] and I = sched_invD [OF kernel_invD(1) [OF inv]]
  let ?w = "with_task (created_tcb (task_count s) nm prio f) s"
  have "tcb (scheduler_set_task_state (int (task_count s)) TASK_READY BLOCK_NONE ?w) (task_count s) =
      tcb_to TASK_READY BLOCK_NONE (created_tcb (task_count s) nm prio f)"
    using I full by (simp add: set_task_state_tcb with_task_def)
  moreover have "task_count ?w = Suc (task_count s)" by (simp add: with_task_def)
  ultimately show ?thesis
    using full create_eq_with_task [OF full I(3) K(2) [OF full], of f nm prio]
    by (simp add: rtos_create_task_def Let_def created_tcb_def)
qed

section \<open>Every operation keeps the kernel's contract\<close>

lemma rtos_create_task_ok:
  assumes inv: "kernel_inv s" and f: "f \<noteq> 0"
  shows "api_ok s (snd (rtos_create_task nm prio f s))"
proof (cases "task_count s < 8")
  case False
  then show ?thesis using inv by (simp add: rtos_create_task_def api_ok_refl)
next
  case True
  note K = kernel_invD [OF inv] and I = sched_invD [OF kernel_invD(1) [OF inv]]
  let ?t = "created_tcb (task_count s) nm prio f"
  let ?w = "with_task ?t s"
  have sched: "sched_inv ?w"
    using True f by (intro sched_inv_with_task K(1) tcb_ok_created) (simp_all add: created_tcb_def)
  have "length (stack_memory (tcb ?w i)) = RTOS_STACK_WORDS" if "i < 8" for i
    using that K(2) I(3) by (cases "i = task_count s") (simp_all add: with_task_def created_tcb_def)
  then have "kernel_inv ?w"
    using sched K by (simp add: kernel_inv_def) (simp add: with_task_def)
  moreover have "kframe s ?w"
    using True I(3) by (auto simp: kframe_def with_task_def created_tcb_def nth_list_update
        less_Suc_eq split: if_splits)
  ultimately have "api_ok s ?w" by (simp add: api_ok_def)
  then have "api_ok s (scheduler_set_task_state (int (task_count s)) TASK_READY BLOCK_NONE ?w)"
    by (rule api_ok_trans) (simp add: api_ok_set_task_state)
  then show ?thesis by (simp add: create_ok_eq [OF inv True])
qed

lemma api_ok_sleep_ticks:
  assumes inv: "kernel_inv s" and n: "INT_MIN < n" "n \<le> INT_MAX" and i: "i < task_count s"
  shows "api_ok s (upd_tcb i (\<lambda>t. t\<lparr>sleep_ticks := n\<rparr>) s)"
proof -
  let ?t = "upd_tcb i (\<lambda>t. t\<lparr>sleep_ticks := n\<rparr>) s"
  note K = kernel_invD [OF inv]
  have fx: "tcb_fixed (tcb ?t j) = tcb_fixed (tcb s j)" for j
    unfolding upd_tcb_fields by (rule nth_update_fixed) simp
  have "sched_inv ?t"
    using sched_invD(10) [OF K(1) i] n by (intro sched_inv_upd_tcb K(1)) (simp add: tcb_ok_def)
  then have "kernel_inv ?t"
    by (rule kernel_invI [OF inv]) (simp_all add: tcb_fixed_eqD(7) [OF fx] del: upd_tcb_fields(1))
  moreover have "state (tcb ?t j) = state (tcb s j)" for j
    by (cases "j = i"; cases "i < length (task_list s)") (simp_all add: list_update_beyond)
  ultimately show ?thesis using fx by (simp add: api_ok_def kframe_def del: upd_tcb_fields(1))
qed

lemma rtos_task_sleep_ok:
  assumes inv: "kernel_inv s" and n: "INT_MIN < n" "n \<le> INT_MAX"
  shows "api_ok s (rtos_task_sleep n s)"
proof (cases "rtos_current_task s")
  case None
  then show ?thesis using inv by (simp add: rtos_task_sleep_def api_ok_refl)
next
  case (Some i)
  then have "i < task_count s" by (simp add: rtos_current_task_Some)
  from api_ok_sleep_ticks [OF inv n this]
  have "api_ok s (scheduler_set_current_task_state TASK_BLOCKED BLOCK_SLEEP
      (upd_tcb i (\<lambda>t. t\<lparr>sleep_ticks := n\<rparr>) s))"
    by (rule api_ok_trans) (rule api_ok_set_current, simp_all)
  then show ?thesis using Some by (simp add: rtos_task_sleep_def)
qed

lemma rtos_suspend_task_ok: "kernel_inv s \<Longrightarrow> api_ok s (snd (rtos_suspend_task tid s))"
  by (simp add: rtos_suspend_task_def Let_def api_ok_refl api_ok_set_task_state)

lemma rtos_resume_task_ok: "kernel_inv s \<Longrightarrow> api_ok s (snd (rtos_resume_task tid s))"
  by (simp add: rtos_resume_task_def Let_def api_ok_refl api_ok_set_task_state)

text \<open>The pool.\<close>

lemma api_ok_pool:
  assumes "kernel_inv s" and "pool_inv p"
  shows "api_ok s (s\<lparr>mem_pool := p\<rparr>)"
  by (rule api_ok_outside [OF assms(1)]) (use kernel_invD [OF assms(1)] assms(2) in simp_all)

lemma k_memory_alloc_ok:
  assumes "kernel_inv s"
  shows "returns (k_memory_alloc s) (\<lambda>(q, s'). api_ok s s')"
proof -
  obtain q m p where "memory_alloc (mem_pool s) = Inr (q, m, p)" "pool_inv p"
    using mp.alloc_total [OF kernel_invD(5) [OF assms]] by (auto elim: returnsE)
  then show ?thesis using assms by (simp add: k_memory_alloc_def api_ok_pool)
qed

lemma k_memory_free_ok: "kernel_inv s \<Longrightarrow> api_ok s (k_memory_free ptr s)"
  using memory_free_inv [OF kernel_invD(5), of s ptr]
  by (cases "memory_free ptr (mem_pool s)") (simp add: k_memory_free_def api_ok_pool)

text \<open>The software timers.\<close>

lemma api_ok_timers:
  assumes "kernel_inv s" and "length ts = 8" and "\<And>i. i < 8 \<Longrightarrow> timer_ok (ts ! i)"
  shows "api_ok s (s\<lparr>g_soft_timers := ts\<rparr>)"
  by (rule api_ok_outside [OF assms(1)]) (use kernel_invD [OF assms(1)] assms in simp_all)

lemma api_ok_upd_timer:
  assumes inv: "kernel_inv s" and f: "i < 8 \<Longrightarrow> timer_ok (f (g_soft_timers s ! i))"
  shows "api_ok s (upd_timer i f s)"
  unfolding upd_timer_def
proof (rule api_ok_timers [OF inv])
  fix j :: nat
  assume "j < 8"
  then show "timer_ok ((g_soft_timers s)[i := f (g_soft_timers s ! i)] ! j)"
    using kernel_invD(3,4) [OF inv] f by (cases "j = i") simp_all
qed (use kernel_invD [OF inv] in simp)

lemma create_scan_ok:
  assumes "kernel_inv s" and "timer_ok new"
  shows "api_ok s (snd (create_scan n i new s))"
  by (induction n arbitrary: i) (simp_all add: assms api_ok_refl api_ok_upd_timer)

lemma timer_soft_create_ok: "kernel_inv s \<Longrightarrow> api_ok s (snd (timer_soft_create nm md period cb arg s))"
  by (simp add: timer_soft_create_def api_ok_refl create_scan_ok timer_ok_def)

lemma timer_soft_start_ok:
  "kernel_inv s \<Longrightarrow> timer_soft_start h s = Inr s' \<Longrightarrow> api_ok s s'"
  by (auto simp: timer_soft_start_def Let_def api_ok_refl timer_ok_def kernel_inv_def
      split: option.splits if_splits intro!: api_ok_upd_timer)

lemma timer_soft_stop_ok:
  "kernel_inv s \<Longrightarrow> timer_soft_stop h s = Inr s' \<Longrightarrow> api_ok s s'"
  by (auto simp: timer_soft_stop_def Let_def api_ok_refl timer_ok_def kernel_inv_def
      split: option.splits if_splits intro!: api_ok_upd_timer)

lemma timer_soft_delete_ok:
  "kernel_inv s \<Longrightarrow> timer_soft_delete h s = Inr s' \<Longrightarrow> api_ok s s'"
  by (auto simp: timer_soft_delete_def Let_def api_ok_refl timer_ok_def kernel_inv_def
      split: option.splits if_splits intro!: api_ok_upd_timer)

section \<open>Initialisation\<close>

text \<open>What the C declarations fix about the static variables.\<close>

definition statics_shape :: "'a kernel_scheme \<Rightarrow> bool" where
  "statics_shape s \<longleftrightarrow> length (task_list s) = 8 \<and>
     (\<forall>i<8. length (stack_memory (tcb s i)) = RTOS_STACK_WORDS) \<and>
     length (ready_queue s) = 8 \<and> pool_shape (mem_pool s)"

lemma statics_shape_boot: "0 < base \<Longrightarrow> statics_shape (boot base app)"
  by (simp add: statics_shape_def boot_def zero_tcb_def)

lemma rtos_init_inv:
  assumes "statics_shape s"
  shows "kernel_inv (rtos_init s)"
proof -
  let ?z = "scheduler_init (s\<lparr>task_count := 0, current_task_index := -1\<rparr>)"
  obtain m p where p: "memory_init (mem_pool s) = (m, p)" by fastforce
  then have "pool_inv p" using memory_init_inv [of "mem_pool s"] assms by (simp add: statics_shape_def)
  moreover have "sched_inv (?z\<lparr>mem_pool := p\<rparr>)"
    using assms by (simp add: sched_inv_def scheduler_init_def timer_init_def rq_wf_def rq_list_def
        ready_set_def statics_shape_def)
  moreover have "timer_ok zero_timer" by (simp add: timer_ok_def zero_timer_def)
  ultimately have "kernel_inv (?z\<lparr>mem_pool := p\<rparr>)"
    using assms by (simp add: kernel_inv_def scheduler_init_def timer_init_def statics_shape_def)
  moreover have "mem_pool ?z = mem_pool s" by (simp add: scheduler_init_def timer_init_def)
  ultimately show ?thesis by (simp add: rtos_init_def k_memory_init_def p)
qed

section \<open>Properties\<close>

text \<open>
  C27: \<open>rtos_init\<close> establishes the kernel invariant from any contents of the static variables:
  no task, an empty ready queue, no current task, time zero, every pool block free and every
  software timer unclaimed.
\<close>

theorem rtos_init_establishes:
  assumes "statics_shape s"
  shows "kernel_inv (rtos_init s) \<and> task_count (rtos_init s) = 0 \<and> rtos_ready_count (rtos_init s) = 0 \<and>
    rtos_current_task (rtos_init s) = None \<and> timer_now (rtos_init s) = 0 \<and>
    memory_available_blocks (mem_pool (rtos_init s)) = 16 \<and> live_blocks (mem_pool (rtos_init s)) = {} \<and>
    (\<forall>i<8. \<not> in_use (g_soft_timers (rtos_init s) ! i))"
proof -
  obtain m p where p: "memory_init (mem_pool s) = (m, p)" by fastforce
  then have avail: "memory_available_blocks p = 16"
    by (auto simp: memory_init_def memory_available_blocks_def Let_def RTOS_POOL_BLOCK_COUNT_def)
  have inv: "pool_inv p" using memory_init_inv [of "mem_pool s"] assms p by (simp add: statics_shape_def)
  then have "card (live_blocks p) = 0" using pool_inv_available avail by fastforce
  then have "live_blocks p = {}" by (simp add: live_blocks_def)
  moreover have "\<not> in_use zero_timer" by (simp add: zero_timer_def)
  ultimately show ?thesis
    using rtos_init_inv [OF assms] p avail
    by (simp add: rtos_init_def k_memory_init_def scheduler_init_def timer_init_def timer_now_def
        rtos_ready_count_def scheduler_ready_count_def rtos_current_task_def)
qed

theorem rtos_init_establishes_witness:
  "kernel_inv (rtos_init (boot 4096 ())) \<and> memory_available_blocks (mem_pool (rtos_init (boot 4096 ()))) = 16"
  using rtos_init_establishes [OF statics_shape_boot, of 4096 "()"] by simp

text \<open>
  C28: \<open>rtos_create_task\<close> fails with -1, changing nothing but the output, exactly when eight
  tasks exist; otherwise it returns the index plus one, the new control block holds the given
  name, priority and function with a cleared stack and the initial context, the task is READY,
  no other task is touched, and if its function is not null it stands at the tail of the ready queue.
\<close>

theorem create_task_spec:
  assumes "kernel_inv s"
  shows "if task_count s = 8
    then rtos_create_task nm prio f s = (-1, uart_log (Rtos LogTaskTableFull) s)
    else \<exists>s'. rtos_create_task nm prio f s = (int (task_count s) + 1, s') \<and>
      task_count s' = task_count s + 1 \<and>
      tcb s' (task_count s) = \<lparr>task_id = int (task_count s) + 1, priority = prio, state = TASK_READY,
        block_reason = BLOCK_NONE, sleep_ticks = 0, stack_memory = replicate 32 0, stack_size = 256,
        stack_pointer = 32, cpu_context = init_regs f, task_function = f, task_name = nm,
        slice_ticks_used = 0\<rparr> \<and>
      (\<forall>i<task_count s. tcb s' i = tcb s i) \<and>
      (f \<noteq> 0 \<longrightarrow> rq_list s' = rq_list s @ [int (task_count s)])"
proof (cases "task_count s < 8")
  case False
  then show ?thesis
    using sched_invD(4) [OF kernel_invD(1) [OF assms]] by (simp add: rtos_create_task_def)
next
  case True
  note K = kernel_invD [OF assms] and I = sched_invD [OF kernel_invD(1) [OF assms]]
  let ?c = "created_tcb (task_count s) nm prio f"
  let ?w = "with_task ?c s"
  let ?r = "scheduler_set_task_state (int (task_count s)) TASK_READY BLOCK_NONE ?w"
  have w: "task_count ?w = Suc (task_count s)" "task_list ?w = (task_list s)[task_count s := ?c]"
    "sched_bound ?w" "rq_list ?w = rq_list s"
    using I by (simp_all add: with_task_def rq_list_def)
  have tl: "task_list ?r = (task_list s)[task_count s := tcb_to TASK_READY BLOCK_NONE ?c]"
    using I True w by (simp add: set_task_state_tcb)
  have "rq_list ?r = rq_list s @ [int (task_count s)]" if "f \<noteq> 0"
  proof -
    have "sched_inv ?w"
      using True that by (intro sched_inv_with_task K(1) tcb_ok_created) (simp_all add: created_tcb_def)
    moreover have "int (task_count s) \<notin> set (rq_list s)" using I(7) by simp
    ultimately show ?thesis
      using w by (simp add: set_task_state_rq remove1_idem)
  qed
  then show ?thesis
    using True I(3) w(1) tl by (simp add: create_ok_eq [OF assms True] created_tcb_def tcb_to_def
        RTOS_STACK_WORDS_def RTOS_STACK_SIZE_def)
qed

text \<open>A kernel with two tasks.\<close>

definition two_tasks :: kernel where
  "two_tasks = snd (rtos_create_task ''B'' 1 9 (snd (rtos_create_task ''A'' 2 7 (rtos_init (boot 4096 ())))))"

lemma kernel_inv_two_tasks: "kernel_inv two_tasks" "task_count two_tasks = 2"
    "current_task_index two_tasks = -1" "priority (tcb two_tasks 0) = 2" "priority (tcb two_tasks 1) = 1"
proof -
  let ?s0 = "rtos_init (boot 4096 ())"
  let ?s1 = "snd (rtos_create_task ''A'' 2 7 ?s0)"
  have k0: "kernel_inv ?s0" by (intro rtos_init_inv statics_shape_boot) simp
  have c0: "task_count ?s0 = 0"
    by (simp add: rtos_init_def k_memory_init_def scheduler_init_def timer_init_def split: prod.split)
  have i0: "current_task_index ?s0 = -1"
    by (simp add: rtos_init_def k_memory_init_def scheduler_init_def timer_init_def split: prod.split)
  have k1: "kernel_inv ?s1" using rtos_create_task_ok [OF k0, of 7] by (simp add: api_ok_def)
  have c1: "task_count ?s1 = 1" by (simp add: create_ok_eq k0 c0 with_task_def)
  have l: "length (task_list ?s0) = 8" "length (task_list ?s1) = 8" "sched_bound ?s0" "sched_bound ?s1"
    using sched_invD(1,3) [OF kernel_invD(1) [OF k0]] sched_invD(1,3) [OF kernel_invD(1) [OF k1]] by simp_all
  have t1: "priority (tcb ?s1 0) = 2" "current_task_index ?s1 = -1"
    using l by (simp_all add: create_ok_eq k0 c0 i0 with_task_def set_task_state_tcb created_tcb_def)
  have "tcb two_tasks 0 = tcb ?s1 0" "priority (tcb two_tasks 1) = 1" "current_task_index two_tasks = -1"
    unfolding two_tasks_def using l
    by (simp_all add: create_ok_eq [OF k1] c1 t1 with_task_def set_task_state_tcb created_tcb_def)
  with t1 show "current_task_index two_tasks = -1" "priority (tcb two_tasks 0) = 2"
    "priority (tcb two_tasks 1) = 1" by simp_all
  show "kernel_inv two_tasks"
    using rtos_create_task_ok [OF k1, of 9] by (simp add: api_ok_def two_tasks_def)
  show "task_count two_tasks = 2"
    unfolding two_tasks_def by (simp add: create_ok_eq [OF k1] c1) (simp add: with_task_def c1)
qed

theorem create_task_spec_witness:
  "fst (rtos_create_task ''C'' 5 11 two_tasks) = 3"
  using create_task_spec [OF kernel_inv_two_tasks(1), of "''C''" 5 11] kernel_inv_two_tasks(2)
  by auto

text \<open>
  \<open>rtos_suspend_task\<close> accepts exactly the ids handed out so far; the task is then SUSPENDED
  and off the ready queue, whatever it was doing, and no other task changes. An unknown id
  changes nothing.
\<close>

lemma suspend_task_spec:
  assumes "kernel_inv s" and "rtos_suspend_task tid s = (ok, s')"
  shows "(ok \<longleftrightarrow> 1 \<le> tid \<and> tid \<le> int (task_count s)) \<and>
    (if ok then rtos_get_task_state tid s' = TASK_SUSPENDED \<and> rq_list s' = remove1 (tid - 1) (rq_list s) \<and>
       (\<forall>j<task_count s. int j \<noteq> tid - 1 \<longrightarrow> tcb s' j = tcb s j)
     else s' = s)"
proof -
  note I = sched_invD [OF kernel_invD(1) [OF assms(1)]]
  have idx: "task_index_from_id tid s = (if 1 \<le> tid \<and> tid \<le> int (task_count s) then tid - 1 else -1)"
    by (rule task_index_of_id) (rule kernel_invD(1) [OF assms(1)])
  show ?thesis
  proof (cases "1 \<le> tid \<and> tid \<le> int (task_count s)")
    case False
    then show ?thesis using assms(2) idx by (auto simp: rtos_suspend_task_def)
  next
    case True
    then obtain k where k: "tid - 1 = int k" "k < task_count s"
      using task_index_cases [of "tid - 1" "task_count s"] by force
    let ?t = "scheduler_set_task_state (int k) TASK_SUSPENDED BLOCK_NONE s"
    obtain m where s': "s' = uart_log m ?t" and ok
      using assms(2) idx True k(1) by (auto simp: rtos_suspend_task_def Let_def)
    have tl: "task_list s' = (task_list s)[k := tcb_to TASK_SUSPENDED BLOCK_NONE (tcb s k)]"
      using I k(2) by (simp add: s' set_task_state_tcb)
    have "sched_inv s'"
      unfolding s' sched_inv_log by (intro sched_inv_set_task_state kernel_invD(1) [OF assms(1)]) simp_all
    then have "task_index_from_id tid s' = int k"
      using task_index_of_id [of s' tid] True k(1) by (simp add: s')
    then have "rtos_get_task_state tid s' = TASK_SUSPENDED"
      using k(2) I by (simp add: rtos_get_task_state_def tl)
    moreover have "rq_list s' = remove1 (int k) (rq_list s)"
      using set_task_state_rq(1) [OF kernel_invD(1) [OF assms(1)] k(2)] by (simp add: s')
    ultimately show ?thesis
      using True \<open>ok\<close> k tl by simp
  qed
qed

text \<open>
  \<open>rtos_resume_task\<close> acts exactly on a suspended task: it becomes READY at the tail of the
  ready queue with no block reason, and no other task changes. On any other id or state it
  returns false and changes nothing.
\<close>

lemma resume_task_spec:
  assumes "kernel_inv s" and "rtos_resume_task tid s = (ok, s')"
  shows "(ok \<longleftrightarrow> 1 \<le> tid \<and> tid \<le> int (task_count s) \<and> rtos_get_task_state tid s = TASK_SUSPENDED) \<and>
    (if ok then rtos_get_task_state tid s' = TASK_READY \<and> rq_list s' = rq_list s @ [tid - 1] \<and>
       block_reason (tcb s' (nat (tid - 1))) = BLOCK_NONE \<and>
       (\<forall>j<task_count s. int j \<noteq> tid - 1 \<longrightarrow> tcb s' j = tcb s j)
     else s' = s)"
proof -
  note I = sched_invD [OF kernel_invD(1) [OF assms(1)]]
  have idx: "task_index_from_id tid s = (if 1 \<le> tid \<and> tid \<le> int (task_count s) then tid - 1 else -1)"
    by (rule task_index_of_id) (rule kernel_invD(1) [OF assms(1)])
  show ?thesis
  proof (cases "1 \<le> tid \<and> tid \<le> int (task_count s) \<and> rtos_get_task_state tid s = TASK_SUSPENDED")
    case False
    then show ?thesis
      using assms(2) idx by (auto simp: rtos_resume_task_def rtos_get_task_state_def split: if_splits)
  next
    case True
    then obtain k where k: "tid - 1 = int k" "k < task_count s"
      using task_index_cases [of "tid - 1" "task_count s"] by force
    have st: "state (tcb s k) = TASK_SUSPENDED"
      using True idx k(1) by (auto simp: rtos_get_task_state_def Let_def split: if_splits)
    let ?t = "scheduler_set_task_state (int k) TASK_READY BLOCK_NONE s"
    obtain m where s': "s' = uart_log m ?t" and ok
      using assms(2) idx True k(1) st by (auto simp: rtos_resume_task_def Let_def)
    have tl: "task_list s' = (task_list s)[k := tcb_to TASK_READY BLOCK_NONE (tcb s k)]"
      using I k(2) by (simp add: s' set_task_state_tcb)
    have "sched_inv s'"
      unfolding s' sched_inv_log by (intro sched_inv_set_task_state kernel_invD(1) [OF assms(1)]) simp_all
    then have "task_index_from_id tid s' = int k"
      using task_index_of_id [of s' tid] True k(1) by (simp add: s')
    then have "rtos_get_task_state tid s' = TASK_READY"
      using k(2) I by (simp add: rtos_get_task_state_def tl)
    moreover have "int k \<notin> set (rq_list s)" using I(7) st by simp
    then have "rq_list s' = rq_list s @ [int k]"
      using set_task_state_rq(1) [OF kernel_invD(1) [OF assms(1)] k(2)] by (simp add: s' remove1_idem)
    ultimately show ?thesis
      using True \<open>ok\<close> k tl I by simp
  qed
qed

text \<open>
  C22: A task that calls \<open>rtos_task_sleep\<close> for \<open>n\<close> ticks, no software timer being armed, is
  blocked, off the ready queue and counted down through the next \<open>n - 1\<close> ticks, and READY with
  no block reason from the \<open>n\<close>-th on; 0 and negative counts wake at the first tick. No tick
  faults.
\<close>

theorem sleep_wakes_on_time:
  fixes s :: "'a kernel_scheme"
  assumes "kernel_inv s" and "rtos_current_task s = Some i" and "INT_MIN < n" and "n \<le> INT_MAX"
    and "\<forall>j<8. \<not> active (g_soft_timers s ! j)"
  shows "returns (for_range 0 k (\<lambda>_. timer_update_sleep app) (rtos_task_sleep n s)) (\<lambda>s'.
    if int k < max n 1
    then state (tcb s' i) = TASK_BLOCKED \<and> block_reason (tcb s' i) = BLOCK_SLEEP \<and>
      sleep_ticks (tcb s' i) = n - int k \<and> int i \<notin> set (rq_list s')
    else state (tcb s' i) = TASK_READY \<and> block_reason (tcb s' i) = BLOCK_NONE \<and> int i \<in> set (rq_list s'))"
proof -
  let ?z = "rtos_task_sleep n s"
  let ?asleep = "\<lambda>k t. state t = TASK_BLOCKED \<and> block_reason t = BLOCK_SLEEP \<and> sleep_ticks t = n - int k"
  let ?awake = "\<lambda>t. state t = TASK_READY \<and> block_reason t = BLOCK_NONE"
  let ?P = "\<lambda>k (t :: 'a kernel_scheme). sched_inv t \<and> task_count t = task_count s \<and> g_soft_timers t = g_soft_timers s \<and>
    (if int k < max n 1 then ?asleep k (tcb t i) else ?awake (tcb t i))"
  have i: "i < task_count s" and cur: "current_task_index s = int i"
    using assms(2) by (simp_all add: rtos_current_task_Some)
  note I = sched_invD [OF kernel_invD(1) [OF assms(1)]]
  have z: "task_list ?z = (task_list s)[i := tcb_to TASK_BLOCKED BLOCK_SLEEP ((tcb s i)\<lparr>sleep_ticks := n\<rparr>)]"
    using I i cur assms(2)
    by (simp add: rtos_task_sleep_def scheduler_set_current_task_state_def set_task_state_tcb)
  have "returns (for_range 0 k (\<lambda>_. timer_update_sleep app) ?z) (?P (0 + k))"
  proof (rule for_range_returns)
    have "sched_inv ?z" using rtos_task_sleep_ok [OF assms(1,3,4)] by (simp add: api_ok_def kernel_invD)
    moreover have "task_count ?z = task_count s" "g_soft_timers ?z = g_soft_timers s"
      by (simp_all add: rtos_task_sleep_def split: option.split)
    ultimately show "?P 0 ?z" using z i I(3,4) by simp
  next
    fix m t
    assume P: "?P m t"
    then have t: "sched_inv t" "task_count t = task_count s" "g_soft_timers t = g_soft_timers s"
      and it: "if int m < max n 1 then ?asleep m (tcb t i) else ?awake (tcb t i)" by simp_all
    have "\<forall>j<8. \<not> active (g_soft_timers t ! j)" using assms(5) t(3) by simp
    then show "returns (timer_update_sleep app t) (?P (Suc m))"
    proof (rule returns_mono [OF update_sleep_idle [OF t(1)]], goal_cases)
      case (1 u)
      then have "tcb u i = sleep_tcb (tcb t i)" using i t(2) by simp
      moreover have "if int (Suc m) < max n 1 then ?asleep (Suc m) (sleep_tcb (tcb t i)) else ?awake (sleep_tcb (tcb t i))"
        using it by (auto simp: sleep_tcb_def sleeping_def max_def split: if_splits)
      ultimately show ?case using 1 t by (simp add: sleep_frame_def)
    qed
  qed
  then show ?thesis
  proof (rule returns_mono, goal_cases)
    case (1 u)
    then have "set (rq_list u) = ready_set u" by (simp add: sched_inv_def)
    then have "int i \<in> set (rq_list u) \<longleftrightarrow> state (tcb u i) = TASK_READY" using 1 i by simp
    then show ?case using 1 by (simp split: if_splits)
  qed
qed

theorem sleep_wakes_on_time_witness:
  "returns (for_range 0 3 (\<lambda>_. timer_update_sleep \<lparr>app_task = (\<lambda>_ s. Inr s), app_callback = (\<lambda>_ _ s. Inr s)\<rparr>)
     (rtos_task_sleep 3 (two_tasks\<lparr>current_task_index := 0\<rparr>))) (\<lambda>s'. state (tcb s' 0) = TASK_READY)"
proof -
  let ?s = "two_tasks\<lparr>current_task_index := 0\<rparr>"
  have k: "kernel_inv ?s" "rtos_current_task ?s = Some 0"
    using kernel_inv_two_tasks(1-3)
    by (auto simp: kernel_inv_def sched_inv_def rq_wf_def rq_list_def ready_set_def rtos_current_task_def)
  have "g_soft_timers two_tasks = replicate 8 zero_timer"
    unfolding two_tasks_def
    by (simp add: rtos_create_task_def Let_def rtos_init_def k_memory_init_def scheduler_init_def
        timer_init_def split: prod.split)
  then have "\<forall>j<8. \<not> active (g_soft_timers ?s ! j)" by (simp add: zero_timer_def)
  then show ?thesis
    by (intro returns_mono [OF sleep_wakes_on_time [OF k]]) (simp_all add: int_range_defs)
qed

end
