(* ===== verification/Sync.thy ===== *)
theory Sync
  imports Rtos_Core
begin

text \<open>
  The synchronisation objects of \<open>rtos.c\<close>: counting semaphores, mutexes and message queues.
  An operation takes the object and the kernel and returns both updated. Every one of them
  reads the current task through a pointer nobody checks, so without a current task it faults;
  an increment that leaves the range of \<open>int\<close> and an index outside the buffer fault too.
\<close>

section \<open>Objects\<close>

record Semaphore =
  sem_count :: int

record Mutex =
  locked :: bool
  owner :: int

record MessageQueue =
  buffer :: "int list"
  front :: int
  rear :: int
  mq_count :: int

definition semaphore_init :: "int \<Rightarrow> Semaphore \<Rightarrow> Semaphore" where
  "semaphore_init initial_count sem = sem\<lparr>sem_count := initial_count\<rparr>"

definition mutex_init :: "Mutex \<Rightarrow> Mutex" where
  "mutex_init mutex = mutex\<lparr>locked := False, owner := -1\<rparr>"

definition queue_init :: "MessageQueue \<Rightarrow> MessageQueue" where
  "queue_init queue = queue\<lparr>front := 0, rear := 0, mq_count := 0\<rparr>"

section \<open>Operations\<close>

text \<open>What the code does with \<open>task\<close>: a dereference of the pointer to the current task.\<close>

definition deref_current :: "'a kernel_scheme \<Rightarrow> (nat \<Rightarrow> 'b res) \<Rightarrow> 'b res" where
  "deref_current s f = (case rtos_current_task s of None \<Rightarrow> Inl NullDeref | Some i \<Rightarrow> f i)"

definition rtos_sem_wait :: "Semaphore \<Rightarrow> 'a kernel_scheme \<Rightarrow> (bool \<times> Semaphore \<times> 'a kernel_scheme) res" where
  "rtos_sem_wait sem s =
     (if sem_count sem > 0 then
        let sem' = sem\<lparr>sem_count := sem_count sem - 1\<rparr>
        in deref_current s (\<lambda>i. Inr (True, sem',
             uart_log (Rtos (LogSemAcquired (task_name (tcb s i)) (sem_count sem'))) s))
      else
        let s1 = scheduler_set_current_task_state TASK_BLOCKED BLOCK_SEMAPHORE s
        in deref_current s (\<lambda>i. Inr (False, sem, uart_log (Rtos (LogSemWaiting (task_name (tcb s1 i)))) s1)))"

definition rtos_sem_signal :: "Semaphore \<Rightarrow> 'a kernel_scheme \<Rightarrow> (Semaphore \<times> 'a kernel_scheme) res" where
  "rtos_sem_signal sem s =
     bindr (c_int (sem_count sem + 1))
       (\<lambda>n. let sem' = sem\<lparr>sem_count := n\<rparr>
            in bindr (scheduler_unblock_one BLOCK_SEMAPHORE (uart_log (Rtos (LogSemReleased n)) s))
                 (\<lambda>s'. Inr (sem', s')))"

definition rtos_mutex_lock :: "Mutex \<Rightarrow> 'a kernel_scheme \<Rightarrow> (bool \<times> Mutex \<times> 'a kernel_scheme) res" where
  "rtos_mutex_lock mutex s =
     deref_current s (\<lambda>i.
       if \<not> locked mutex then
         let mutex' = mutex\<lparr>locked := True, owner := task_id (tcb s i)\<rparr>
         in Inr (True, mutex', uart_log (Rtos (LogMutexLocked (task_name (tcb s i)))) s)
       else if owner mutex = task_id (tcb s i) then Inr (True, mutex, s)
       else
         let s1 = scheduler_set_current_task_state TASK_BLOCKED BLOCK_MUTEX s
         in Inr (False, mutex, uart_log (Rtos (LogMutexWaiting (task_name (tcb s1 i)))) s1))"

definition rtos_mutex_unlock :: "Mutex \<Rightarrow> 'a kernel_scheme \<Rightarrow> (Mutex \<times> 'a kernel_scheme) res" where
  "rtos_mutex_unlock mutex s =
     deref_current s (\<lambda>i.
       if \<not> locked mutex \<or> owner mutex \<noteq> task_id (tcb s i) then
         Inr (mutex, uart_log (Rtos (LogMutexUnlockIgnored (task_name (tcb s i)))) s)
       else
         let mutex' = mutex\<lparr>locked := False, owner := -1\<rparr>
         in bindr (scheduler_unblock_one BLOCK_MUTEX
                     (uart_log (Rtos (LogMutexReleased (task_name (tcb s i)))) s))
              (\<lambda>s'. Inr (mutex', s')))"

text \<open>The four lines of \<open>rtos_queue_send\<close> and \<open>rtos_queue_receive\<close> that move a value.\<close>

definition mq_put :: "int \<Rightarrow> MessageQueue \<Rightarrow> MessageQueue res" where
  "mq_put value queue =
     (if rear queue < 0 \<or> rear queue \<ge> int (length (buffer queue)) then Inl OutOfBounds
      else bindr (c_int (mq_count queue + 1))
        (\<lambda>n. Inr (queue\<lparr>buffer := (buffer queue)[nat (rear queue) := value],
                       rear := (rear queue + 1) mod int RTOS_QUEUE_SIZE, mq_count := n\<rparr>)))"

definition mq_take :: "MessageQueue \<Rightarrow> (int \<times> MessageQueue) res" where
  "mq_take queue =
     (if front queue < 0 \<or> front queue \<ge> int (length (buffer queue)) then Inl OutOfBounds
      else bindr (c_int (mq_count queue - 1))
        (\<lambda>n. Inr (buffer queue ! nat (front queue),
                 queue\<lparr>front := (front queue + 1) mod int RTOS_QUEUE_SIZE, mq_count := n\<rparr>)))"

definition rtos_queue_send :: "int \<Rightarrow> MessageQueue \<Rightarrow> 'a kernel_scheme \<Rightarrow>
    (bool \<times> MessageQueue \<times> 'a kernel_scheme) res" where
  "rtos_queue_send value queue s =
     (if mq_count queue = int RTOS_QUEUE_SIZE then
        let s1 = scheduler_set_current_task_state TASK_BLOCKED BLOCK_QUEUE_FULL s
        in deref_current s (\<lambda>i. Inr (False, queue, uart_log (Rtos (LogQueueFull (task_name (tcb s1 i)))) s1))
      else bindr (mq_put value queue) (\<lambda>queue'.
        deref_current s (\<lambda>i.
          bindr (scheduler_unblock_one BLOCK_QUEUE_EMPTY
                   (uart_log (Rtos (LogQueueSend (task_name (tcb s i)) value (mq_count queue'))) s))
            (\<lambda>s'. Inr (True, queue', s')))))"

text \<open>The value received is none when the call returns false: \<open>*value\<close> is not written then.\<close>

definition rtos_queue_receive :: "MessageQueue \<Rightarrow> 'a kernel_scheme \<Rightarrow>
    (bool \<times> int option \<times> MessageQueue \<times> 'a kernel_scheme) res" where
  "rtos_queue_receive queue s =
     (if mq_count queue = 0 then
        let s1 = scheduler_set_current_task_state TASK_BLOCKED BLOCK_QUEUE_EMPTY s
        in deref_current s (\<lambda>i. Inr (False, None, queue, uart_log (Rtos (LogQueueEmpty (task_name (tcb s1 i)))) s1))
      else bindr (mq_take queue) (\<lambda>(value, queue').
        deref_current s (\<lambda>i.
          bindr (scheduler_unblock_one BLOCK_QUEUE_FULL
                   (uart_log (Rtos (LogQueueReceive (task_name (tcb s i)) value (mq_count queue'))) s))
            (\<lambda>s'. Inr (True, Some value, queue', s')))))"

section \<open>They keep the kernel's contract\<close>

lemma deref_current_eq_Inr:
  "deref_current s f = Inr x \<longleftrightarrow> (\<exists>i. rtos_current_task s = Some i \<and> f i = Inr x)"
  by (auto simp: deref_current_def split: option.split)

lemma deref_current_Some [simp]: "rtos_current_task s = Some i \<Longrightarrow> deref_current s f = f i"
  by (simp add: deref_current_def)

lemma unblock_one_ok: "kernel_inv s \<Longrightarrow> scheduler_unblock_one r (uart_log m s) = Inr s' \<Longrightarrow> api_ok s s'"
  using api_ok_unblock_one [of "uart_log m s" r] by (auto simp: returns_def)

lemma set_current_ok:
  "kernel_inv s \<Longrightarrow> r \<noteq> BLOCK_NONE \<Longrightarrow> api_ok s (scheduler_set_current_task_state TASK_BLOCKED r s)"
  by (rule api_ok_set_current) simp_all

lemma rtos_sem_wait_ok:
  "kernel_inv s \<Longrightarrow> rtos_sem_wait sem s = Inr (r, sem', s') \<Longrightarrow> api_ok s s'"
  by (auto simp: rtos_sem_wait_def deref_current_eq_Inr Let_def api_ok_refl set_current_ok split: if_splits)

lemma rtos_sem_signal_ok:
  "kernel_inv s \<Longrightarrow> rtos_sem_signal sem s = Inr (sem', s') \<Longrightarrow> api_ok s s'"
  by (auto simp: rtos_sem_signal_def Let_def bindr_eq_Inr dest: unblock_one_ok)

lemma rtos_mutex_lock_ok:
  "kernel_inv s \<Longrightarrow> rtos_mutex_lock m s = Inr (r, m', s') \<Longrightarrow> api_ok s s'"
  by (cases "rtos_current_task s"; simp add: rtos_mutex_lock_def Let_def deref_current_def)
    (auto simp: Let_def api_ok_refl set_current_ok split: if_splits)

lemma rtos_mutex_unlock_ok:
  "kernel_inv s \<Longrightarrow> rtos_mutex_unlock m s = Inr (m', s') \<Longrightarrow> api_ok s s'"
  by (auto simp: rtos_mutex_unlock_def deref_current_eq_Inr Let_def bindr_eq_Inr api_ok_refl
      dest: unblock_one_ok split: if_splits)

lemma rtos_queue_send_ok:
  "kernel_inv s \<Longrightarrow> rtos_queue_send v q s = Inr (r, q', s') \<Longrightarrow> api_ok s s'"
  by (auto simp: rtos_queue_send_def deref_current_eq_Inr Let_def bindr_eq_Inr set_current_ok
      dest: unblock_one_ok split: if_splits)

lemma rtos_queue_receive_ok:
  "kernel_inv s \<Longrightarrow> rtos_queue_receive q s = Inr (r, v, q', s') \<Longrightarrow> api_ok s s'"
  by (auto simp: rtos_queue_receive_def deref_current_eq_Inr Let_def bindr_eq_Inr set_current_ok
      dest: unblock_one_ok split: if_splits)

section \<open>Bounded queues\<close>

text \<open>
  What the users of a bounded FIFO rely on: two operations that cannot fault where their guard
  allows them, and that act at the two ends of a list of contents.
\<close>

locale bounded_fifo =
  fixes put :: "'v \<Rightarrow> 'q \<Rightarrow> 'q res"
    and take_one :: "'q \<Rightarrow> ('v \<times> 'q) res"
    and is_full :: "'q \<Rightarrow> bool"
    and is_empty :: "'q \<Rightarrow> bool"
    and ok :: "'q \<Rightarrow> bool"
    and contents :: "'q \<Rightarrow> 'v list"
    and cap :: nat
  assumes full_iff: "ok q \<Longrightarrow> is_full q \<longleftrightarrow> length (contents q) = cap"
    and empty_iff: "ok q \<Longrightarrow> is_empty q \<longleftrightarrow> contents q = []"
    and put_ok: "ok q \<Longrightarrow> \<not> is_full q \<Longrightarrow> returns (put v q) (\<lambda>q'. ok q' \<and> contents q' = contents q @ [v])"
    and take_ok: "ok q \<Longrightarrow> \<not> is_empty q \<Longrightarrow> returns (take_one q) (\<lambda>(v, q'). ok q' \<and> contents q = v # contents q')"
begin

lemma put_then_take:
  assumes "ok q" and "is_empty q" and "\<not> is_full q"
  shows "returns (bindr (put v q) take_one) (\<lambda>(w, q'). w = v \<and> is_empty q')"
proof (rule returns_bindrI [OF put_ok [OF assms(1,3)]])
  fix q1
  assume q1: "ok q1 \<and> contents q1 = contents q @ [v]"
  then have "contents q1 = [v]" "\<not> is_empty q1" using assms empty_iff by simp_all
  with q1 take_ok [of q1] show "returns (take_one q1) (\<lambda>(w, q'). w = v \<and> is_empty q')"
    using empty_iff by (auto elim!: returns_mono)
qed

end

text \<open>
  A run of sends and receives in any order, an operation on a full or empty queue being refused:
  the values that went in, the values that came out, and the queue at the end.
\<close>

datatype 'v fifo_op = Put 'v | Take

primrec fifo_run :: "('q \<Rightarrow> bool) \<Rightarrow> ('q \<Rightarrow> bool) \<Rightarrow> ('v \<Rightarrow> 'q \<Rightarrow> 'q res) \<Rightarrow> ('q \<Rightarrow> ('v \<times> 'q) res) \<Rightarrow>
    'v fifo_op list \<Rightarrow> 'q \<Rightarrow> ('v list \<times> 'v list \<times> 'q) res" where
  "fifo_run is_full is_empty put take_one [] q = Inr ([], [], q)"
| "fifo_run is_full is_empty put take_one (x # xs) q =
     (case x of
        Put v \<Rightarrow> if is_full q then fifo_run is_full is_empty put take_one xs q
                 else bindr (put v q) (\<lambda>q1. bindr (fifo_run is_full is_empty put take_one xs q1)
                        (\<lambda>(sent, received, q2). Inr (v # sent, received, q2)))
      | Take \<Rightarrow> if is_empty q then fifo_run is_full is_empty put take_one xs q
                else bindr (take_one q) (\<lambda>(v, q1). bindr (fifo_run is_full is_empty put take_one xs q1)
                       (\<lambda>(sent, received, q2). Inr (sent, v # received, q2))))"

context bounded_fifo
begin

lemma run_order:
  assumes "ok q"
  shows "returns (fifo_run is_full is_empty put take_one xs q)
    (\<lambda>(sent, received, q'). ok q' \<and> contents q @ sent = received @ contents q')"
  using assms
proof (induction xs arbitrary: q)
  case Nil
  then show ?case by simp
next
  case (Cons x xs)
  show ?case
  proof (cases x)
    case (Put v)
    show ?thesis
    proof (cases "is_full q")
      case True
      then show ?thesis using Cons Put by simp
    next
      case False
      from put_ok [OF Cons.prems False, of v] obtain q1 where q1: "put v q = Inr q1" "ok q1"
        "contents q1 = contents q @ [v]" by (auto elim: returnsE)
      from Cons.IH [OF q1(2)] obtain sent received q2 where
        "fifo_run is_full is_empty put take_one xs q1 = Inr (sent, received, q2)" "ok q2"
        "contents q1 @ sent = received @ contents q2" by (auto elim!: returnsE)
      then show ?thesis using Put False q1 by simp
    qed
  next
    case Take
    show ?thesis
    proof (cases "is_empty q")
      case True
      then show ?thesis using Cons Take by simp
    next
      case False
      from take_ok [OF Cons.prems False] obtain v q1 where q1: "take_one q = Inr (v, q1)" "ok q1"
        "contents q = v # contents q1" by (auto elim!: returnsE)
      from Cons.IH [OF q1(2)] obtain sent received q2 where
        "fifo_run is_full is_empty put take_one xs q1 = Inr (sent, received, q2)" "ok q2"
        "contents q1 @ sent = received @ contents q2" by (auto elim!: returnsE)
      then show ?thesis using Take False q1 by simp
    qed
  qed
qed

end

section \<open>The message queue is one\<close>

definition mq_ok :: "MessageQueue \<Rightarrow> bool" where
  "mq_ok q \<longleftrightarrow> length (buffer q) = 10 \<and> 0 \<le> front q \<and> front q < 10 \<and> 0 \<le> mq_count q \<and>
     mq_count q \<le> 10 \<and> rear q = (front q + mq_count q) mod 10"

definition mq_contents :: "MessageQueue \<Rightarrow> int list" where
  "mq_contents q = map (\<lambda>k. buffer q ! nat ((front q + int k) mod 10)) [0..<nat (mq_count q)]"

definition mq_full :: "MessageQueue \<Rightarrow> bool" where "mq_full q \<longleftrightarrow> mq_count q = int RTOS_QUEUE_SIZE"

definition mq_empty :: "MessageQueue \<Rightarrow> bool" where "mq_empty q \<longleftrightarrow> mq_count q = 0"

lemma length_mq_contents [simp]: "length (mq_contents q) = nat (mq_count q)"
  by (simp add: mq_contents_def)

lemma mq_count_length: "mq_ok q \<Longrightarrow> mq_count q = int (length (mq_contents q))"
  by (simp add: mq_ok_def)

lemma ring_slots_differ:
  assumes "k < c" and "c < 10"
  shows "(f + int k) mod 10 \<noteq> (f + int c) mod 10"
proof
  assume "(f + int k) mod 10 = (f + int c) mod 10"
  then have "10 dvd (f + int c) - (f + int k)" by (metis mod_eq_dvd_iff)
  then have "10 dvd int c - int k" by simp
  then show False using assms zdvd_not_zless [of "int c - int k" 10] by simp
qed

lemma mq_put_ok:
  assumes ok: "mq_ok q" and "\<not> mq_full q"
  shows "returns (mq_put v q) (\<lambda>q'. mq_ok q' \<and> mq_contents q' = mq_contents q @ [v])"
proof -
  obtain c where c0: "mq_count q = int c"
    using ok by (auto simp: mq_ok_def elim: nonneg_int_cases)
  then have c: "mq_count q = int c" "c < 10" "nat (int c + 1) = Suc c"
    using assms by (simp_all add: mq_ok_def mq_full_def nat_add_distrib)
  let ?q = "q\<lparr>buffer := (buffer q)[nat (rear q) := v], rear := (rear q + 1) mod 10,
      mq_count := int c + 1\<rparr>"
  have r: "rear q = (front q + int c) mod 10" "length (buffer q) = 10" "0 \<le> rear q" "rear q < 10"
    using ok c by (simp_all add: mq_ok_def)
  have put: "mq_put v q = Inr ?q"
    using r(2-4) c by (simp add: mq_put_def int_range_defs)
  have "(rear q + 1) mod 10 = (front q + (int c + 1)) mod 10"
    unfolding r(1) by (simp add: mod_add_left_eq add.assoc)
  then have "mq_ok ?q" using ok c by (simp add: mq_ok_def)
  moreover have "(buffer q)[nat (rear q) := v] ! nat ((front q + int k) mod 10) =
      buffer q ! nat ((front q + int k) mod 10)" if "k < c" for k
  proof -
    have "(front q + int k) mod 10 \<noteq> rear q" using ring_slots_differ [OF that c(2)] r(1) by simp
    then have "nat (rear q) \<noteq> nat ((front q + int k) mod 10)" using r(3) by (simp add: eq_nat_nat_iff)
    then show ?thesis by simp
  qed
  then have "mq_contents ?q = mq_contents q @ [v]"
    using c r by (simp add: mq_contents_def)
  ultimately show ?thesis by (simp add: put)
qed

lemma mq_take_ok:
  assumes ok: "mq_ok q" and "\<not> mq_empty q"
  shows "returns (mq_take q) (\<lambda>(v, q'). mq_ok q' \<and> mq_contents q = v # mq_contents q')"
proof -
  have "0 \<le> mq_count q - 1" using assms by (simp add: mq_ok_def mq_empty_def)
  then obtain c where "mq_count q - 1 = int c" by (rule nonneg_int_cases)
  then have c: "mq_count q = int c + 1" "c < 10" "nat (int c + 1) = Suc c"
    using assms by (simp_all add: mq_ok_def nat_add_distrib)
  let ?q = "q\<lparr>front := (front q + 1) mod 10, mq_count := int c\<rparr>"
  have f: "0 \<le> front q" "front q < 10" "length (buffer q) = 10" using ok by (simp_all add: mq_ok_def)
  have take: "mq_take q = Inr (buffer q ! nat (front q), ?q)"
    using f c by (simp add: mq_take_def int_range_defs)
  have shift: "((front q + 1) mod 10 + int k) mod 10 = (front q + (int k + 1)) mod 10" for k
    by (simp add: mod_add_left_eq add.assoc add.commute [of 1])
  have "mq_ok ?q" using ok c shift [of c] by (simp add: mq_ok_def)
  moreover have "mq_contents q = buffer q ! nat (front q) # mq_contents ?q"
    using f by (simp add: mq_contents_def c shift upt_conv_Cons [of 0 "Suc c"]
        map_Suc_upt [symmetric] comp_def add.commute [of 1] del: upt_Suc)
  ultimately show ?thesis by (simp add: take)
qed

interpretation mq: bounded_fifo mq_put mq_take mq_full mq_empty mq_ok mq_contents 10
proof (unfold_locales, goal_cases)
  case (1 q)
  then show ?case by (auto simp: mq_full_def mq_ok_def)
next
  case (2 q)
  then show ?case by (auto simp: mq_empty_def mq_ok_def mq_contents_def)
next
  case (3 q v)
  then show ?case by (rule mq_put_ok)
next
  case (4 q)
  then show ?case by (rule mq_take_ok)
qed

section \<open>Totality and effect of each operation\<close>

lemma sched_inv_ctx: "kernel_inv s \<Longrightarrow> sched_inv s"
  by (rule kernel_invD)

lemma best_waiter_log [simp]: "best_waiter r (uart_log m s) = best_waiter r s"
proof -
  have "waiting_for r (uart_log m s) = waiting_for r s"
    by (simp add: waiting_for_def fun_eq_iff)
  then show ?thesis by (simp add: best_waiter_def blocked_on_def)
qed

lemma woken_log [simp]: "woken r (uart_log m s) s' = woken r s s'"
  by (simp add: woken_def split: option.split)

lemma rtos_current_task_log [simp]: "rtos_current_task (uart_log m s) = rtos_current_task s"
  by (simp add: rtos_current_task_def)

lemma unblock_after_log:
  "kernel_inv s \<Longrightarrow>
   returns (scheduler_unblock_one r (uart_log m s)) (\<lambda>s'. woken r s s' \<and> task_count s' = task_count s)"
  using unblock_one_woken [of "uart_log m s" r] by (simp add: kernel_invD)

section \<open>Properties\<close>

text \<open>
  C20: Whatever sequence of sends and receives a well-formed message queue goes through (those on
  a full or empty queue being refused), no access leaves the buffer, and the values come out in
  the order they went in, none lost and none twice: what was stored, followed by what was sent,
  is what was received, followed by what is stored.
\<close>

theorem queue_fifo_order:
  assumes "mq_ok q"
  shows "returns (fifo_run mq_full mq_empty mq_put mq_take ops q)
    (\<lambda>(sent, received, q'). mq_ok q' \<and> mq_contents q @ sent = received @ mq_contents q')"
  by (rule mq.run_order) (rule assms)

definition fresh_queue :: MessageQueue where
  "fresh_queue = queue_init \<lparr>buffer = replicate 10 0, front = 3, rear = 5, mq_count = 2\<rparr>"

lemma fresh_queue_ok: "mq_ok fresh_queue" "mq_contents fresh_queue = []" "mq_count fresh_queue = 0"
  by (simp_all add: fresh_queue_def queue_init_def mq_ok_def mq_contents_def)

theorem queue_fifo_order_witness:
  "returns (fifo_run mq_full mq_empty mq_put mq_take [Put 1, Take, Take, Put 2, Put 3] fresh_queue)
     (\<lambda>(sent, received, q'). sent = received @ mq_contents q')"
  using queue_fifo_order [OF fresh_queue_ok(1), of "[Put 1, Take, Take, Put 2, Put 3]"]
  by (simp add: fresh_queue_ok(2)) (auto elim!: returns_mono)

text \<open>
  C29: \<open>rtos_queue_send\<close> by the current task: on a full queue it returns false, leaves the queue
  alone and blocks the caller for BLOCK_QUEUE_FULL, off the ready queue; otherwise it returns
  true, the value is the last of the queue, and the best receiver waiting is woken.
\<close>

theorem queue_send_spec:
  assumes "kernel_inv s" and "rtos_current_task s = Some i" and "mq_ok q"
  shows "returns (rtos_queue_send v q s) (\<lambda>(sent, q', s').
    if length (mq_contents q) = 10 then \<not> sent \<and> q' = q \<and> blocked_as i BLOCK_QUEUE_FULL s s'
    else sent \<and> mq_ok q' \<and> mq_contents q' = mq_contents q @ [v] \<and> woken BLOCK_QUEUE_EMPTY s s')"
proof (cases "mq_count q = 10")
  case True
  then show ?thesis
    using set_current_blocked [OF kernel_invD(1) [OF assms(1)] assms(2)] assms(2)
    by (simp add: rtos_queue_send_def Let_def blocked_as_def)
next
  case False
  then obtain q' where q': "mq_put v q = Inr q'" "mq_ok q'" "mq_contents q' = mq_contents q @ [v]"
    using mq_put_ok [OF assms(3), of v] by (auto simp: mq_full_def elim: returnsE)
  have "length (mq_contents q) \<noteq> 10" using False assms(3) by (simp add: mq_ok_def)
  with q' show ?thesis
    using False assms(2) unblock_after_log [OF assms(1), of BLOCK_QUEUE_EMPTY
        "Rtos (LogQueueSend (task_name (tcb s i)) v (mq_count q'))"]
    by (auto simp: rtos_queue_send_def returns_bindr elim!: returns_mono)
qed

text \<open>A kernel whose first task is the current one.\<close>

definition task_running :: kernel where
  "task_running = two_tasks\<lparr>current_task_index := 0\<rparr>"

lemma task_running: "kernel_inv task_running" "rtos_current_task task_running = Some 0"
  using kernel_inv_two_tasks(1-3)
  by (auto simp: task_running_def kernel_inv_def sched_inv_def rq_wf_def rq_list_def ready_set_def
      rtos_current_task_def)

theorem queue_send_spec_witness:
  "returns (rtos_queue_send 42 fresh_queue task_running) (\<lambda>(sent, q', s'). sent \<and> mq_contents q' = [42])"
  by (rule returns_mono [OF queue_send_spec [OF task_running fresh_queue_ok(1)]])
    (auto simp: fresh_queue_ok)

text \<open>
  \<open>rtos_queue_receive\<close> by the current task: on an empty queue it returns false, leaves the
  queue alone and blocks the caller for BLOCK_QUEUE_EMPTY; otherwise it returns true with the
  oldest value, which leaves the queue, and the best sender waiting is woken.
\<close>

lemma queue_receive_spec:
  assumes "kernel_inv s" and "rtos_current_task s = Some i" and "mq_ok q"
  shows "returns (rtos_queue_receive q s) (\<lambda>(received, v, q', s').
    case mq_contents q of
      [] \<Rightarrow> \<not> received \<and> v = None \<and> q' = q \<and> blocked_as i BLOCK_QUEUE_EMPTY s s'
    | x # xs \<Rightarrow> received \<and> v = Some x \<and> mq_ok q' \<and> mq_contents q' = xs \<and> woken BLOCK_QUEUE_FULL s s')"
proof (cases "mq_count q = 0")
  case True
  then have "mq_contents q = []" by (simp add: mq_contents_def)
  with True show ?thesis
    using set_current_blocked [OF kernel_invD(1) [OF assms(1)] assms(2)] assms(2)
    by (simp add: rtos_queue_receive_def Let_def blocked_as_def)
next
  case False
  then obtain x q' where q': "mq_take q = Inr (x, q')" "mq_ok q'" "mq_contents q = x # mq_contents q'"
    using mq_take_ok [OF assms(3)] by (auto simp: mq_empty_def elim!: returnsE)
  with False show ?thesis
    using assms(2) unblock_after_log [OF assms(1), of BLOCK_QUEUE_FULL
        "Rtos (LogQueueReceive (task_name (tcb s i)) x (mq_count q'))"]
    by (auto simp: rtos_queue_receive_def returns_bindr elim!: returns_mono)
qed

text \<open>
  \<open>rtos_sem_wait\<close> by the current task takes a unit if there is one and then changes no task;
  otherwise it returns false with the count unchanged and the caller blocked for
  BLOCK_SEMAPHORE. A wait never takes the count below zero and never faults.
\<close>

lemma sem_wait_spec:
  assumes "kernel_inv s" and "rtos_current_task s = Some i"
  shows "returns (rtos_sem_wait sem s) (\<lambda>(acquired, sem', s').
    acquired = (sem_count sem > 0) \<and>
    (if acquired then sem_count sem' = sem_count sem - 1 \<and> task_list s' = task_list s \<and> rq_list s' = rq_list s
     else sem' = sem \<and> blocked_as i BLOCK_SEMAPHORE s s'))"
  using set_current_blocked [OF kernel_invD(1) [OF assms(1)] assms(2)] assms(2)
  by (simp add: rtos_sem_wait_def Let_def blocked_as_def)

text \<open>
  C30: \<open>rtos_sem_signal\<close> adds one unit and wakes the best task blocked for BLOCK_SEMAPHORE, on
  every count below \<open>INT_MAX\<close>; at \<open>INT_MAX\<close> the increment overflows.
\<close>

theorem sem_signal_spec:
  assumes "kernel_inv s" and "in_int (sem_count sem)"
  shows "if sem_count sem = INT_MAX then rtos_sem_signal sem s = Inl SignedOverflow
    else returns (rtos_sem_signal sem s) (\<lambda>(sem', s'). sem_count sem' = sem_count sem + 1 \<and>
      woken BLOCK_SEMAPHORE s s')"
proof (cases "sem_count sem = INT_MAX")
  case True
  then show ?thesis by (simp add: rtos_sem_signal_def c_int_def int_range_defs)
next
  case False
  then have "in_int (sem_count sem + 1)" using assms(2) by (simp add: int_range_defs)
  then show ?thesis
    using False unblock_after_log [OF assms(1), of BLOCK_SEMAPHORE "Rtos (LogSemReleased (sem_count sem + 1))"]
    by (auto simp: rtos_sem_signal_def Let_def returns_bindr elim!: returns_mono)
qed

theorem sem_signal_spec_witness:
  "rtos_sem_signal \<lparr>sem_count = INT_MAX\<rparr> two_tasks = Inl SignedOverflow"
  using sem_signal_spec [OF kernel_inv_two_tasks(1), of "\<lparr>sem_count = INT_MAX\<rparr>"]
  by (simp add: int_range_defs)

text \<open>
  \<open>rtos_mutex_lock\<close> returns true exactly when the mutex is free or already the caller's, and
  the caller owns it afterwards; otherwise it leaves the mutex alone and blocks the caller for
  BLOCK_MUTEX. So two tasks never both hold it.
\<close>

lemma mutex_lock_spec:
  assumes "kernel_inv s" and "rtos_current_task s = Some i"
  shows "returns (rtos_mutex_lock m s) (\<lambda>(got, m', s').
    got = (\<not> locked m \<or> owner m = int i + 1) \<and>
    (if got then locked m' \<and> owner m' = int i + 1 \<and> task_list s' = task_list s \<and> rq_list s' = rq_list s
     else m' = m \<and> blocked_as i BLOCK_MUTEX s s'))"
proof -
  have "i < task_count s" using assms(2) by (simp add: rtos_current_task_Some)
  then have "task_id (tcb s i) = int i + 1"
    using sched_invD(10) [OF kernel_invD(1) [OF assms(1)]] by (simp add: tcb_ok_def)
  then show ?thesis
    using set_current_blocked [OF kernel_invD(1) [OF assms(1)] assms(2)] assms(2)
    by (simp add: rtos_mutex_lock_def Let_def blocked_as_def)
qed

text \<open>
  \<open>rtos_mutex_unlock\<close> by a task that does not hold the mutex changes nothing but the output;
  by its owner it frees the mutex and wakes the best task blocked for BLOCK_MUTEX.
\<close>

lemma mutex_unlock_spec:
  assumes "kernel_inv s" and "rtos_current_task s = Some i"
  shows "returns (rtos_mutex_unlock m s) (\<lambda>(m', s').
    if locked m \<and> owner m = int i + 1 then \<not> locked m' \<and> owner m' = -1 \<and> woken BLOCK_MUTEX s s'
    else m' = m \<and> task_list s' = task_list s \<and> rq_list s' = rq_list s)"
proof -
  have "i < task_count s" using assms(2) by (simp add: rtos_current_task_Some)
  then have "task_id (tcb s i) = int i + 1"
    using sched_invD(10) [OF kernel_invD(1) [OF assms(1)]] by (simp add: tcb_ok_def)
  then show ?thesis
    using assms(2) unblock_after_log [OF assms(1), of BLOCK_MUTEX "Rtos (LogMutexReleased (task_name (tcb s i)))"]
    by (auto simp: rtos_mutex_unlock_def Let_def returns_bindr elim!: returns_mono)
qed

text \<open>
  A task that locks a free mutex, locks it again and unlocks it once gets true twice and has
  released it: the second lock is not counted.
\<close>

lemma mutex_relock_not_counted:
  assumes "kernel_inv s" and "rtos_current_task s = Some i" and "\<not> locked m"
  shows "returns (bindr (rtos_mutex_lock m s) (\<lambda>(a, m1, s1). bindr (rtos_mutex_lock m1 s1)
      (\<lambda>(b, m2, s2). bindr (rtos_mutex_unlock m2 s2) (\<lambda>(m3, s3). Inr (a, b, m3)))))
    (\<lambda>(a, b, m3). a \<and> b \<and> \<not> locked m3)"
proof -
  have "returns (scheduler_unblock_one BLOCK_MUTEX (uart_log m1 (uart_log m2 s))) (\<lambda>_. True)" for m1 m2
    by (rule returns_mono [OF unblock_after_log]) (simp_all add: assms(1))
  then show ?thesis
    using assms(2,3) by (simp add: rtos_mutex_lock_def rtos_mutex_unlock_def Let_def returns_bindr)
qed

end
