(* ===== verification/Event_Flags.thy ===== *)
theory Event_Flags
  imports Rtos_Core "HOL-Library.Multiset"
begin

text \<open>
  The event flags of \<open>event.h\<close> and \<open>event.c\<close>: 32 flags with a table of at most eight waiters. An
  \<open>EventFlags *\<close> is an object or none for null. The table is compacted while it is scanned; the
  main lemma shows that the scan examines every waiter once, last registered first.
\<close>

section \<open>Objects and operations\<close>

definition RTOS_EVENT_MAX_WAITERS :: nat where "RTOS_EVENT_MAX_WAITERS = RTOS_MAX_TASKS"

record EventWaiter =
  task_index :: int
  required_mask :: "32 word"

record EventFlags =
  flags :: "32 word"
  waiters :: "EventWaiter list"
  waiter_count :: int

definition no_waiter :: EventWaiter where
  "no_waiter = \<lparr>task_index = -1, required_mask = 0\<rparr>"

definition event_flags_init :: "EventFlags option \<Rightarrow> EventFlags option" where
  "event_flags_init ef =
     (case ef of None \<Rightarrow> None
      | Some e \<Rightarrow> Some (loop_range 0 RTOS_EVENT_MAX_WAITERS
                    (\<lambda>i e. e\<lparr>waiters := (waiters e)[i := no_waiter]\<rparr>)
                    (e\<lparr>flags := 0, waiter_count := 0\<rparr>)))"

text \<open>The part of the scan that wakes the waiter in slot \<open>i\<close>.\<close>

definition event_wake :: "nat \<Rightarrow> EventFlags \<Rightarrow> 'a kernel_scheme \<Rightarrow> (EventFlags \<times> 'a kernel_scheme) res" where
  "event_wake i e s =
     (let w = waiters e ! i;
          f = flags e AND NOT (required_mask w);
          last_slot = waiter_count e - 1
      in if last_slot < 0 \<or> last_slot \<ge> int (length (waiters e)) then Inl OutOfBounds
         else
           let e' = e\<lparr>flags := f,
                      waiters := ((waiters e)[i := waiters e ! nat last_slot])[nat last_slot := no_waiter],
                      waiter_count := last_slot\<rparr>;
               s1 = uart_log (Event (LogEventWake (task_index w) f)) s
           in Inr (e', scheduler_set_task_state (task_index w) TASK_READY BLOCK_NONE s1))"

text \<open>The scan from slot \<open>n - 1\<close> down to 0.\<close>

primrec event_set_loop :: "nat \<Rightarrow> EventFlags \<Rightarrow> 'a kernel_scheme \<Rightarrow> (EventFlags \<times> 'a kernel_scheme) res" where
  "event_set_loop 0 e s = Inr (e, s)"
| "event_set_loop (Suc i) e s =
     (if i \<ge> length (waiters e) then Inl OutOfBounds
      else if flags e AND required_mask (waiters e ! i) \<noteq> required_mask (waiters e ! i)
        then event_set_loop i e s
      else bindr (event_wake i e s) (\<lambda>(e', s'). event_set_loop i e' s'))"

definition event_flags_set :: "EventFlags option \<Rightarrow> 32 word \<Rightarrow> 'a kernel_scheme \<Rightarrow>
    (EventFlags option \<times> 'a kernel_scheme) res" where
  "event_flags_set ef bits s =
     (case ef of None \<Rightarrow> Inr (None, s)
      | Some e \<Rightarrow>
        if bits = 0 then Inr (ef, s)
        else
          let e1 = e\<lparr>flags := flags e OR bits\<rparr>;
              s1 = uart_log (Event (LogEventSet (flags e1) bits)) s
          in bindr (c_int (waiter_count e1 - 1))
               (\<lambda>n. bindr (event_set_loop (nat (n + 1)) e1 s1) (\<lambda>(e', s'). Inr (Some e', s'))))"

definition event_flags_clear :: "EventFlags option \<Rightarrow> 32 word \<Rightarrow> 'a kernel_scheme \<Rightarrow>
    EventFlags option \<times> 'a kernel_scheme" where
  "event_flags_clear ef bits s =
     (case ef of None \<Rightarrow> (None, s)
      | Some e \<Rightarrow>
        let e1 = e\<lparr>flags := flags e AND NOT bits\<rparr>
        in (Some e1, uart_log (Event (LogEventClear (flags e1) bits)) s))"

definition event_flags_wait :: "EventFlags option \<Rightarrow> 32 word \<Rightarrow> 'a kernel_scheme \<Rightarrow>
    (bool \<times> EventFlags option \<times> 'a kernel_scheme) res" where
  "event_flags_wait ef bits s =
     (case ef of None \<Rightarrow> Inr (False, None, s)
      | Some e \<Rightarrow>
        if bits = 0 then Inr (False, ef, s)
        else if flags e AND bits = bits then
          let e1 = e\<lparr>flags := flags e AND NOT bits\<rparr>
          in Inr (True, Some e1, uart_log (Event (LogEventWaitOk bits (flags e1))) s)
        else if waiter_count e \<ge> int RTOS_EVENT_MAX_WAITERS then
          Inr (False, ef, uart_log (Event (LogEventWaitFull bits)) s)
        else if waiter_count e < 0 \<or> waiter_count e \<ge> int (length (waiters e)) then Inl OutOfBounds
        else
          let w = \<lparr>task_index = scheduler_current_task_index s, required_mask = bits\<rparr>;
              e1 = e\<lparr>waiters := (waiters e)[nat (waiter_count e) := w],
                     waiter_count := waiter_count e + 1\<rparr>;
              s1 = uart_log (Event (LogEventWait (task_index w) bits)) s
          in Inr (False, Some e1, scheduler_set_current_task_state TASK_BLOCKED BLOCK_EVENT s1))"

definition event_flags_get :: "EventFlags option \<Rightarrow> 32 word" where
  "event_flags_get ef = (case ef of None \<Rightarrow> 0 | Some e \<Rightarrow> flags e)"

section \<open>The kernel's contract\<close>

lemma event_wake_ok:
  "kernel_inv s \<Longrightarrow> event_wake i e s = Inr (e', s') \<Longrightarrow> api_ok s s'"
  by (auto simp: event_wake_def Let_def api_ok_set_task_state split: if_splits)

lemma event_set_loop_ok:
  "kernel_inv s \<Longrightarrow> event_set_loop n e s = Inr (e', s') \<Longrightarrow> api_ok s s'"
proof (induction n arbitrary: e s)
  case 0
  then show ?case by (simp add: api_ok_refl)
next
  case (Suc i)
  show ?case
  proof (cases "flags e AND required_mask (waiters e ! i) = required_mask (waiters e ! i)")
    case False
    then show ?thesis using Suc by (simp split: if_splits)
  next
    case True
    then obtain e1 s1 where w: "event_wake i e s = Inr (e1, s1)" "event_set_loop i e1 s1 = Inr (e', s')"
      using Suc.prems(2) by (auto simp: bindr_eq_Inr split: if_splits)
    have "api_ok s s1" using event_wake_ok [OF Suc.prems(1) w(1)] .
    then show ?thesis by (rule api_ok_trans) (rule Suc.IH [OF _ w(2)])
  qed
qed

lemma event_flags_set_ok:
  "kernel_inv s \<Longrightarrow> event_flags_set ef bits s = Inr (ef', s') \<Longrightarrow> api_ok s s'"
  by (auto simp: event_flags_set_def Let_def bindr_eq_Inr api_ok_refl split: option.splits if_splits
      dest!: event_set_loop_ok [rotated])

lemma event_flags_clear_ok: "kernel_inv s \<Longrightarrow> api_ok s (snd (event_flags_clear ef bits s))"
  by (simp add: event_flags_clear_def Let_def api_ok_refl split: option.split)

lemma event_flags_wait_ok:
  "kernel_inv s \<Longrightarrow> event_flags_wait ef bits s = Inr (r, ef', s') \<Longrightarrow> api_ok s s'"
  by (auto simp: event_flags_wait_def Let_def api_ok_refl api_ok_set_current
      split: option.splits if_splits)

lemma scheduler_current_index:
  assumes "kernel_inv s" and "rtos_current_task s = Some i"
  shows "scheduler_current_task_index s = int i"
  using assms(2) sched_invD(1) [OF kernel_invD(1) [OF assms(1)]]
  by (simp add: scheduler_current_task_index_def rtos_current_task_Some)

section \<open>The waiter table\<close>

definition ev_ok :: "EventFlags \<Rightarrow> bool" where
  "ev_ok e \<longleftrightarrow> length (waiters e) = 8 \<and> 0 \<le> waiter_count e \<and> waiter_count e \<le> 8"

text \<open>The registered waiters, in order of registration.\<close>

definition registered :: "EventFlags \<Rightarrow> EventWaiter list" where
  "registered e = take (nat (waiter_count e)) (waiters e)"

definition satisfied :: "32 word \<Rightarrow> EventWaiter \<Rightarrow> bool" where
  "satisfied f w \<longleftrightarrow> f AND required_mask w = required_mask w"

text \<open>
  What \<open>event_flags_set\<close> promises: the waiters, last registered first, each take their bits if
  all are there. The woken ones, the others, and the flags left.
\<close>

fun event_scan :: "32 word \<Rightarrow> EventWaiter list \<Rightarrow> EventWaiter list \<times> EventWaiter list \<times> 32 word" where
  "event_scan f [] = ([], [], f)"
| "event_scan f (w # ws) =
     (if satisfied f w then
        let (woke, kept, g) = event_scan (f AND NOT (required_mask w)) ws in (w # woke, kept, g)
      else let (woke, kept, g) = event_scan f ws in (woke, w # kept, g))"

definition made_ready :: "EventWaiter list \<Rightarrow> 'a kernel_scheme \<Rightarrow> 'a kernel_scheme \<Rightarrow> bool" where
  "made_ready ws s s' \<longleftrightarrow> task_count s' = task_count s \<and>
     (\<forall>i<task_count s. tcb s' i =
        (if int i \<in> task_index ` set ws then tcb_to TASK_READY BLOCK_NONE (tcb s i) else tcb s i))"

lemma tcb_to_ready_idem [simp]:
  "tcb_to TASK_READY r (tcb_to TASK_READY q t) = tcb_to TASK_READY r t"
  by (simp add: tcb_to_def)

lemma made_ready_Cons:
  assumes inv: "sched_inv s"
    and "made_ready ws (scheduler_set_task_state (task_index w) TASK_READY BLOCK_NONE (uart_log m s)) s'"
  shows "made_ready (w # ws) s s'"
proof (cases "task_index w < 0 \<or> int (task_count s) \<le> task_index w")
  case True
  then show ?thesis using assms(2) by (auto simp: set_task_state_invalid made_ready_def)
next
  case False
  then obtain k where k: "task_index w = int k" "k < task_count s" by (rule task_index_cases)
  note I = sched_invD [OF inv]
  have "task_list (scheduler_set_task_state (int k) TASK_READY BLOCK_NONE s) =
      (task_list s)[k := tcb_to TASK_READY BLOCK_NONE (tcb s k)]"
    using I k(2) by (simp add: set_task_state_tcb)
  then show ?thesis
    using assms(2) k I by (auto simp: made_ready_def nth_list_update)
qed

lemma mset_swap_out:
  assumes "i < c" and "c \<le> length ws"
  shows "take i (take (c - 1) (ws[i := ws ! (c - 1), c - 1 := z])) = take i ws"
    and "mset (drop i (take (c - 1) (ws[i := ws ! (c - 1), c - 1 := z]))) = mset (drop (Suc i) (take c ws))"
proof -
  have tk: "take (c - 1) (ws[i := ws ! (c - 1), c - 1 := z]) = (take (c - 1) ws)[i := ws ! (c - 1)]"
    by (simp add: take_update_swap list_update_beyond)
  show "take i (take (c - 1) (ws[i := ws ! (c - 1), c - 1 := z])) = take i ws"
    unfolding tk using assms by simp
  have c: "take c ws = take (c - 1) ws @ [ws ! (c - 1)]"
    using assms take_Suc_conv_app_nth [of "c - 1" ws] by simp
  show "mset (drop i (take (c - 1) (ws[i := ws ! (c - 1), c - 1 := z]))) = mset (drop (Suc i) (take c ws))"
  proof (cases "i = c - 1")
    case True
    then show ?thesis unfolding tk using assms by simp
  next
    case False
    then have "i < length (take (c - 1) ws)" using assms by simp
    then have "drop i ((take (c - 1) ws)[i := ws ! (c - 1)]) = ws ! (c - 1) # drop (Suc i) (take (c - 1) ws)"
      by (simp add: drop_update_swap Cons_nth_drop_Suc [symmetric])
    then show ?thesis unfolding tk c using False assms by simp
  qed
qed

text \<open>The loop from slot \<open>n\<close> down does to the first \<open>n\<close> waiters what the promise says.\<close>

lemma event_set_loop_scan:
  assumes "ev_ok e" and "int n \<le> waiter_count e" and "kernel_inv s"
    and "event_scan (flags e) (rev (take n (registered e))) = (woke, kept, g)"
  shows "returns (event_set_loop n e s) (\<lambda>(e', s'). ev_ok e' \<and> flags e' = g \<and>
    mset (registered e') = mset (drop n (registered e)) + mset kept \<and>
    made_ready woke s s')"
  using assms
proof (induction n arbitrary: e s woke kept)
  case 0
  then show ?case by (simp add: made_ready_def)
next
  case (Suc i)
  obtain b where b: "waiter_count e = int (Suc b)"
    using Suc.prems(2) by (metis less_eq_Suc_le nonneg_int_cases of_nat_0_le_iff of_nat_le_iff
        order_trans Suc_le_D)
  let ?c = "Suc b" and ?w = "waiters e ! i"
  have c: "waiter_count e = int ?c" "i < ?c" "?c \<le> 8" "length (waiters e) = 8"
    using Suc.prems(1,2) b by (auto simp: ev_ok_def)
  have reg: "registered e ! i = ?w" "length (registered e) = ?c"
    using c(2-4) by (simp_all add: registered_def b nat_add_distrib)
  have tk: "rev (take (Suc i) (registered e)) = ?w # rev (take i (registered e))"
    using c reg by (simp add: take_Suc_conv_app_nth)
  have dr: "drop i (registered e) = ?w # drop (Suc i) (registered e)"
    using c reg by (metis Cons_nth_drop_Suc)
  show ?case
  proof (cases "satisfied (flags e) ?w")
    case False
    then obtain kept' where k: "event_scan (flags e) (rev (take i (registered e))) = (woke, kept', g)"
      "kept = ?w # kept'"
      using Suc.prems(4) unfolding tk by (auto split: prod.splits)
    have "event_set_loop (Suc i) e s = event_set_loop i e s"
      using False c by (simp add: satisfied_def)
    then show ?thesis
      using Suc.IH [OF Suc.prems(1) _ Suc.prems(3) k(1)] Suc.prems(2) by (simp add: k(2) dr)
  next
    case True
    let ?f = "flags e AND NOT (required_mask ?w)"
    obtain woke' where k: "event_scan ?f (rev (take i (registered e))) = (woke', kept, g)"
      "woke = ?w # woke'"
      using Suc.prems(4) True unfolding tk by (auto split: prod.splits)
    let ?e = "e\<lparr>flags := ?f, waiters := (waiters e)[i := waiters e ! (?c - 1), ?c - 1 := no_waiter],
        waiter_count := int (?c - 1)\<rparr>"
    let ?s = "scheduler_set_task_state (task_index ?w) TASK_READY BLOCK_NONE
        (uart_log (Event (LogEventWake (task_index ?w) ?f)) s)"
    have last: "waiter_count e - 1 = int (?c - 1)" using b by simp
    have wake: "event_wake i e s = Inr (?e, ?s)"
      using c(2,3,4) unfolding event_wake_def Let_def last by simp
    have loop: "event_set_loop (Suc i) e s = event_set_loop i ?e ?s"
      using True c wake by (simp add: satisfied_def)
    have reg': "take i (registered ?e) = take i (registered e)"
      "mset (drop i (registered ?e)) = mset (drop (Suc i) (registered e))"
      using mset_swap_out [of i ?c "waiters e" no_waiter] c(2-4)
      by (simp_all add: registered_def b nat_add_distrib)
    have "ev_ok ?e" "int i \<le> waiter_count ?e"
      using c Suc.prems(1) by (simp_all add: ev_ok_def)
    moreover have "kernel_inv ?s"
      using api_ok_set_task_state [OF Suc.prems(3), of TASK_READY BLOCK_NONE]
      by (simp add: api_ok_def)
    moreover have "event_scan (flags ?e) (rev (take i (registered ?e))) = (woke', kept, g)"
      using k(1) unfolding reg'(1) by simp
    ultimately have "returns (event_set_loop i ?e ?s) (\<lambda>(e', s'). ev_ok e' \<and> flags e' = g \<and>
        mset (registered e') = mset (drop i (registered ?e)) + mset kept \<and> made_ready woke' ?s s')"
      by (rule Suc.IH)
    then show ?thesis
      unfolding loop reg'(2) k(2)
      by (rule returns_mono) (auto intro: made_ready_Cons [OF kernel_invD(1) [OF Suc.prems(3)]])
  qed
qed

text \<open>A waiter the scan keeps is not satisfied by the flags that are left.\<close>

lemma satisfied_mono: "satisfied (f AND NOT m) w \<Longrightarrow> satisfied f w"
  by (auto simp: satisfied_def bit_eq_iff bit_and_iff)

lemma event_scan_flags: "event_scan f ws = (woke, kept, g) \<Longrightarrow> satisfied g w \<Longrightarrow> satisfied f w"
  by (induction f ws arbitrary: woke kept rule: event_scan.induct)
    (auto split: prod.splits if_splits dest: satisfied_mono)

lemma event_scan_kept:
  "event_scan f ws = (woke, kept, g) \<Longrightarrow> w \<in> set kept \<Longrightarrow> \<not> satisfied g w"
proof (induction f ws arbitrary: woke kept rule: event_scan.induct)
  case (1 f)
  then show ?case by simp
next
  case (2 f v ws)
  show ?case
  proof (cases "satisfied f v")
    case True
    then show ?thesis using 2 by (auto split: prod.splits)
  next
    case False
    then show ?thesis using 2 event_scan_flags by (fastforce split: prod.splits)
  qed
qed

lemma event_scan_mset:
  "event_scan f ws = (woke, kept, g) \<Longrightarrow> mset woke + mset kept = mset ws"
  by (induction f ws arbitrary: woke kept rule: event_scan.induct) (auto split: prod.splits if_splits)

text \<open>The whole call, from the object as it was.\<close>

lemma event_flags_set_scan:
  assumes "ev_ok e" and "kernel_inv s" and "bits \<noteq> 0"
    and "event_scan (flags e OR bits) (rev (registered e)) = (woke, kept, g)"
  shows "returns (event_flags_set (Some e) bits s) (\<lambda>(ef', s'). api_ok s s' \<and> made_ready woke s s' \<and>
    (\<exists>e'. ef' = Some e' \<and> ev_ok e' \<and> flags e' = g \<and> mset (registered e') = mset kept))"
proof -
  obtain n where n: "waiter_count e = int n" "n \<le> 8"
    using assms(1) by (auto simp: ev_ok_def elim: nonneg_int_cases)
  let ?e = "e\<lparr>flags := flags e OR bits\<rparr>"
  let ?s = "uart_log (Event (LogEventSet (flags e OR bits) bits)) s"
  have reg: "registered ?e = registered e" "take n (registered e) = registered e"
    using n(1) by (simp_all add: registered_def)
  have loop: "event_flags_set (Some e) bits s =
      bindr (event_set_loop n ?e ?s) (\<lambda>(e', s'). Inr (Some e', s'))"
    using assms(3) n by (simp add: event_flags_set_def Let_def int_range_defs)
  have all: "drop n (registered e) = []"
    using n assms(1) by (simp add: registered_def)
  have "returns (event_set_loop n ?e ?s) (\<lambda>(e', s'). ev_ok e' \<and> flags e' = g \<and>
      mset (registered e') = mset (drop n (registered ?e)) + mset kept \<and> made_ready woke ?s s')"
    by (rule event_set_loop_scan) (use assms n reg in \<open>simp_all add: ev_ok_def\<close>)
  then obtain e' s' where r: "event_set_loop n ?e ?s = Inr (e', s')" "ev_ok e'" "flags e' = g"
    "mset (registered e') = mset kept" "made_ready woke s s'"
    by (auto simp: reg all made_ready_def elim!: returnsE)
  moreover have "api_ok s s'"
    using event_set_loop_ok [of ?s, OF _ r(1)] assms(2) by simp
  ultimately show ?thesis by (simp add: loop)
qed

section \<open>Properties\<close>

text \<open>
  C19: \<open>event_flags_set\<close> on a well-formed object never faults. After it, no registered waiter has
  all its bits set; the woken and the remaining waiters are exactly those registered before; the
  woken ones took their bits from the flags in the order of the scan, from the last entry of the table
  to the first (the order of registration as long as no entry was moved into a gap); and every woken
  task is READY, every other task untouched.
\<close>

theorem event_set_wakes_satisfied:
  assumes "ev_ok e" and "kernel_inv s" and "bits \<noteq> 0"
    and "event_scan (flags e OR bits) (rev (registered e)) = (woke, kept, g)"
  shows "returns (event_flags_set (Some e) bits s) (\<lambda>(ef', s'). \<exists>e'. ef' = Some e' \<and> ev_ok e' \<and>
    flags e' = g \<and> mset (registered e') = mset kept \<and> mset woke + mset kept = mset (registered e) \<and>
    (\<forall>w\<in>set (registered e'). \<not> satisfied (flags e') w) \<and> made_ready woke s s')"
proof (rule returns_mono [OF event_flags_set_scan [OF assms]], goal_cases)
  case (1 x)
  then obtain e' s' where x: "x = (Some e', s')" "ev_ok e'" "flags e' = g" "made_ready woke s s'"
    and m: "mset (registered e') = mset kept" by (cases x) auto
  have "set (registered e') = set kept" using m by (metis set_mset_mset)
  then show ?case
    using x m event_scan_mset [OF assms(4)] event_scan_kept [OF assms(4)] by simp
qed

text \<open>Two tasks waiting for the same flag.\<close>

definition ev_example :: EventFlags where
  "ev_example = \<lparr>flags = 0, waiters = [\<lparr>task_index = 0, required_mask = 1\<rparr>,
     \<lparr>task_index = 1, required_mask = 1\<rparr>] @ replicate 6 no_waiter, waiter_count = 2\<rparr>"

lemma ev_example: "ev_ok ev_example" "flags ev_example = 0"
    "registered ev_example = [\<lparr>task_index = 0, required_mask = 1\<rparr>, \<lparr>task_index = 1, required_mask = 1\<rparr>]"
  by (simp_all add: ev_example_def ev_ok_def registered_def)

theorem event_set_wakes_satisfied_witness:
  "returns (event_flags_set (Some ev_example) 1 two_tasks)
     (\<lambda>(ef', s'). event_flags_get ef' = 0 \<and> state (tcb s' 1) = TASK_READY)"
proof -
  have scan: "event_scan (flags ev_example OR 1) (rev (registered ev_example)) =
      ([\<lparr>task_index = 1, required_mask = 1\<rparr>], [\<lparr>task_index = 0, required_mask = 1\<rparr>], 0)"
    by (simp add: ev_example satisfied_def)
  show ?thesis
    by (rule returns_mono [OF event_set_wakes_satisfied [OF ev_example(1) kernel_inv_two_tasks(1) _ scan]])
      (auto simp: event_flags_get_def made_ready_def kernel_inv_two_tasks(2))
qed

text \<open>
  One set wakes at most one of two waiters whose masks overlap, although both are satisfied
  when it starts: the first takes the shared bits. The other stays registered.
\<close>

lemma event_set_consumes_bits:
  assumes "ev_ok e" and "kernel_inv s" and "bits \<noteq> 0" and "registered e = [v, w]"
    and "required_mask v AND required_mask w \<noteq> 0"
  shows "returns (event_flags_set (Some e) bits s) (\<lambda>(ef', s'). \<exists>e'. ef' = Some e' \<and>
    (v \<in> set (registered e') \<or> w \<in> set (registered e')))"
proof -
  obtain woke kept g where sc: "event_scan (flags e OR bits) (rev (registered e)) = (woke, kept, g)"
    by (cases "event_scan (flags e OR bits) (rev (registered e))") auto
  have "\<not> satisfied (f AND NOT (required_mask w)) v" for f
  proof
    assume "satisfied (f AND NOT (required_mask w)) v"
    then have "required_mask v AND required_mask w = 0"
      by (auto simp: satisfied_def bit_eq_iff bit_and_iff bit_not_iff)
    then show False using assms(5) by simp
  qed
  then have "v \<in> set kept \<or> w \<in> set kept"
    using sc assms(4) by (auto split: if_splits)
  then show ?thesis
    by (rule_tac returns_mono [OF event_flags_set_scan [OF assms(1-3) sc]])
      (auto dest: mset_eq_setD)
qed

text \<open>
  \<open>event_flags_wait\<close> by the current task: if all the bits are set it takes them and returns
  true; if the table is full it returns false with nothing changed but the output, the task not
  blocked; otherwise it registers the task and blocks it for BLOCK_EVENT.
\<close>

lemma event_wait_spec:
  assumes "ev_ok e" and "kernel_inv s" and "rtos_current_task s = Some i" and "bits \<noteq> 0"
  shows "returns (event_flags_wait (Some e) bits s) (\<lambda>(got, ef', s'). \<exists>e'. ef' = Some e' \<and> ev_ok e' \<and>
    got = (flags e AND bits = bits) \<and>
    (if got then flags e' = flags e AND NOT bits \<and> registered e' = registered e \<and> task_list s' = task_list s
     else flags e' = flags e \<and>
       (if length (registered e) = 8 then e' = e \<and> task_list s' = task_list s \<and> rq_list s' = rq_list s
        else registered e' = registered e @ [\<lparr>task_index = int i, required_mask = bits\<rparr>] \<and>
          blocked_as i BLOCK_EVENT s s')))"
proof -
  obtain n where n: "waiter_count e = int n" "n \<le> 8" "length (waiters e) = 8"
    using assms(1) by (auto simp: ev_ok_def elim: nonneg_int_cases)
  then have len: "length (registered e) = n" by (simp add: registered_def)
  note cur = scheduler_current_index [OF assms(2,3)]
  have blk: "blocked_as i BLOCK_EVENT s (scheduler_set_current_task_state TASK_BLOCKED BLOCK_EVENT s)"
    by (rule set_current_blocked [OF kernel_invD(1) [OF assms(2)] assms(3)])
  have "nat (int n + 1) = Suc n" by simp
  then show ?thesis
    using n len cur blk assms(1,4)
    by (simp add: event_flags_wait_def Let_def RTOS_EVENT_MAX_WAITERS_def registered_def ev_ok_def
        blocked_as_def take_Suc_update)
qed

text \<open>
  C37: A task woken by \<open>event_flags_set\<close> finds its bits gone: the scan takes them when it wakes
  the task. So a task that, rescheduled, calls \<open>event_flags_wait\<close> for the same bits is
  registered and blocked again instead of getting true.
\<close>

theorem event_rewait_blocks_again:
  assumes "ev_ok e" and "kernel_inv s" and "bits \<noteq> 0" and "i < task_count s"
    and "registered e = [\<lparr>task_index = int i, required_mask = bits\<rparr>]"
  shows "returns (event_flags_set (Some e) bits s) (\<lambda>(ef', s'). state (tcb s' i) = TASK_READY \<and>
    returns (event_flags_wait ef' bits (s'\<lparr>current_task_index := int i\<rparr>))
      (\<lambda>(got, _, s''). \<not> got \<and> state (tcb s'' i) = TASK_BLOCKED))"
proof -
  let ?w = "\<lparr>task_index = int i, required_mask = bits\<rparr>"
  let ?g = "(flags e OR bits) AND NOT bits"
  have "satisfied (flags e OR bits) ?w"
    by (auto simp: satisfied_def bit_eq_iff bit_and_iff bit_or_iff)
  then have sc: "event_scan (flags e OR bits) (rev (registered e)) = ([?w], [], ?g)"
    using assms(5) by simp
  have gone: "?g AND bits \<noteq> bits"
  proof
    assume "?g AND bits = bits"
    moreover have "?g AND bits = 0" by (auto simp: bit_eq_iff bit_and_iff bit_not_iff)
    ultimately show False using assms(3) by simp
  qed
  show ?thesis
  proof (rule returns_mono [OF event_flags_set_scan [OF assms(1-3) sc]], goal_cases)
    case (1 x)
    then obtain e' s' where x: "x = (Some e', s')" "ev_ok e'" "flags e' = ?g" "registered e' = []"
      "made_ready [?w] s s'" "api_ok s s'" by (cases x) auto
    have inv: "sched_inv s'" using x(6) by (simp add: api_ok_def kernel_invD)
    have tc: "task_count s' = task_count s" and rdy: "state (tcb s' i) = TASK_READY"
      using x(5) assms(4) by (simp_all add: made_ready_def)
    have n: "waiter_count e' = 0" "length (waiters e') = 8"
      using x(2,4) by (auto simp: registered_def ev_ok_def)
    have "state (tcb (scheduler_set_current_task_state TASK_BLOCKED BLOCK_EVENT
        (s'\<lparr>current_task_index := int i\<rparr>)) i) = TASK_BLOCKED"
      using sched_invD(1,3,4) [OF inv] tc assms(4)
      by (simp add: scheduler_set_current_task_state_def set_task_state_tcb)
    then show ?case
      using x(1,3) n rdy gone assms(3)
      by (simp add: event_flags_wait_def Let_def RTOS_EVENT_MAX_WAITERS_def)
  qed
qed

theorem event_rewait_blocks_again_witness:
  "\<exists>e. returns (event_flags_set (Some e) 4 two_tasks) (\<lambda>(ef', s'). state (tcb s' 1) = TASK_READY \<and>
    returns (event_flags_wait ef' 4 (s'\<lparr>current_task_index := int 1\<rparr>))
      (\<lambda>(got, _, s''). \<not> got \<and> state (tcb s'' 1) = TASK_BLOCKED))"
proof -
  let ?e = "\<lparr>flags = 0, waiters = \<lparr>task_index = 1, required_mask = 4\<rparr> # replicate 7 no_waiter,
      waiter_count = 1\<rparr>"
  have "ev_ok ?e" "registered ?e = [\<lparr>task_index = int 1, required_mask = 4\<rparr>]"
    by (simp_all add: ev_ok_def registered_def)
  from event_rewait_blocks_again [OF this(1) kernel_inv_two_tasks(1) _ _ this(2)]
  show ?thesis using kernel_inv_two_tasks(2) by (intro exI [of _ ?e]) simp
qed

text \<open>
  C38: The wake-up of a registered waiter ignores what has become of the task meanwhile: a task
  that was suspended while it was registered becomes READY when its bits are set, as any other, although only
  \<open>rtos_resume_task\<close> should end a suspension.
\<close>

theorem event_set_ends_suspension:
  assumes "ev_ok e" and "kernel_inv s" and "bits \<noteq> 0" and "i < task_count s"
    and "registered e = [\<lparr>task_index = int i, required_mask = bits\<rparr>]"
    and "state (tcb s i) = TASK_SUSPENDED"
  shows "returns (event_flags_set (Some e) bits s) (\<lambda>(ef', s'). state (tcb s' i) = TASK_READY)"
proof -
  let ?w = "\<lparr>task_index = int i, required_mask = bits\<rparr>"
  have "satisfied (flags e OR bits) ?w"
    by (auto simp: satisfied_def bit_eq_iff bit_and_iff bit_or_iff)
  then have sc: "event_scan (flags e OR bits) (rev (registered e)) =
      ([?w], [], (flags e OR bits) AND NOT bits)"
    using assms(5) by simp
  show ?thesis
    by (rule returns_mono [OF event_flags_set_scan [OF assms(1-3) sc]])
      (use assms(4) in \<open>auto simp: made_ready_def\<close>)
qed

theorem event_set_ends_suspension_witness:
  "\<exists>e s. state (tcb (s :: kernel) 1) = TASK_SUSPENDED \<and>
     returns (event_flags_set (Some e) 4 s) (\<lambda>(ef', s'). state (tcb s' 1) = TASK_READY)"
proof -
  let ?e = "\<lparr>flags = 0, waiters = \<lparr>task_index = 1, required_mask = 4\<rparr> # replicate 7 no_waiter,
      waiter_count = 1\<rparr>"
  let ?s = "scheduler_set_task_state (int 1) TASK_SUSPENDED BLOCK_NONE two_tasks"
  have e: "ev_ok ?e" "registered ?e = [\<lparr>task_index = int 1, required_mask = 4\<rparr>]"
    by (simp_all add: ev_ok_def registered_def)
  note I = sched_invD [OF kernel_invD(1) [OF kernel_inv_two_tasks(1)]]
  have k: "kernel_inv ?s"
    using api_ok_set_task_state [OF kernel_inv_two_tasks(1), of TASK_SUSPENDED BLOCK_NONE "int 1"]
    by (simp add: api_ok_def)
  have st: "state (tcb ?s 1) = TASK_SUSPENDED"
    using I kernel_inv_two_tasks(2) by (simp add: set_task_state_tcb del: of_nat_1)
  have "1 < task_count ?s" using kernel_inv_two_tasks(2) by simp
  from event_set_ends_suspension [OF e(1) k _ this e(2) st] st show ?thesis
    by (intro exI [of _ ?e] exI [of _ ?s]) simp
qed

end
