(* ===== verification/App_Contract.thy ===== *)
theory App_Contract
  imports Sync Event_Flags
begin

text \<open>
  The kernel and an application together. \<open>api_step\<close> is one thing application code may do: a
  call of the public API, or a change of its own variables. The locale \<open>application\<close> asks that
  every task function and callback returns after finitely many such steps; in it the scheduling
  loop is proved never to fault and to keep the kernel invariant.
\<close>

section \<open>What application code does\<close>

inductive api_step :: "'a kernel_scheme \<Rightarrow> 'a kernel_scheme \<Rightarrow> bool" where
  own: "api_step s (kernel.more_update g s)"
| log: "api_step s (uart_log (App m xs) s)"
| create: "f \<noteq> 0 \<Longrightarrow> rtos_create_task nm prio f s = (r, s') \<Longrightarrow> api_step s s'"
| sleep: "INT_MIN < n \<Longrightarrow> n \<le> INT_MAX \<Longrightarrow> api_step s (rtos_task_sleep n s)"
| suspend: "rtos_suspend_task tid s = (r, s') \<Longrightarrow> api_step s s'"
| resume: "rtos_resume_task tid s = (r, s') \<Longrightarrow> api_step s s'"
| sem_wait: "rtos_sem_wait sem s = Inr (r, sem', s') \<Longrightarrow> api_step s s'"
| sem_signal: "rtos_sem_signal sem s = Inr (sem', s') \<Longrightarrow> api_step s s'"
| mutex_lock: "rtos_mutex_lock m s = Inr (r, m', s') \<Longrightarrow> api_step s s'"
| mutex_unlock: "rtos_mutex_unlock m s = Inr (m', s') \<Longrightarrow> api_step s s'"
| queue_send: "rtos_queue_send v q s = Inr (r, q', s') \<Longrightarrow> api_step s s'"
| queue_receive: "rtos_queue_receive q s = Inr (r, w, q', s') \<Longrightarrow> api_step s s'"
| event_set: "event_flags_set ef b s = Inr (ef', s') \<Longrightarrow> api_step s s'"
| event_clear: "event_flags_clear ef b s = (ef', s') \<Longrightarrow> api_step s s'"
| event_wait: "event_flags_wait ef b s = Inr (r, ef', s') \<Longrightarrow> api_step s s'"
| alloc: "k_memory_alloc s = Inr (q, s') \<Longrightarrow> api_step s s'"
| free: "api_step s (k_memory_free q s)"
| store: "i \<in> live_blocks (mem_pool s) \<Longrightarrow> api_step s (s\<lparr>mem_pool := pool_store i off b (mem_pool s)\<rparr>)"
| timer_create: "timer_soft_create nm' md period cb arg s = (h, s') \<Longrightarrow> api_step s s'"
| timer_start: "timer_soft_start h s = Inr s' \<Longrightarrow> api_step s s'"
| timer_stop: "timer_soft_stop h s = Inr s' \<Longrightarrow> api_step s s'"
| timer_delete: "timer_soft_delete h s = Inr s' \<Longrightarrow> api_step s s'"

lemma api_step_ok: "api_step s s' \<Longrightarrow> kernel_inv s \<Longrightarrow> api_ok s s'"
proof (induction rule: api_step.induct)
  case (create f nm prio s r s')
  then show ?case using rtos_create_task_ok by (metis snd_conv)
next
  case (suspend tid s r s')
  then show ?case using rtos_suspend_task_ok by (metis snd_conv)
next
  case (resume tid s r s')
  then show ?case using rtos_resume_task_ok by (metis snd_conv)
next
  case (event_clear ef b s ef' s')
  then show ?case using event_flags_clear_ok by (metis snd_conv)
next
  case (timer_create nm' md period cb arg s h s')
  then show ?case using timer_soft_create_ok by (metis snd_conv)
next
  case (alloc s q s')
  then show ?case using k_memory_alloc_ok [of s] by (simp add: returns_def)
next
  case (store i s off b)
  then show ?case
    using pool_step_inv [OF pool_step.store kernel_invD(5)] by (intro api_ok_pool) auto
qed (simp_all add: api_ok_more api_ok_refl rtos_task_sleep_ok k_memory_free_ok
    rtos_sem_wait_ok rtos_sem_signal_ok rtos_mutex_lock_ok rtos_mutex_unlock_ok rtos_queue_send_ok
    rtos_queue_receive_ok event_flags_set_ok event_flags_wait_ok timer_soft_start_ok
    timer_soft_stop_ok timer_soft_delete_ok)

abbreviation api_steps :: "'a kernel_scheme \<Rightarrow> 'a kernel_scheme \<Rightarrow> bool" where
  "api_steps \<equiv> api_step\<^sup>*\<^sup>*"

lemma api_steps_ok: "api_steps s s' \<Longrightarrow> kernel_inv s \<Longrightarrow> api_ok s s'"
proof (induction rule: rtranclp_induct)
  case base
  then show ?case by (rule api_ok_refl)
next
  case (step y z)
  then have "api_ok s y" by blast
  then show ?case by (rule api_ok_trans) (rule api_step_ok [OF step.hyps(2)])
qed

section \<open>What the kernel does on its own\<close>

text \<open>
  The moves of the kernel outside application code: they may change states, counters, contexts,
  the current index and the clock, and leave alone what an application can rely on.
\<close>

definition same_timer :: "SoftTimer \<Rightarrow> SoftTimer \<Rightarrow> bool" where
  "same_timer t u \<longleftrightarrow> callback u = callback t \<and> timer_arg u = timer_arg t \<and> in_use u = in_use t \<and>
     mode u = mode t \<and> period_ticks u = period_ticks t"

definition same_app :: "'a kernel_scheme \<Rightarrow> 'a kernel_scheme \<Rightarrow> bool" where
  "same_app s t \<longleftrightarrow> kernel.more t = kernel.more s \<and> mem_pool t = mem_pool s \<and>
     task_count t = task_count s \<and>
     (\<forall>i<task_count s. task_function (tcb t i) = task_function (tcb s i) \<and>
        priority (tcb t i) = priority (tcb s i) \<and> task_name (tcb t i) = task_name (tcb s i)) \<and>
     (\<forall>j<8. same_timer (g_soft_timers s ! j) (g_soft_timers t ! j))"

lemma same_app_refl: "same_app s s"
  by (simp add: same_app_def same_timer_def)

lemma same_app_trans: "same_app s t \<Longrightarrow> same_app t u \<Longrightarrow> same_app s u"
  by (simp add: same_app_def same_timer_def)

lemma same_app_log [simp]: "same_app s (uart_log m t) = same_app s t"
  by (simp add: same_app_def)

definition no_running :: "'a kernel_scheme \<Rightarrow> bool" where
  "no_running s \<longleftrightarrow> (\<forall>i<task_count s. state (tcb s i) \<noteq> TASK_RUNNING)"

lemma cycle_inv_alt: "kernel_inv s \<Longrightarrow> cycle_inv s \<longleftrightarrow> no_running s"
  by (simp add: cycle_inv_def no_running_def kernel_invD)

lemma no_running_log [simp]: "no_running (uart_log m s) = no_running s"
  by (simp add: no_running_def)

lemma no_running_api: "api_ok s t \<Longrightarrow> no_running s \<Longrightarrow> no_running t"
  unfolding api_ok_def kframe_def no_running_def by blast

lemma timer_tick_inv:
  assumes "kernel_inv s"
  shows "kernel_inv (timer_tick s)" and "same_app s (timer_tick s)"
    and "no_running (timer_tick s) = no_running s"
  using assms by (simp_all add: kernel_inv_def same_app_def same_timer_def no_running_def)

lemma sleep_tcb_fields:
  "task_function (sleep_tcb t) = task_function t" "priority (sleep_tcb t) = priority t"
  "task_name (sleep_tcb t) = task_name t" "stack_memory (sleep_tcb t) = stack_memory t"
  "state (sleep_tcb t) = TASK_RUNNING \<Longrightarrow> state t = TASK_RUNNING"
  by (auto simp: sleep_tcb_def sleeping_def split: if_splits)

text \<open>One move of the kernel: what the scheduling loop does between two calls of application code.\<close>

definition kmove :: "'a kernel_scheme \<Rightarrow> 'a kernel_scheme \<Rightarrow> bool" where
  "kmove s t \<longleftrightarrow> kernel_inv t \<and> same_app s t \<and> (no_running s \<longrightarrow> no_running t) \<and>
     g_kernel_tick t = g_kernel_tick s"

lemma sleep_loop_kmove:
  assumes "kernel_inv s"
  shows "returns (for_range 0 (task_count s) sleep_step s) (kmove s)"
proof (rule returns_mono [OF sleep_loop_spec [OF kernel_invD(1) [OF assms]]])
  fix t
  assume t: "sched_inv t \<and> sleep_frame s t \<and> length (task_list t) = length (task_list s) \<and>
    (\<forall>j. tcb t j = (if j < task_count s then sleep_tcb (tcb s j) else tcb s j)) \<and>
    rq_list t = rq_list s @ map int (filter (\<lambda>j. sleep_expires (tcb s j)) [0..<task_count s])"
  have tcb: "tcb t j = (if j < task_count s then sleep_tcb (tcb s j) else tcb s j)" for j
    using t by blast
  have "kernel_inv t"
    using t tcb by (intro kernel_invI [OF assms]) (simp_all add: sleep_tcb_fields sleep_frame_def)
  moreover have "no_running s \<longrightarrow> no_running t"
    using t tcb sleep_tcb_fields(5) by (auto simp: no_running_def sleep_frame_def)
  ultimately show "kmove s t"
    using t tcb by (simp add: kmove_def same_app_def same_timer_def sleep_tcb_fields sleep_frame_def)
qed

lemma kernel_inv_timers:
  assumes "kernel_inv s" and "length ts = 8" and "\<And>j. j < 8 \<Longrightarrow> same_timer (g_soft_timers s ! j) (ts ! j)"
    and "task_list t = task_list s" and "task_count t = task_count s" and "sched_inv t"
    and "g_soft_timers t = ts" and "mem_pool t = mem_pool s" and "kernel.more t = kernel.more s"
    and "g_kernel_tick t = g_kernel_tick s"
  shows "kmove s t"
proof -
  have "timer_ok (ts ! j)" if "j < 8" for j
    using assms(3) [OF that] kernel_invD(4) [OF assms(1) that] by (simp add: timer_ok_def same_timer_def)
  then show ?thesis
    using assms by (simp add: kmove_def kernel_inv_def same_app_def no_running_def)
qed

lemma soft_countdown_kmove:
  assumes "kernel_inv s"
  shows "kmove s (soft_countdown i s)"
proof (rule kernel_inv_timers [OF assms _ _ _ _ _ refl])
  fix j :: nat
  assume "j < 8"
  then show "same_timer (g_soft_timers s ! j) (g_soft_timers (soft_countdown i s) ! j)"
    using kernel_invD(3) [OF assms] by (cases "j = i") (simp_all add: soft_countdown_slots same_timer_def)
qed (use kernel_invD [OF assms] in \<open>simp_all add: soft_countdown_slots\<close>)

lemma soft_after_callback_kmove:
  assumes "kernel_inv s"
  shows "kmove s (soft_after_callback i s)"
proof (rule kernel_inv_timers [OF assms _ _ _ _ _ refl])
  fix j :: nat
  assume "j < 8"
  then show "same_timer (g_soft_timers s ! j) (g_soft_timers (soft_after_callback i s) ! j)"
    using kernel_invD(3) [OF assms]
    by (cases "j = i") (simp_all add: soft_after_callback_slots same_timer_def)
qed (use kernel_invD [OF assms] in \<open>simp_all add: soft_after_callback_slots soft_after_callback_def Let_def\<close>)

text \<open>The state in which the scan calls the callback of slot \<open>j\<close>.\<close>

definition calling :: "nat \<Rightarrow> 'a kernel_scheme \<Rightarrow> 'a kernel_scheme" where
  "calling j s =
     (let s1 = soft_countdown j s; t = g_soft_timers s1 ! j
      in uart_log (Timer (LogCallbackExecuting (g_kernel_tick s1) (timer_name t)))
           (uart_log (Timer (LogTimerExpired (g_kernel_tick s1) (timer_name t) (mode t))) s1))"

text \<open>A slot that does not fire is left alone or counts down.\<close>

lemma soft_step_quiet_eq:
  assumes "j < length (g_soft_timers s)" and "\<not> timer_fires (g_soft_timers s ! j)"
  shows "soft_step app j s =
    Inr (if in_use (g_soft_timers s ! j) \<and> active (g_soft_timers s ! j) then soft_countdown j s else s)"
proof -
  let ?t = "g_soft_timers s ! j"
  have "remaining (g_soft_timers (soft_countdown j s) ! j) \<noteq> 0" if "in_use ?t" "active ?t"
    using that assms by (auto simp: timer_fires_def word_le_1 soft_countdown_slots word_gt_0)
  then show ?thesis by (auto simp: soft_step_def Let_def)
qed

lemma scheduler_idle_kmove:
  assumes "kernel_inv s"
  shows "kmove s (scheduler_idle tick s)"
proof (cases "running_index s")
  case None
  then show ?thesis using assms by (simp add: scheduler_idle_def kmove_def same_app_refl)
next
  case (Some c)
  let ?t = "upd_tcb c (\<lambda>t. t\<lparr>slice_ticks_used := 0\<rparr>) s"
  note K = kernel_invD [OF assms]
  have c: "c < task_count s" using Some K(1) by (simp add: running_index_Some)
  have "sched_inv ?t"
    using sched_invD(10) [OF K(1) c] by (intro sched_inv_upd_tcb K(1)) (simp add: tcb_ok_def)
  moreover have core: "tcb_core (tcb ?t j) = tcb_core (tcb s j)" for j
    by (cases "j = c"; cases "c < length (task_list s)") (simp_all add: list_update_beyond)
  moreover have "stack_memory (tcb ?t j) = stack_memory (tcb s j)" for j
    by (cases "j = c"; cases "c < length (task_list s)") (simp_all add: list_update_beyond)
  ultimately have "kernel_inv ?t" "same_app s ?t" "no_running s \<longrightarrow> no_running ?t"
    using tcb_core_eqD(1-4) [OF core]
    by (auto intro!: kernel_invI [OF assms] simp: same_app_def same_timer_def no_running_def
        simp del: upd_tcb_fields(1))
  then show ?thesis using Some by (simp add: scheduler_idle_def kmove_def)
qed

lemma entered_kernel:
  assumes inv: "kernel_inv s" and d: "dispatchable i d" and core: "same_core i s d"
  shows "kernel_inv (entered i d)" and "same_app s (entered i d)"
    and "g_kernel_tick (entered i d) = g_kernel_tick s"
proof -
  note K = kernel_invD [OF inv] and I = sched_invD [OF kernel_invD(1) [OF inv]]
  have len: "length (task_list d) = 8" and tc: "task_count d = task_count s"
    and c: "\<And>j. j < 8 \<Longrightarrow> tcb_core (tcb d j) = tcb_core (tcb s j)"
    using core I(3) by (simp_all add: same_core_def)
  have e: "tcb (entered i d) j = (if j = i then tcb_to TASK_RUNNING BLOCK_NONE (tcb d j) else tcb d j)"
    if "j < 8" for j
    using that len by (simp add: entered_tasks [OF d])
  have sm: "stack_memory (tcb d j) = stack_memory (tcb s j)" if "j < 8" for j
    using c [OF that] by (cases "tcb d j"; cases "tcb s j"; simp add: tcb_core_def)
  show "kernel_inv (entered i d)"
    using e sm core by (intro kernel_invI [OF inv] sched_inv_entered d)
      (simp_all add: same_core_def entered_def)
  show "same_app s (entered i d)"
    using e tcb_core_eqD(2-4) [OF c] core I(4)
    by (simp add: same_app_def same_timer_def same_core_def entered_def)
  show "g_kernel_tick (entered i d) = g_kernel_tick s"
    using core by (simp add: same_core_def entered_def)
qed

section \<open>Applications that keep the contract\<close>

text \<open>
  \<open>app_inv n s\<close>: the application's own invariant, good for \<open>n\<close> more calls of its code (a counter
  may have to stay in range). It does not depend on what the kernel changes on its own. A task
  function called as the RUNNING current task, and a callback called for an armed timer, return
  after API steps.
\<close>

locale application =
  fixes app :: "'a kernel_scheme app"
    and app_inv :: "nat \<Rightarrow> 'a kernel_scheme \<Rightarrow> bool"
  assumes weaken: "app_inv (Suc n) s \<Longrightarrow> app_inv n s"
    and stable: "app_inv n s \<Longrightarrow> same_app s t \<Longrightarrow> app_inv n t"
    and task_runs: "kernel_inv s \<Longrightarrow> app_inv (Suc n) s \<Longrightarrow> rtos_current_task s = Some i \<Longrightarrow>
      state (tcb s i) = TASK_RUNNING \<Longrightarrow>
      returns (app_task app (task_function (tcb s i)) s) (\<lambda>s'. api_steps s s' \<and> app_inv n s')"
    and callback_runs: "kernel_inv s \<Longrightarrow> app_inv (Suc n) s \<Longrightarrow> j < 8 \<Longrightarrow>
      in_use (g_soft_timers s ! j) \<Longrightarrow> active (g_soft_timers s ! j) \<Longrightarrow>
      returns (app_callback app (callback (g_soft_timers s ! j)) (timer_arg (g_soft_timers s ! j)) s)
        (\<lambda>s'. api_steps s s' \<and> app_inv n s')"
begin

lemma weaken_add: "app_inv (k + n) s \<Longrightarrow> app_inv n s"
  by (induction k) (auto intro: weaken)

text \<open>What holds between two calls of application code, at tick \<open>tk\<close>.\<close>

definition quiet :: "32 word \<Rightarrow> nat \<Rightarrow> 'a kernel_scheme \<Rightarrow> bool" where
  "quiet tk n s \<longleftrightarrow> kernel_inv s \<and> no_running s \<and> app_inv n s \<and> g_kernel_tick s = tk"

lemma quiet_kmove: "quiet tk n s \<Longrightarrow> kmove s t \<Longrightarrow> quiet tk n t"
  by (auto simp: quiet_def kmove_def intro: stable)

lemma quiet_log: "quiet tk n s \<Longrightarrow> quiet tk n (uart_log m s)"
  using quiet_kmove [of tk n s "uart_log m s"] by (simp add: kmove_def same_app_refl quiet_def)

lemma quiet_api: "quiet tk n s \<Longrightarrow> api_steps s t \<Longrightarrow> app_inv m t \<Longrightarrow> quiet tk m t"
  using api_steps_ok [of s t] no_running_api [of s t]
  by (auto simp: quiet_def api_ok_def kframe_def)

text \<open>A slot that fires is one call of its callback, from the state \<open>calling j s\<close>.\<close>

lemma soft_step_calls:
  assumes q: "quiet tk (Suc n) s" and j: "j < 8" and f: "timer_fires (g_soft_timers s ! j)"
  shows "quiet tk (Suc n) (calling j s)"
    and "in_use (g_soft_timers (calling j s) ! j)" and "active (g_soft_timers (calling j s) ! j)"
    and "callback (g_soft_timers (calling j s) ! j) = callback (g_soft_timers s ! j)"
    and "timer_arg (g_soft_timers (calling j s) ! j) = timer_arg (g_soft_timers s ! j)"
    and "soft_step app j s = bindr
      (app_callback app (callback (g_soft_timers s ! j)) (timer_arg (g_soft_timers s ! j)) (calling j s))
      (\<lambda>s3. Inr (soft_after_callback j s3))"
proof -
  let ?t = "g_soft_timers s ! j"
  have inv: "kernel_inv s" using q by (simp add: quiet_def)
  have len: "j < length (g_soft_timers s)" using j kernel_invD(3) [OF inv] by simp
  have u: "in_use ?t" "active ?t" using f by (simp_all add: timer_fires_def)
  have nz: "callback ?t \<noteq> 0" using u kernel_invD(4) [OF inv j] by (simp add: timer_ok_def)
  note eq = soft_step_fire_eq [OF len f]
  have slots: "g_soft_timers (calling j s) = (g_soft_timers s)[j := ?t\<lparr>remaining := 0\<rparr>]"
    by (simp add: calling_def Let_def eq(2))
  show "quiet tk (Suc n) (calling j s)"
    unfolding calling_def Let_def
    by (intro quiet_log quiet_kmove [OF q soft_countdown_kmove [OF inv]])
  show "in_use (g_soft_timers (calling j s) ! j)" "active (g_soft_timers (calling j s) ! j)"
    "callback (g_soft_timers (calling j s) ! j) = callback ?t"
    "timer_arg (g_soft_timers (calling j s) ! j) = timer_arg ?t"
    using u len by (simp_all add: slots)
  show "soft_step app j s = bindr (app_callback app (callback ?t) (timer_arg ?t) (calling j s))
      (\<lambda>s3. Inr (soft_after_callback j s3))"
    using len nz eq(2) by (simp add: eq(1) soft_expire_def calling_def Let_def call_callback_def)
qed

lemma soft_step_quiet:
  assumes q: "quiet tk (Suc n) s" and j: "j < 8"
  shows "returns (soft_step app j s) (quiet tk n)"
proof (cases "timer_fires (g_soft_timers s ! j)")
  case False
  have inv: "kernel_inv s" using q by (simp add: quiet_def)
  have len: "j < length (g_soft_timers s)" using j kernel_invD(3) [OF inv] by simp
  have "quiet tk n s" "quiet tk n (soft_countdown j s)"
    using q quiet_kmove [OF q soft_countdown_kmove [OF inv]] weaken by (auto simp: quiet_def)
  with soft_step_quiet_eq [OF len False] show ?thesis by auto
next
  case True
  note C = soft_step_calls [OF q j True]
  have k: "kernel_inv (calling j s)" "app_inv (Suc n) (calling j s)" using C(1) by (simp_all add: quiet_def)
  have after: "quiet tk n (soft_after_callback j s3)" if "api_steps (calling j s) s3 \<and> app_inv n s3" for s3
  proof -
    have q3: "quiet tk n s3" using quiet_api [OF C(1)] that by blast
    then have "kernel_inv s3" by (simp add: quiet_def)
    from q3 soft_after_callback_kmove [OF this] show ?thesis by (rule quiet_kmove)
  qed
  show ?thesis
    unfolding C(6) by (rule returns_bindrI [OF callback_runs [OF k j C(2,3), unfolded C(4,5)]])
      (simp add: after)
qed

lemma timer_update_sleep_quiet:
  assumes q: "quiet tk (8 + n) s"
  shows "returns (timer_update_sleep app s) (quiet tk n)"
proof -
  have inv: "kernel_inv s" using q by (simp add: quiet_def)
  then have b: "timer_bound s" by (simp add: kernel_inv_def sched_inv_def)
  have soft: "returns (timer_update_soft app t) (quiet tk n)" if "quiet tk (8 + n) t" for t
  proof -
    have "returns (for_range 0 8 (soft_step app) t) (quiet tk (8 + n - (0 + 8)))"
    using that
  proof (intro for_range_returns [where P = "\<lambda>k. quiet tk (8 + n - k)"])
    fix k u
    assume k: "k < 0 + (8 :: nat)" "quiet tk (8 + n - k) u"
    have eq: "8 + n - k = Suc (8 + n - Suc k)" using k(1) by linarith
    have "quiet tk (Suc (8 + n - Suc k)) u" using k(2) unfolding eq .
    then show "returns (soft_step app k u) (quiet tk (8 + n - Suc k))"
      using k(1) by (intro soft_step_quiet) simp_all
  qed simp
    then show ?thesis by (simp add: timer_update_soft_def)
  qed
  have "returns (bindr (for_range 0 (task_count s) sleep_step s) (timer_update_soft app)) (quiet tk n)"
    by (rule returns_bindrI [OF sleep_loop_kmove [OF inv]]) (rule soft [OF quiet_kmove [OF q]])
  then show ?thesis using b by (simp add: timer_update_sleep_def)
qed

lemma run_task_quiet:
  assumes inv: "kernel_inv s" and d: "dispatchable i d" and core: "same_core i s d"
    and a: "app_inv (Suc n) s"
  shows "returns (run_task app tk' i d) (quiet (g_kernel_tick s) n)"
proof -
  note E = entered_kernel [OF inv d core]
  let ?e = "entered i d"
  define s2 where "s2 = uart_log (Sched (LogTaskRunning tk' i (task_name (tcb ?e i)) (stack_pointer (tcb ?e i))
      (ready_count ?e))) ?e"
  have i: "i < task_count d" "i < length (task_list d)" "current_task_index d = int i"
    using d by (simp_all add: dispatchable_def)
  have S: "kernel_inv s2" "app_inv (Suc n) s2" "rtos_current_task s2 = Some i"
    "state (tcb s2 i) = TASK_RUNNING" "task_function (tcb s2 i) \<noteq> 0" "g_kernel_tick s2 = g_kernel_tick s"
    using E i stable [OF a E(2)] stable [OF a, of s2] d
    by (simp_all add: s2_def entered_tasks [OF d] rtos_current_task_Some dispatchable_def tcb_ok_def)
      (simp_all add: entered_def)
  have "returns (app_task app (task_function (tcb s2 i)) s2) (\<lambda>s'. api_steps s2 s' \<and> app_inv n s')"
    by (rule task_runs [OF S(1-4)])
  moreover have "run_task app tk' i d = bindr (app_task app (task_function (tcb s2 i)) s2)
      (\<lambda>s3. let s4 = requeue_running i s3
            in Inr (uart_log (Sched (LogTaskState tk' (task_name (tcb s4 i)) (state (tcb s4 i)))) s4))"
    using S(5) by (simp add: run_task_def Let_def s2_def entered_def call_task_def)
  moreover have "quiet (g_kernel_tick s) n (requeue_running i s3)"
    if "api_steps s2 s3 \<and> app_inv n s3" for s3
  proof -
    have ok: "api_ok s2 s3" and a3: "app_inv n s3" using that api_steps_ok S(1) by blast+
    then have inv3: "kernel_inv s3" and t3: "g_kernel_tick s3 = g_kernel_tick s"
      and c3: "current_task_index s3 = int i"
      using S(3,6) by (simp_all add: api_ok_def kframe_def rtos_current_task_Some)
    note I = sched_invD [OF kernel_invD(1) [OF inv3]]
    have only: "j = i" if "j < task_count s3" "state (tcb s3 j) = TASK_RUNNING" for j
      using I(11) [OF that] c3 by simp
    show ?thesis
    proof (cases "state (tcb s3 i) = TASK_RUNNING")
      case False
      then show ?thesis using inv3 t3 a3 only by (auto simp: requeue_running_def quiet_def no_running_def)
    next
      case True
      let ?r = "scheduler_set_task_state (int i) TASK_READY BLOCK_NONE s3"
      have ok': "api_ok s3 ?r" by (rule api_ok_set_task_state [OF inv3]) simp_all
      have i3: "i < task_count s3" using I(9) c3 by simp
      have tl: "task_list ?r = (task_list s3)[i := tcb_to TASK_READY BLOCK_NONE (tcb s3 i)]"
        using I i3 by (simp add: set_task_state_tcb)
      have "no_running ?r"
        unfolding no_running_def
      proof (intro allI impI)
        fix j
        assume "j < task_count ?r"
        then show "state (tcb ?r j) \<noteq> TASK_RUNNING"
          using only [of j] I(3,4) by (cases "j = i") (auto simp: tl)
      qed
      moreover have "same_app s3 ?r"
        using ok' by (auto simp: same_app_def same_timer_def api_ok_def kframe_def dest: tcb_fixed_eqD)
      ultimately show ?thesis
        using True ok' t3 stable [OF a3] by (simp add: requeue_running_def quiet_def api_ok_def)
    qed
  qed
  then have "quiet (g_kernel_tick s) n (uart_log m (requeue_running i s3))"
    if "api_steps s2 s3 \<and> app_inv n s3" for s3 m
    using that by (intro quiet_log) blast
  ultimately show ?thesis by (simp add: Let_def) (erule returns_bindrI, simp)
qed

lemma decide_quiet:
  assumes q: "quiet tk (Suc n) s"
  shows "returns (scheduler_decide app s) (quiet tk n)"
proof -
  have inv: "kernel_inv s" and cyc: "cycle_inv s" and a: "app_inv (Suc n) s" and tk: "g_kernel_tick s = tk"
    using q by (simp_all add: quiet_def cycle_inv_alt)
  show ?thesis
  proof (cases "chosen s")
    case None
    have "quiet tk n s" using q weaken by (simp add: quiet_def)
    from quiet_kmove [OF this scheduler_idle_kmove [OF inv]] show ?thesis
      by (simp add: decide_idle [OF cyc None])
  next
    case (Some i)
    obtain d where d: "scheduler_decide app s = run_task app (timer_now s) i d" "same_core i s d" "dispatchable i d"
      using decide_runs [OF cyc Some] by blast
    from run_task_quiet [OF inv d(3,2) a] show ?thesis by (simp add: d(1) tk)
  qed
qed

lemma cycle_quiet:
  assumes "quiet tk (9 + n) s"
  shows "returns (scheduler_cycle app s) (quiet (tk + 1) n)"
proof -
  have "quiet (tk + 1) (8 + Suc n) (timer_tick s)"
    using assms stable [of "9 + n" s] timer_tick_inv [of s] by (simp add: quiet_def)
  from timer_update_sleep_quiet [OF this] show ?thesis
    unfolding scheduler_cycle_def by (rule returns_bindrI) (rule decide_quiet)
qed

lemma run_quiet:
  assumes "quiet tk (9 * nat max_ticks + n) s"
  shows "returns (scheduler_run app max_ticks s) (quiet (tk + of_nat (nat max_ticks)) n)"
proof -
  let ?T = "nat max_ticks"
  let ?P = "\<lambda>k. quiet (tk + of_nat k) (9 * (?T - k) + n)"
  have "returns (for_range 0 ?T (\<lambda>_. scheduler_cycle app) s) (?P (0 + ?T))"
  proof (rule for_range_returns)
    show "?P 0 s" using assms by simp
  next
    fix k t
    assume k: "k < 0 + ?T" and P: "?P k t"
    have "9 * (?T - k) + n = 9 + (9 * (?T - Suc k) + n)" using k by simp
    with P have "quiet (tk + of_nat k) (9 + (9 * (?T - Suc k) + n)) t" by (simp only:)
    from cycle_quiet [OF this] show "returns (scheduler_cycle app t) (?P (Suc k))"
      by (simp add: ac_simps)
  qed
  then show ?thesis by (simp add: scheduler_run_def)
qed

end

section \<open>Properties\<close>

text \<open>
  C1: Under any application that keeps the contract, the scheduling loop run for any number of
  ticks never faults (no null call, no access out of range, no overflow) and returns; the kernel
  invariant holds again, no task is left RUNNING, and the clock has advanced by exactly the
  number of ticks, modulo \<open>2 ^ 32\<close>.
\<close>

theorem scheduler_run_safe:
  assumes "application app app_inv" and "kernel_inv s" and "no_running s"
    and "app_inv (9 * nat max_ticks) s"
  shows "returns (scheduler_run app max_ticks s) (\<lambda>s'. kernel_inv s' \<and> no_running s' \<and>
    timer_now s' = timer_now s + of_nat (nat max_ticks))"
proof -
  note quiet = application.quiet_def [OF assms(1)]
  have "application.quiet app_inv (g_kernel_tick s) (9 * nat max_ticks + 0) s"
    using assms by (simp add: quiet)
  from application.run_quiet [OF assms(1) this] show ?thesis
    by (elim returns_mono) (simp add: quiet timer_now_def)
qed

end
