(* ===== verification/Protocols.thy ===== *)
theory Protocols
  imports App_Contract
begin

text \<open>
  The synchronisation objects under concurrency: any tasks call the operations of one object in
  any order, and between two calls the kernel and the other code may do anything that keeps the
  kernel invariant. A \<open>room\<close> is what the three kinds of object have in common: units to take,
  tasks blocked for one, and tasks woken that have not called again. One invariant of rooms,
  proved once, gives that no wake-up is lost for semaphores, mutexes and both ends of a queue.
\<close>

section \<open>Rooms\<close>

text \<open>The units available, the blocked tasks, the tasks woken and still to call again.\<close>

type_synonym room = "int \<times> nat set \<times> nat set"

inductive room_step :: "room \<Rightarrow> room \<Rightarrow> bool" where
  give_waiter: "w \<in> B \<Longrightarrow> room_step (c, B, P) (c + 1, B - {w}, insert w P)"
| give_nobody: "room_step (c, {}, P) (c + 1, {}, P)"
| take_unit: "c > 0 \<Longrightarrow> room_step (c, B, P) (c - 1, B, P - {i})"
| wait: "c \<le> 0 \<Longrightarrow> room_step (c, B, P) (c, insert i B, P - {i})"
| spend: "c \<le> 0 \<Longrightarrow> room_step (c, B, P) (c, B, P - {i})"
| leave: "B' \<subseteq> B \<Longrightarrow> room_step (c, B, P) (c, B', P)"

definition room_inv :: "room \<Rightarrow> bool" where
  "room_inv = (\<lambda>(c, B, P). 0 \<le> c \<and> finite P \<and> B \<inter> P = {} \<and> (B \<noteq> {} \<longrightarrow> c \<le> int (card P)))"

lemma room_step_inv: "room_step r r' \<Longrightarrow> room_inv r \<Longrightarrow> room_inv r'"
proof (induction rule: room_step.induct)
  case (give_waiter w B c P)
  moreover from this have "w \<notin> P" by (auto simp: room_inv_def)
  ultimately show ?case by (auto simp: room_inv_def)
next
  case (take_unit c B P i)
  then show ?case by (cases "i \<in> P") (auto simp: room_inv_def card_Diff_singleton)
qed (auto simp: room_inv_def)

text \<open>A system each of whose steps is a step of the room it is seen as.\<close>

locale waiting_room =
  fixes step :: "'w \<Rightarrow> 'w \<Rightarrow> bool"
    and ok :: "'w \<Rightarrow> bool"
    and room_of :: "'w \<Rightarrow> room"
  assumes keeps: "ok w \<Longrightarrow> step w v \<Longrightarrow> ok v"
    and simulates: "ok w \<Longrightarrow> step w v \<Longrightarrow> room_step (room_of w) (room_of v)"
begin

lemma reached:
  assumes "step\<^sup>*\<^sup>* w v" and "ok w" and "room_inv (room_of w)"
  shows "ok v" and "room_inv (room_of v)"
proof -
  from assms(1) have "ok v \<and> room_inv (room_of v)"
    by (induction rule: rtranclp_induct) (auto simp: assms(2,3) intro: keeps dest: simulates room_step_inv)
  then show "ok v" "room_inv (room_of v)" by simp_all
qed

lemma no_lost_wakeup:
  assumes "step\<^sup>*\<^sup>* w v" and "ok w" and "room_inv (room_of w)" and "room_of v = (c, B, P)" and "B \<noteq> {}"
  shows "c \<le> int (card P)"
  using reached(2) [OF assms(1-3)] assms(4,5) by (simp add: room_inv_def)

end

section \<open>The tasks blocked for a reason\<close>

definition blocked_set :: "BlockReason \<Rightarrow> 'a kernel_scheme \<Rightarrow> nat set" where
  "blocked_set r s = {i. i < task_count s \<and> state (tcb s i) = TASK_BLOCKED \<and> block_reason (tcb s i) = r}"

lemma blocked_set_log [simp]: "blocked_set r (uart_log m s) = blocked_set r s"
  by (simp add: blocked_set_def)

lemma finite_blocked_set [simp]: "finite (blocked_set r s)"
  by (simp add: blocked_set_def)

lemma blocked_set_wait:
  assumes inv: "sched_inv s" and cur: "rtos_current_task s = Some i"
  shows "blocked_set r (scheduler_set_current_task_state TASK_BLOCKED r s) = insert i (blocked_set r s)"
    and "q \<noteq> r \<Longrightarrow> blocked_set q (scheduler_set_current_task_state TASK_BLOCKED r s) \<subseteq> blocked_set q s"
proof -
  note I = sched_invD [OF inv]
  let ?t = "scheduler_set_current_task_state TASK_BLOCKED r s"
  have i: "i < task_count s" "i < length (task_list s)" using cur I(3,4) by (simp_all add: rtos_current_task_Some)
  have t: "task_list ?t = (task_list s)[i := tcb_to TASK_BLOCKED r (tcb s i)]" "task_count ?t = task_count s"
    using I i by (simp_all add: set_current_eq [OF inv cur] set_task_state_tcb)
  have e: "state (tcb ?t j) = TASK_BLOCKED \<and> block_reason (tcb ?t j) = q \<longleftrightarrow>
      (if j = i then q = r else state (tcb s j) = TASK_BLOCKED \<and> block_reason (tcb s j) = q)" for j q
    using i by (cases "j = i") (auto simp: t(1) tcb_to_def)
  show "blocked_set r ?t = insert i (blocked_set r s)"
    using i by (auto simp: blocked_set_def e t(2) split: if_splits)
  show "blocked_set q ?t \<subseteq> blocked_set q s" if "q \<noteq> r"
    using that by (auto simp: blocked_set_def e t(2) split: if_splits)
qed

lemma blocked_set_wake:
  assumes inv: "kernel_inv s" and step: "scheduler_unblock_one r (uart_log m s) = Inr t"
  shows "blocked_set r s = {} \<and> blocked_set r t = {} \<or>
      (\<exists>w\<in>blocked_set r s. blocked_set r t = blocked_set r s - {w})"
    and "q \<noteq> r \<Longrightarrow> blocked_set q t = blocked_set q s"
proof -
  note I = sched_invD [OF kernel_invD(1) [OF inv]]
  have w: "woken r s t" and tc: "task_count t = task_count s"
    using unblock_after_log [OF inv, of r m] step by simp_all
  have "(blocked_set r s = {} \<and> blocked_set r t = {} \<or>
      (\<exists>w\<in>blocked_set r s. blocked_set r t = blocked_set r s - {w})) \<and>
    (q \<noteq> r \<longrightarrow> blocked_set q t = blocked_set q s)"
  proof (cases "best_waiter r s")
    case None
    then have "task_list t = task_list s" using w by (simp add: woken_def)
    moreover have "blocked_set r s = {}" using None by (auto simp: best_waiter_None blocked_set_def)
    ultimately show ?thesis using tc by (simp add: blocked_set_def)
  next
    case (Some k)
    note W = best_waiterD [OF Some]
    have tl: "task_list t = (task_list s)[k := tcb_to TASK_READY BLOCK_NONE (tcb s k)]"
      using w Some by (simp add: woken_def)
    have k: "k < length (task_list s)" using W(1) I(3,4) by simp
    have e: "state (tcb t j) = TASK_BLOCKED \<and> block_reason (tcb t j) = p \<longleftrightarrow>
        j \<noteq> k \<and> state (tcb s j) = TASK_BLOCKED \<and> block_reason (tcb s j) = p" for j p
      using k by (cases "j = k") (auto simp: tl tcb_to_def)
    have "k \<in> blocked_set r s" "blocked_set r t = blocked_set r s - {k}"
      "q \<noteq> r \<Longrightarrow> blocked_set q t = blocked_set q s"
      using W(1-3) by (auto simp: blocked_set_def e tc)
    then show ?thesis by blast
  qed
  then show "blocked_set r s = {} \<and> blocked_set r t = {} \<or>
      (\<exists>w\<in>blocked_set r s. blocked_set r t = blocked_set r s - {w})"
    and "q \<noteq> r \<Longrightarrow> blocked_set q t = blocked_set q s" by blast+
qed

text \<open>A wake-up is a unit given to a room, the woken task counted as pending.\<close>

lemma room_give:
  assumes "kernel_inv s" and "scheduler_unblock_one r (uart_log m s) = Inr t"
  shows "room_step (c, blocked_set r s, P) (c + 1, blocked_set r t, P \<union> (blocked_set r s - blocked_set r t))"
  using blocked_set_wake(1) [OF assms]
proof (elim disjE conjE bexE)
  assume "blocked_set r s = {}" "blocked_set r t = {}"
  then show ?thesis using room_step.give_nobody by simp
next
  fix w
  assume w: "w \<in> blocked_set r s" "blocked_set r t = blocked_set r s - {w}"
  then have "P \<union> (blocked_set r s - blocked_set r t) = insert w P" by auto
  then show ?thesis using room_step.give_waiter [OF w(1), of c P] w(2) by simp
qed

section \<open>A semaphore\<close>

text \<open>
  \<open>(s, sem, P, taken, given)\<close>: the kernel, the semaphore, the pending tasks, and how many waits
  have succeeded and signals been made. \<open>E s s'\<close> is what may happen between two calls.
\<close>

type_synonym 'a sem_world = "'a kernel_scheme \<times> Semaphore \<times> nat set \<times> nat \<times> nat"

inductive sem_step :: "('a kernel_scheme \<Rightarrow> 'a kernel_scheme \<Rightarrow> bool) \<Rightarrow> 'a sem_world \<Rightarrow> 'a sem_world \<Rightarrow> bool"
  for E where
  acquired: "rtos_current_task s = Some i \<Longrightarrow> rtos_sem_wait sem s = Inr (True, sem', s') \<Longrightarrow>
    sem_step E (s, sem, P, n, g) (s', sem', P - {i}, Suc n, g)"
| blocked: "rtos_current_task s = Some i \<Longrightarrow> rtos_sem_wait sem s = Inr (False, sem', s') \<Longrightarrow>
    sem_step E (s, sem, P, n, g) (s', sem', P - {i}, n, g)"
| signal: "rtos_sem_signal sem s = Inr (sem', s') \<Longrightarrow> sem_step E (s, sem, P, n, g)
    (s', sem', P \<union> (blocked_set BLOCK_SEMAPHORE s - blocked_set BLOCK_SEMAPHORE s'), n, Suc g)"
| other: "kernel_inv s' \<Longrightarrow> E s s' \<Longrightarrow> sem_step E (s, sem, P, n, g) (s', sem, P, n, g)"

definition sem_ok :: "int \<Rightarrow> 'a sem_world \<Rightarrow> bool" where
  "sem_ok init = (\<lambda>(s, sem, P, n, g). kernel_inv s \<and> sem_count sem = init + int g - int n)"

definition sem_room :: "'a sem_world \<Rightarrow> room" where
  "sem_room = (\<lambda>(s, sem, P, n, g). (sem_count sem, blocked_set BLOCK_SEMAPHORE s, P))"

lemma sem_wait_room:
  assumes "kernel_inv s" and "rtos_current_task s = Some i" and "rtos_sem_wait sem s = Inr (got, sem', s')"
  shows "kernel_inv s'" and "got \<longleftrightarrow> sem_count sem > 0"
    and "sem_count sem' = sem_count sem - (if got then 1 else 0)"
    and "room_step (sem_count sem, blocked_set BLOCK_SEMAPHORE s, P)
      (sem_count sem', blocked_set BLOCK_SEMAPHORE s', P - {i})"
proof -
  show "kernel_inv s'" using rtos_sem_wait_ok [OF assms(1,3)] by (simp add: api_ok_def)
  show g: "got \<longleftrightarrow> sem_count sem > 0" "sem_count sem' = sem_count sem - (if got then 1 else 0)"
    using assms(2,3) by (auto simp: rtos_sem_wait_def Let_def split: if_splits)
  show "room_step (sem_count sem, blocked_set BLOCK_SEMAPHORE s, P)
      (sem_count sem', blocked_set BLOCK_SEMAPHORE s', P - {i})"
  proof (cases got)
    case True
    then have "blocked_set BLOCK_SEMAPHORE s' = blocked_set BLOCK_SEMAPHORE s"
      using assms(2,3) by (auto simp: rtos_sem_wait_def Let_def split: if_splits)
    then show ?thesis using True g room_step.take_unit [of "sem_count sem"] by simp
  next
    case False
    then have "blocked_set BLOCK_SEMAPHORE s' = insert i (blocked_set BLOCK_SEMAPHORE s)"
      using assms(2,3) blocked_set_wait(1) [OF kernel_invD(1) [OF assms(1)] assms(2)]
      by (auto simp: rtos_sem_wait_def Let_def split: if_splits)
    then show ?thesis using False g room_step.wait [of "sem_count sem"] by simp
  qed
qed

lemma sem_signal_room:
  assumes "kernel_inv s" and "rtos_sem_signal sem s = Inr (sem', s')"
  shows "kernel_inv s'" and "sem_count sem' = sem_count sem + 1"
    and "room_step (sem_count sem, blocked_set BLOCK_SEMAPHORE s, P) (sem_count sem', blocked_set BLOCK_SEMAPHORE s',
      P \<union> (blocked_set BLOCK_SEMAPHORE s - blocked_set BLOCK_SEMAPHORE s'))"
proof -
  show "kernel_inv s'" using rtos_sem_signal_ok [OF assms] by (simp add: api_ok_def)
  show c: "sem_count sem' = sem_count sem + 1"
    using assms(2) by (auto simp: rtos_sem_signal_def Let_def bindr_eq_Inr c_int_def split: if_splits)
  obtain m where "scheduler_unblock_one BLOCK_SEMAPHORE (uart_log m s) = Inr s'"
    using assms(2) by (auto simp: rtos_sem_signal_def Let_def bindr_eq_Inr)
  from room_give [OF assms(1) this] show "room_step (sem_count sem, blocked_set BLOCK_SEMAPHORE s, P)
    (sem_count sem', blocked_set BLOCK_SEMAPHORE s', P \<union> (blocked_set BLOCK_SEMAPHORE s - blocked_set BLOCK_SEMAPHORE s'))"
    by (simp add: c)
qed

text \<open>What the rest of the program may do: anything but block a task for the same reason.\<close>

definition elsewhere :: "BlockReason set \<Rightarrow> 'a kernel_scheme \<Rightarrow> 'a kernel_scheme \<Rightarrow> bool" where
  "elsewhere R s s' \<longleftrightarrow> (\<forall>r\<in>R. blocked_set r s' \<subseteq> blocked_set r s)"

lemma sem_step_ok:
  assumes "sem_step E w v" and "sem_ok init w"
  shows "sem_ok init v"
  using assms
proof cases
  case (acquired s i sem sem' s' P n g)
  then show ?thesis using assms(2) sem_wait_room(1,3) [of s i sem True sem' s'] by (simp add: sem_ok_def)
next
  case (blocked s i sem sem' s' P n g)
  then show ?thesis using assms(2) sem_wait_room(1,3) [of s i sem False sem' s'] by (simp add: sem_ok_def)
next
  case (signal sem s sem' s' P n g)
  then show ?thesis using assms(2) sem_signal_room(1,2) [of s sem sem' s'] by (simp add: sem_ok_def)
qed (simp add: sem_ok_def)

lemma sem_step_room:
  assumes "sem_step (elsewhere {BLOCK_SEMAPHORE}) w v" and "sem_ok init w"
  shows "room_step (sem_room w) (sem_room v)"
  using assms(1)
proof cases
  case (acquired s i sem sem' s' P n g)
  then show ?thesis using assms(2) sem_wait_room(4) [of s i sem True sem' s' P] by (simp add: sem_ok_def sem_room_def)
next
  case (blocked s i sem sem' s' P n g)
  then show ?thesis using assms(2) sem_wait_room(4) [of s i sem False sem' s' P] by (simp add: sem_ok_def sem_room_def)
next
  case (signal sem s sem' s' P n g)
  then show ?thesis using assms(2) sem_signal_room(3) [of s sem sem' s' P] by (simp add: sem_ok_def sem_room_def)
next
  case (other s' s sem P n g)
  then show ?thesis by (simp add: sem_room_def elsewhere_def room_step.leave)
qed

interpretation sem_rooms: waiting_room "sem_step (elsewhere {BLOCK_SEMAPHORE})" "sem_ok init" sem_room
  by unfold_locales (rule sem_step_ok, assumption+, rule sem_step_room, assumption+)

section \<open>A mutex\<close>

text \<open>
  \<open>(s, m, P, H)\<close>: \<open>H\<close> are the tasks whose last lock call returned true and that have not called
  unlock since: those in their critical section.
\<close>

type_synonym 'a lock_world = "'a kernel_scheme \<times> Mutex \<times> nat set \<times> nat set"

inductive lock_step :: "('a kernel_scheme \<Rightarrow> 'a kernel_scheme \<Rightarrow> bool) \<Rightarrow> 'a lock_world \<Rightarrow> 'a lock_world \<Rightarrow> bool"
  for E where
  acquired: "rtos_current_task s = Some i \<Longrightarrow> rtos_mutex_lock m s = Inr (True, m', s') \<Longrightarrow>
    lock_step E (s, m, P, H) (s', m', P - {i}, insert i H)"
| blocked: "rtos_current_task s = Some i \<Longrightarrow> rtos_mutex_lock m s = Inr (False, m', s') \<Longrightarrow>
    lock_step E (s, m, P, H) (s', m', P - {i}, H)"
| unlock: "rtos_current_task s = Some i \<Longrightarrow> rtos_mutex_unlock m s = Inr (m', s') \<Longrightarrow> lock_step E (s, m, P, H)
    (s', m', P \<union> (blocked_set BLOCK_MUTEX s - blocked_set BLOCK_MUTEX s'), H - {i})"
| other: "kernel_inv s' \<Longrightarrow> E s s' \<Longrightarrow> lock_step E (s, m, P, H) (s', m, P, H)"

definition lock_ok :: "'a lock_world \<Rightarrow> bool" where
  "lock_ok = (\<lambda>(s, m, P, H). kernel_inv s \<and> (if locked m then \<exists>i. H = {i} \<and> owner m = int i + 1 else H = {}))"

definition free_units :: "Mutex \<Rightarrow> int" where
  "free_units m = (if locked m then 0 else 1)"

definition lock_room :: "'a lock_world \<Rightarrow> room" where
  "lock_room = (\<lambda>(s, m, P, H). (free_units m, blocked_set BLOCK_MUTEX s, P))"

lemma current_id:
  assumes "kernel_inv s" and "rtos_current_task s = Some i"
  shows "task_id (tcb s i) = int i + 1"
  using sched_invD(10) [OF kernel_invD(1) [OF assms(1)], of i] assms(2)
  by (simp add: rtos_current_task_Some tcb_ok_def)

lemma mutex_lock_room:
  assumes "kernel_inv s" and "rtos_current_task s = Some i" and "rtos_mutex_lock m s = Inr (got, m', s')"
  shows "kernel_inv s'" and "got \<longleftrightarrow> \<not> locked m \<or> owner m = int i + 1"
    and "if got then locked m' \<and> owner m' = int i + 1 else m' = m"
    and "room_step (free_units m, blocked_set BLOCK_MUTEX s, P) (free_units m', blocked_set BLOCK_MUTEX s', P - {i})"
proof -
  note id = current_id [OF assms(1,2)]
  show "kernel_inv s'" using rtos_mutex_lock_ok [OF assms(1,3)] by (simp add: api_ok_def)
  show "got \<longleftrightarrow> \<not> locked m \<or> owner m = int i + 1" "if got then locked m' \<and> owner m' = int i + 1 else m' = m"
    using assms(2,3) id by (auto simp: rtos_mutex_lock_def Let_def split: if_splits)
  consider "\<not> locked m" | "locked m" "owner m = int i + 1" | "locked m" "owner m \<noteq> int i + 1" by blast
  then show "room_step (free_units m, blocked_set BLOCK_MUTEX s, P)
    (free_units m', blocked_set BLOCK_MUTEX s', P - {i})"
  proof cases
    case 1
    then have "locked m'" "blocked_set BLOCK_MUTEX s' = blocked_set BLOCK_MUTEX s"
      using assms(2,3) by (auto simp: rtos_mutex_lock_def Let_def)
    then show ?thesis using 1 room_step.take_unit [of 1] by (simp add: free_units_def)
  next
    case 2
    then have "m' = m" "s' = s" using assms(2,3) id by (auto simp: rtos_mutex_lock_def)
    then show ?thesis using 2 room_step.spend [of 0] by (simp add: free_units_def)
  next
    case 3
    then have "m' = m" "blocked_set BLOCK_MUTEX s' = insert i (blocked_set BLOCK_MUTEX s)"
      using assms(2,3) id blocked_set_wait(1) [OF kernel_invD(1) [OF assms(1)] assms(2)]
      by (auto simp: rtos_mutex_lock_def Let_def)
    then show ?thesis using 3 room_step.wait [of 0] by (simp add: free_units_def)
  qed
qed

lemma mutex_unlock_room:
  assumes "kernel_inv s" and "rtos_current_task s = Some i" and "rtos_mutex_unlock m s = Inr (m', s')"
  shows "kernel_inv s'" and "if locked m \<and> owner m = int i + 1 then \<not> locked m' else m' = m"
    and "room_step (free_units m, blocked_set BLOCK_MUTEX s, P) (free_units m', blocked_set BLOCK_MUTEX s',
      P \<union> (blocked_set BLOCK_MUTEX s - blocked_set BLOCK_MUTEX s'))"
proof -
  note id = current_id [OF assms(1,2)]
  show "kernel_inv s'" using rtos_mutex_unlock_ok [OF assms(1,3)] by (simp add: api_ok_def)
  show "if locked m \<and> owner m = int i + 1 then \<not> locked m' else m' = m"
    using assms(2,3) id by (auto simp: rtos_mutex_unlock_def Let_def bindr_eq_Inr split: if_splits)
  show "room_step (free_units m, blocked_set BLOCK_MUTEX s, P) (free_units m', blocked_set BLOCK_MUTEX s',
      P \<union> (blocked_set BLOCK_MUTEX s - blocked_set BLOCK_MUTEX s'))"
  proof (cases "locked m \<and> owner m = int i + 1")
    case True
    then obtain l where "scheduler_unblock_one BLOCK_MUTEX (uart_log l s) = Inr s'" "\<not> locked m'"
      using assms(2,3) id by (auto simp: rtos_mutex_unlock_def Let_def bindr_eq_Inr)
    with room_give [OF assms(1) this(1), of 0 P] True show ?thesis by (simp add: free_units_def)
  next
    case False
    then have "m' = m" "blocked_set BLOCK_MUTEX s' = blocked_set BLOCK_MUTEX s"
      using assms(2,3) id by (auto simp: rtos_mutex_unlock_def Let_def bindr_eq_Inr split: if_splits)
    then show ?thesis by (simp add: room_step.leave)
  qed
qed

lemma lock_step_ok:
  assumes "lock_step E w v" and "lock_ok w"
  shows "lock_ok v"
  using assms
proof cases
  case (acquired s i m m' s' P H)
  then show ?thesis using assms(2) mutex_lock_room(1-3) [of s i m True m' s'] by (auto simp: lock_ok_def split: if_splits)
next
  case (blocked s i m m' s' P H)
  then show ?thesis using assms(2) mutex_lock_room(1-3) [of s i m False m' s'] by (simp add: lock_ok_def)
next
  case (unlock s i m m' s' P H)
  then show ?thesis using assms(2) mutex_unlock_room(1,2) [of s i m m' s'] by (auto simp: lock_ok_def split: if_splits)
qed (simp add: lock_ok_def)

lemma lock_step_room:
  assumes "lock_step (elsewhere {BLOCK_MUTEX}) w v" and "lock_ok w"
  shows "room_step (lock_room w) (lock_room v)"
  using assms(1)
proof cases
  case (acquired s i m m' s' P H)
  then show ?thesis using assms(2) mutex_lock_room(4) [of s i m True m' s' P] by (simp add: lock_ok_def lock_room_def)
next
  case (blocked s i m m' s' P H)
  then show ?thesis using assms(2) mutex_lock_room(4) [of s i m False m' s' P] by (simp add: lock_ok_def lock_room_def)
next
  case (unlock s i m m' s' P H)
  then show ?thesis using assms(2) mutex_unlock_room(3) [of s i m m' s' P] by (simp add: lock_ok_def lock_room_def)
next
  case (other s' s m P H)
  then show ?thesis by (simp add: lock_room_def elsewhere_def room_step.leave)
qed

interpretation lock_rooms: waiting_room "lock_step (elsewhere {BLOCK_MUTEX})" lock_ok lock_room
  by unfold_locales (rule lock_step_ok, assumption+, rule lock_step_room, assumption+)

section \<open>A message queue\<close>

text \<open>
  \<open>(s, q, R, S, sent, got)\<close>: the receivers and the senders woken and still to call again, the
  values whose send has succeeded and the values received, both in order. A queue is two rooms:
  the messages, which receivers take, and the free places, which senders take.
\<close>

type_synonym 'a queue_world =
  "'a kernel_scheme \<times> MessageQueue \<times> nat set \<times> nat set \<times> int list \<times> int list"

inductive queue_step :: "('a kernel_scheme \<Rightarrow> 'a kernel_scheme \<Rightarrow> bool) \<Rightarrow> 'a queue_world \<Rightarrow> 'a queue_world \<Rightarrow> bool"
  for E where
  sent: "rtos_current_task s = Some i \<Longrightarrow> rtos_queue_send v q s = Inr (True, q', s') \<Longrightarrow>
    queue_step E (s, q, R, S, xs, ys)
      (s', q', R \<union> (blocked_set BLOCK_QUEUE_EMPTY s - blocked_set BLOCK_QUEUE_EMPTY s'), S - {i}, xs @ [v], ys)"
| full: "rtos_current_task s = Some i \<Longrightarrow> rtos_queue_send v q s = Inr (False, q', s') \<Longrightarrow>
    queue_step E (s, q, R, S, xs, ys) (s', q', R, S - {i}, xs, ys)"
| received: "rtos_current_task s = Some i \<Longrightarrow> rtos_queue_receive q s = Inr (True, Some v, q', s') \<Longrightarrow>
    queue_step E (s, q, R, S, xs, ys)
      (s', q', R - {i}, S \<union> (blocked_set BLOCK_QUEUE_FULL s - blocked_set BLOCK_QUEUE_FULL s'), xs, ys @ [v])"
| empty: "rtos_current_task s = Some i \<Longrightarrow> rtos_queue_receive q s = Inr (False, w, q', s') \<Longrightarrow>
    queue_step E (s, q, R, S, xs, ys) (s', q', R - {i}, S, xs, ys)"
| other: "kernel_inv s' \<Longrightarrow> E s s' \<Longrightarrow> queue_step E (s, q, R, S, xs, ys) (s', q, R, S, xs, ys)"

definition queue_ok :: "'a queue_world \<Rightarrow> bool" where
  "queue_ok = (\<lambda>(s, q, R, S, xs, ys). kernel_inv s \<and> mq_ok q \<and> xs = ys @ mq_contents q)"

definition message_room :: "'a queue_world \<Rightarrow> room" where
  "message_room = (\<lambda>(s, q, R, S, xs, ys). (mq_count q, blocked_set BLOCK_QUEUE_EMPTY s, R))"

definition place_room :: "'a queue_world \<Rightarrow> room" where
  "place_room = (\<lambda>(s, q, R, S, xs, ys). (10 - mq_count q, blocked_set BLOCK_QUEUE_FULL s, S))"

text \<open>What a successful call has done: a unit given to one room and taken from the other.\<close>

lemma wake_one_room:
  assumes "kernel_inv s" and "scheduler_unblock_one r (uart_log m s) = Inr s'" and "q \<noteq> r" and "c > 0"
  shows "room_step (d, blocked_set r s, P) (d + 1, blocked_set r s', P \<union> (blocked_set r s - blocked_set r s'))"
    and "room_step (c, blocked_set q s, Q) (c - 1, blocked_set q s', Q - {i})"
  using room_give [OF assms(1,2)] blocked_set_wake(2) [OF assms(1-3)] room_step.take_unit [OF assms(4)]
  by simp_all

text \<open>And a call that blocks: a task added to one room, perhaps gone from the other.\<close>

lemma wait_one_room:
  assumes "kernel_inv s" and "rtos_current_task s = Some i" and "q \<noteq> r" and "c \<le> 0"
    and "s' = uart_log m (scheduler_set_current_task_state TASK_BLOCKED r s)"
  shows "room_step (c, blocked_set r s, P) (c, blocked_set r s', P - {i})"
    and "room_step (d, blocked_set q s, Q) (d, blocked_set q s', Q)"
proof -
  note w = blocked_set_wait [OF kernel_invD(1) [OF assms(1)] assms(2), where r = r]
  show "room_step (c, blocked_set r s, P) (c, blocked_set r s', P - {i})"
    using room_step.wait [OF assms(4)] w(1) assms(5) by simp
  show "room_step (d, blocked_set q s, Q) (d, blocked_set q s', Q)"
    using room_step.leave [OF w(2) [OF assms(3)]] assms(5) by simp
qed

lemma queue_send_room:
  assumes "kernel_inv s" and "rtos_current_task s = Some i" and "mq_ok q"
    and "rtos_queue_send v q s = Inr (ok, q', s')"
  shows "kernel_inv s' \<and> mq_ok q' \<and> mq_contents q' = mq_contents q @ (if ok then [v] else [])"
    and "room_step (mq_count q, blocked_set BLOCK_QUEUE_EMPTY s, R) (mq_count q', blocked_set BLOCK_QUEUE_EMPTY s',
      if ok then R \<union> (blocked_set BLOCK_QUEUE_EMPTY s - blocked_set BLOCK_QUEUE_EMPTY s') else R)"
    and "room_step (10 - mq_count q, blocked_set BLOCK_QUEUE_FULL s, S)
      (10 - mq_count q', blocked_set BLOCK_QUEUE_FULL s', S - {i})"
proof -
  have k: "kernel_inv s'" using rtos_queue_send_ok [OF assms(1,4)] by (simp add: api_ok_def)
  have "(mq_ok q' \<and> mq_contents q' = mq_contents q @ (if ok then [v] else [])) \<and>
    room_step (mq_count q, blocked_set BLOCK_QUEUE_EMPTY s, R) (mq_count q', blocked_set BLOCK_QUEUE_EMPTY s',
      if ok then R \<union> (blocked_set BLOCK_QUEUE_EMPTY s - blocked_set BLOCK_QUEUE_EMPTY s') else R) \<and>
    room_step (10 - mq_count q, blocked_set BLOCK_QUEUE_FULL s, S)
      (10 - mq_count q', blocked_set BLOCK_QUEUE_FULL s', S - {i})"
  proof (cases "mq_count q = 10")
    case True
    then obtain m where e: "\<not> ok" "q' = q" "s' = uart_log m (scheduler_set_current_task_state TASK_BLOCKED BLOCK_QUEUE_FULL s)"
      using assms(2,4) by (auto simp: rtos_queue_send_def Let_def)
    from wait_one_room [OF assms(1,2) _ order.refl e(3), of BLOCK_QUEUE_EMPTY] True e(1,2) assms(3)
    show ?thesis by simp
  next
    case False
    obtain p where p: "mq_put v q = Inr p" "mq_ok p" "mq_contents p = mq_contents q @ [v]"
      using mq_put_ok [OF assms(3), of v] False by (auto simp: mq_full_def elim: returnsE)
    have n: "mq_count p = mq_count q + 1"
      unfolding mq_count_length [OF assms(3)] mq_count_length [OF p(2)] p(3) by simp
    obtain m where e: "ok" "q' = p" "scheduler_unblock_one BLOCK_QUEUE_EMPTY (uart_log m s) = Inr s'"
      using assms(2,4) False p(1) by (auto simp: rtos_queue_send_def bindr_eq_Inr)
    have "10 - mq_count q > 0" using False assms(3) by (simp add: mq_ok_def)
    from wake_one_room [OF assms(1) e(3) _ this, of BLOCK_QUEUE_FULL] n p(2,3) e(1,2)
    show ?thesis by simp
  qed
  with k show "kernel_inv s' \<and> mq_ok q' \<and> mq_contents q' = mq_contents q @ (if ok then [v] else [])"
    and "room_step (mq_count q, blocked_set BLOCK_QUEUE_EMPTY s, R) (mq_count q', blocked_set BLOCK_QUEUE_EMPTY s',
      if ok then R \<union> (blocked_set BLOCK_QUEUE_EMPTY s - blocked_set BLOCK_QUEUE_EMPTY s') else R)"
    and "room_step (10 - mq_count q, blocked_set BLOCK_QUEUE_FULL s, S)
      (10 - mq_count q', blocked_set BLOCK_QUEUE_FULL s', S - {i})"
    by blast+
qed

lemma queue_receive_room:
  assumes "kernel_inv s" and "rtos_current_task s = Some i" and "mq_ok q"
    and "rtos_queue_receive q s = Inr (ok, w, q', s')"
  shows "kernel_inv s' \<and> mq_ok q' \<and> mq_contents q = (if ok then [the w] else []) @ mq_contents q'"
    and "room_step (mq_count q, blocked_set BLOCK_QUEUE_EMPTY s, R)
      (mq_count q', blocked_set BLOCK_QUEUE_EMPTY s', R - {i})"
    and "room_step (10 - mq_count q, blocked_set BLOCK_QUEUE_FULL s, S) (10 - mq_count q', blocked_set BLOCK_QUEUE_FULL s',
      if ok then S \<union> (blocked_set BLOCK_QUEUE_FULL s - blocked_set BLOCK_QUEUE_FULL s') else S)"
proof -
  have k: "kernel_inv s'" using rtos_queue_receive_ok [OF assms(1,4)] by (simp add: api_ok_def)
  have "(mq_ok q' \<and> mq_contents q = (if ok then [the w] else []) @ mq_contents q') \<and>
    room_step (mq_count q, blocked_set BLOCK_QUEUE_EMPTY s, R)
      (mq_count q', blocked_set BLOCK_QUEUE_EMPTY s', R - {i}) \<and>
    room_step (10 - mq_count q, blocked_set BLOCK_QUEUE_FULL s, S) (10 - mq_count q', blocked_set BLOCK_QUEUE_FULL s',
      if ok then S \<union> (blocked_set BLOCK_QUEUE_FULL s - blocked_set BLOCK_QUEUE_FULL s') else S)"
  proof (cases "mq_count q = 0")
    case True
    then obtain m where e: "\<not> ok" "q' = q" "s' = uart_log m (scheduler_set_current_task_state TASK_BLOCKED BLOCK_QUEUE_EMPTY s)"
      using assms(2,4) by (auto simp: rtos_queue_receive_def Let_def)
    from wait_one_room [OF assms(1,2) _ order.refl e(3), of BLOCK_QUEUE_FULL] True e(1,2) assms(3)
    show ?thesis by simp
  next
    case False
    obtain x p where p: "mq_take q = Inr (x, p)" "mq_ok p" "mq_contents q = x # mq_contents p"
      using mq_take_ok [OF assms(3)] False by (auto simp: mq_empty_def elim!: returnsE)
    have n: "mq_count q = mq_count p + 1"
      unfolding mq_count_length [OF assms(3)] mq_count_length [OF p(2)] p(3) by simp
    obtain m where e: "ok" "q' = p" "w = Some x" "scheduler_unblock_one BLOCK_QUEUE_FULL (uart_log m s) = Inr s'"
      using assms(2,4) False p(1) by (auto simp: rtos_queue_receive_def bindr_eq_Inr)
    have "mq_count q > 0" using False assms(3) by (simp add: mq_ok_def)
    note wake = wake_one_room [OF assms(1) e(4) _ this, of BLOCK_QUEUE_EMPTY]
    have d: "10 - mq_count p = (10 - mq_count q) + 1" "mq_count p = mq_count q - 1" using n by simp_all
    show ?thesis
      using wake(1) [where d = "10 - mq_count q"] wake(2) p(2,3) e(1,3) unfolding e(2) d by simp
  qed
  with k show "kernel_inv s' \<and> mq_ok q' \<and> mq_contents q = (if ok then [the w] else []) @ mq_contents q'"
    and "room_step (mq_count q, blocked_set BLOCK_QUEUE_EMPTY s, R)
      (mq_count q', blocked_set BLOCK_QUEUE_EMPTY s', R - {i})"
    and "room_step (10 - mq_count q, blocked_set BLOCK_QUEUE_FULL s, S) (10 - mq_count q', blocked_set BLOCK_QUEUE_FULL s',
      if ok then S \<union> (blocked_set BLOCK_QUEUE_FULL s - blocked_set BLOCK_QUEUE_FULL s') else S)"
    by blast+
qed

lemma queue_step_ok:
  assumes "queue_step E w v" and "queue_ok w"
  shows "queue_ok v"
  using assms
proof cases
  case (sent s i v q q' s' R S xs ys)
  then show ?thesis using assms(2) queue_send_room(1) [of s i q v True q' s'] by (simp add: queue_ok_def)
next
  case (full s i v q q' s' R S xs ys)
  then show ?thesis using assms(2) queue_send_room(1) [of s i q v False q' s'] by (simp add: queue_ok_def)
next
  case (received s i q v q' s' R S xs ys)
  then show ?thesis using assms(2) queue_receive_room(1) [of s i q True "Some v" q' s'] by (simp add: queue_ok_def)
next
  case (empty s i q w q' s' R S xs ys)
  then show ?thesis using assms(2) queue_receive_room(1) [of s i q False w q' s'] by (simp add: queue_ok_def)
qed (simp add: queue_ok_def)

lemma queue_step_rooms:
  assumes "queue_step (elsewhere {BLOCK_QUEUE_EMPTY, BLOCK_QUEUE_FULL}) w v" and "queue_ok w"
  shows "room_step (message_room w) (message_room v) \<and> room_step (place_room w) (place_room v)"
  using assms(1)
proof cases
  case (sent s i v q q' s' R S xs ys)
  then show ?thesis using assms(2) queue_send_room(2,3) [of s i q v True q' s']
    by (simp add: queue_ok_def message_room_def place_room_def)
next
  case (full s i v q q' s' R S xs ys)
  then show ?thesis using assms(2) queue_send_room(2,3) [of s i q v False q' s']
    by (simp add: queue_ok_def message_room_def place_room_def)
next
  case (received s i q v q' s' R S xs ys)
  then show ?thesis using assms(2) queue_receive_room(2,3) [of s i q True "Some v" q' s']
    by (simp add: queue_ok_def message_room_def place_room_def)
next
  case (empty s i q w q' s' R S xs ys)
  then show ?thesis using assms(2) queue_receive_room(2,3) [of s i q False w q' s']
    by (simp add: queue_ok_def message_room_def place_room_def)
next
  case (other s' s q R S xs ys)
  then show ?thesis by (simp add: message_room_def place_room_def elsewhere_def room_step.leave)
qed

interpretation message_rooms:
    waiting_room "queue_step (elsewhere {BLOCK_QUEUE_EMPTY, BLOCK_QUEUE_FULL})" queue_ok message_room
  by unfold_locales (rule queue_step_ok, assumption+, blast dest: queue_step_rooms)

interpretation place_rooms:
    waiting_room "queue_step (elsewhere {BLOCK_QUEUE_EMPTY, BLOCK_QUEUE_FULL})" queue_ok place_room
  by unfold_locales (rule queue_step_ok, assumption+, blast dest: queue_step_rooms)

section \<open>What every other part of the program may do\<close>

text \<open>
  The \<open>other\<close> steps above cover whatever keeps the kernel invariant: the moves of the kernel
  itself between two calls of application code, and every call of the public API. Creating a
  task blocks nobody.
\<close>

lemma kmove_other: "kmove s t \<Longrightarrow> sem_step (\<lambda>_ _. True) (s, sem, P, n, g) (t, sem, P, n, g)"
  by (rule sem_step.other) (simp_all add: kmove_def)

lemma api_step_other: "kernel_inv s \<Longrightarrow> api_step s t \<Longrightarrow> sem_step (\<lambda>_ _. True) (s, sem, P, n, g) (t, sem, P, n, g)"
  using api_step_ok by (intro sem_step.other) (auto simp: api_ok_def)

lemma blocked_set_create:
  assumes inv: "kernel_inv s" and f: "f \<noteq> 0"
  shows "blocked_set r (snd (rtos_create_task nm prio f s)) = blocked_set r s"
proof (cases "task_count s < 8")
  case False
  then show ?thesis by (simp add: rtos_create_task_def)
next
  case True
  note I = sched_invD [OF kernel_invD(1) [OF inv]]
  let ?n = "task_count s" and ?c = "created_tcb (task_count s) nm prio f"
  let ?w = "with_task ?c s"
  have "task_list (scheduler_set_task_state (int ?n) TASK_READY BLOCK_NONE ?w) =
      (task_list s)[?n := tcb_to TASK_READY BLOCK_NONE ?c]"
    using I True by (simp add: set_task_state_tcb with_task_def)
  then show ?thesis
    using I(3) True by (auto simp: create_ok_eq [OF inv True] blocked_set_def with_task_def less_Suc_eq nth_list_update)
qed

text \<open>The turn passing to task \<open>i\<close>, as far as the objects are concerned.\<close>

definition turn :: "nat \<Rightarrow> 'a kernel_scheme \<Rightarrow> 'a kernel_scheme" where
  "turn i s = s\<lparr>current_task_index := int i\<rparr>"

definition calling_out :: "nat \<Rightarrow> 'a kernel_scheme \<Rightarrow> bool" where
  "calling_out i s \<longleftrightarrow> kernel_inv s \<and> no_running s \<and> task_count s = 3 \<and> rtos_current_task s = Some i"

lemma turn_calling:
  assumes "kernel_inv s" and "no_running s" and "task_count s = 3" and "i < 3"
  shows "calling_out i (turn i s)" and "blocked_set r (turn i s) = blocked_set r s"
  using assms by (auto simp: calling_out_def turn_def kernel_inv_def sched_inv_def no_running_def rtos_current_task_def
      rq_wf_def rq_list_def ready_set_def blocked_set_def)

lemma calling_api:
  assumes "calling_out i s" and "api_step s t" and "task_count t = task_count s"
  shows "kernel_inv t" and "no_running t" and "task_count t = 3"
  using assms api_step_ok [OF assms(2)] no_running_api [of s t] by (auto simp: calling_out_def api_ok_def)

definition three_tasks :: kernel where
  "three_tasks = snd (rtos_create_task ''C'' 3 11 two_tasks)"

lemma three_tasks:
  "kernel_inv three_tasks" "no_running three_tasks" "task_count three_tasks = 3" "blocked_set r three_tasks = {}"
proof -
  let ?s0 = "rtos_init (boot 4096 ())"
  let ?s1 = "snd (rtos_create_task ''A'' 2 7 ?s0)"
  have k0: "kernel_inv ?s0" by (intro rtos_init_inv statics_shape_boot) simp
  have c0: "task_count ?s0 = 0"
    by (simp add: rtos_init_def k_memory_init_def scheduler_init_def timer_init_def split: prod.split)
  have ok1: "api_ok ?s0 ?s1" and ok2: "api_ok ?s1 two_tasks" and ok3: "api_ok two_tasks three_tasks"
    using rtos_create_task_ok [OF k0, of 7] rtos_create_task_ok [of ?s1 9] kernel_inv_two_tasks(1)
      rtos_create_task_ok [of two_tasks 11]
    by (simp_all add: two_tasks_def three_tasks_def api_ok_def)
  show "kernel_inv three_tasks" using ok3 by (simp add: api_ok_def)
  have "no_running ?s0" using c0 by (simp add: no_running_def)
  then show "no_running three_tasks" using no_running_api ok1 ok2 ok3 by blast
  show "task_count three_tasks = 3"
    using kernel_inv_two_tasks(1,2) by (simp add: three_tasks_def create_ok_eq) (simp add: with_task_def)
  have "blocked_set r ?s0 = {}" using c0 by (simp add: blocked_set_def)
  then show "blocked_set r three_tasks = {}"
    using blocked_set_create [of two_tasks 11 r "''C''" 3] blocked_set_create [of ?s1 9 r "''B''" 1]
      blocked_set_create [OF k0, of 7 r "''A''" 2] ok1 kernel_inv_two_tasks(1)
    by (simp add: three_tasks_def two_tasks_def api_ok_def)
qed

lemma priority_kept: "api_ok s t \<Longrightarrow> i < task_count s \<Longrightarrow> priority (tcb t i) = priority (tcb s i)"
  by (rule tcb_fixed_eqD(2)) (simp add: api_ok_def kframe_def)

lemma three_tasks_priority: "priority (tcb three_tasks 0) = 2" "priority (tcb three_tasks 1) = 1"
proof -
  have "api_ok two_tasks three_tasks"
    using rtos_create_task_ok [OF kernel_inv_two_tasks(1), of 11] by (simp add: three_tasks_def)
  from priority_kept [OF this] show "priority (tcb three_tasks 0) = 2" "priority (tcb three_tasks 1) = 1"
    using kernel_inv_two_tasks(2,4,5) by simp_all
qed

text \<open>The steps of small runs: the turn passes to a task, and a call of it that blocks.\<close>

lemma lock_other:
  assumes "kernel_inv (s :: kernel)" and "no_running s" and "task_count s = 3" and "i < 3"
  shows "lock_step (elsewhere {BLOCK_MUTEX}) (s, m, P, H) (turn i s, m, P, H)"
  using turn_calling [OF assms] by (intro lock_step.other) (auto simp: calling_out_def elsewhere_def)

lemma lock_fails:
  assumes "calling_out i (s :: kernel)" and "locked m" and "owner m = 1" and "i \<noteq> 0"
  shows "\<exists>s'. rtos_mutex_lock m s = Inr (False, m, s') \<and> kernel_inv s' \<and> no_running s' \<and> task_count s' = 3 \<and>
      blocked_set BLOCK_MUTEX s' = insert i (blocked_set BLOCK_MUTEX s)"
proof -
  have c: "kernel_inv s" "rtos_current_task s = Some i" using assms(1) by (simp_all add: calling_out_def)
  let ?b = "scheduler_set_current_task_state TASK_BLOCKED BLOCK_MUTEX s"
  have l: "rtos_mutex_lock m s = Inr (False, m, uart_log (Rtos (LogMutexWaiting (task_name (tcb ?b i)))) ?b)"
    using assms(2-4) c(2) current_id [OF c] by (simp add: rtos_mutex_lock_def Let_def)
  with calling_api [OF assms(1) api_step.mutex_lock [OF l]] blocked_set_wait(1) [OF kernel_invD(1) [OF c(1)] c(2)]
  show ?thesis by simp
qed

lemma sem_other:
  assumes "kernel_inv (s :: kernel)" and "no_running s" and "task_count s = 3" and "i < 3"
  shows "sem_step (elsewhere {BLOCK_SEMAPHORE}) (s, m, P, n, g) (turn i s, m, P, n, g)"
  using turn_calling [OF assms] by (intro sem_step.other) (auto simp: calling_out_def elsewhere_def)

lemma sem_fails:
  assumes "calling_out i (s :: kernel)"
  shows "\<exists>s'. rtos_sem_wait (semaphore_init 0 x) s = Inr (False, semaphore_init 0 x, s') \<and> kernel_inv s' \<and> no_running s' \<and> task_count s' = 3 \<and>
      blocked_set BLOCK_SEMAPHORE s' = insert i (blocked_set BLOCK_SEMAPHORE s)"
proof -
  have c: "kernel_inv s" "rtos_current_task s = Some i" using assms by (simp_all add: calling_out_def)
  let ?b = "scheduler_set_current_task_state TASK_BLOCKED BLOCK_SEMAPHORE s"
  have l: "rtos_sem_wait (semaphore_init 0 x) s = Inr (False, semaphore_init 0 x, uart_log (Rtos (LogSemWaiting (task_name (tcb ?b i)))) ?b)"
    using c(2) by (simp add: rtos_sem_wait_def semaphore_init_def Let_def)
  with calling_api [OF assms api_step.sem_wait [OF l]] blocked_set_wait(1) [OF kernel_invD(1) [OF c(1)] c(2)]
  show ?thesis by simp
qed

lemma queue_other:
  assumes "kernel_inv (s :: kernel)" and "no_running s" and "task_count s = 3" and "i < 3"
  shows "queue_step (elsewhere {BLOCK_QUEUE_EMPTY, BLOCK_QUEUE_FULL}) (s, q, R, S, xs, ys) (turn i s, q, R, S, xs, ys)"
  using turn_calling [OF assms] by (intro queue_step.other) (auto simp: calling_out_def elsewhere_def)

lemma queue_fails:
  assumes "calling_out i (s :: kernel)" and "mq_count q = 0"
  shows "\<exists>s'. rtos_queue_receive q s = Inr (False, None, q, s') \<and> kernel_inv s' \<and> no_running s' \<and> task_count s' = 3 \<and>
      blocked_set BLOCK_QUEUE_EMPTY s' = insert i (blocked_set BLOCK_QUEUE_EMPTY s)"
proof -
  have c: "kernel_inv s" "rtos_current_task s = Some i" using assms(1) by (simp_all add: calling_out_def)
  let ?b = "scheduler_set_current_task_state TASK_BLOCKED BLOCK_QUEUE_EMPTY s"
  have l: "rtos_queue_receive q s = Inr (False, None, q, uart_log (Rtos (LogQueueEmpty (task_name (tcb ?b i)))) ?b)"
    using c(2) assms(2) by (simp add: rtos_queue_receive_def Let_def)
  with calling_api [OF assms(1) api_step.queue_receive [OF l]] blocked_set_wait(1) [OF kernel_invD(1) [OF c(1)] c(2)]
  show ?thesis by simp
qed

text \<open>Between two turns, with \<open>B\<close> the tasks blocked for \<open>r\<close>; and a turn of task \<open>i\<close> whose call blocks it.\<close>

definition at_rest :: "BlockReason \<Rightarrow> nat set \<Rightarrow> kernel \<Rightarrow> bool" where
  "at_rest r B s \<longleftrightarrow> kernel_inv s \<and> no_running s \<and> task_count s = 3 \<and> blocked_set r s = B"

lemma at_restD:
  assumes "at_rest r B s"
  shows "kernel_inv s" and "no_running s" and "task_count s = 3" and "blocked_set r s = B"
  using assms by (simp_all add: at_rest_def)

lemma at_rest_turn:
  assumes "at_rest r B s" and "i < 3"
  shows "calling_out i (turn i s)" and "kernel_inv (turn i s)" and "rtos_current_task (turn i s) = Some i"
    and "blocked_set r (turn i s) = B"
  using turn_calling [OF at_restD(1-3) [OF assms(1)] assms(2)] at_restD(4) [OF assms(1)] by (auto simp: calling_out_def)

lemma three_at_rest: "at_rest r {} three_tasks"
  using three_tasks by (simp add: at_rest_def)

lemma lock_refused:
  assumes a: "at_rest BLOCK_MUTEX B s" and i: "i < 3" "i \<noteq> 0" and m: "locked m" "owner m = 1"
  obtains s' where "(lock_step (elsewhere {BLOCK_MUTEX}))\<^sup>*\<^sup>* (s, m, {}, H) (s', m, {}, H)"
    and "at_rest BLOCK_MUTEX (insert i B) s'"
proof -
  note T = at_rest_turn [OF a i(1)]
  obtain s' where l: "rtos_mutex_lock m (turn i s) = Inr (False, m, s')" and r: "at_rest BLOCK_MUTEX (insert i B) s'"
    using lock_fails [OF T(1) m i(2)] T(4) by (auto simp: at_rest_def)
  have "lock_step (elsewhere {BLOCK_MUTEX}) (turn i s, m, {}, H) (s', m, {} - {i}, H)" by (rule lock_step.blocked [OF T(3) l])
  then have "lock_step (elsewhere {BLOCK_MUTEX}) (turn i s, m, {}, H) (s', m, {}, H)" by simp
  then show thesis
    using r lock_other [OF at_restD(1-3) [OF a] i(1), of m "{}" H] by (intro that) simp_all
qed

lemma sem_refused:
  assumes a: "at_rest BLOCK_SEMAPHORE B s" and i: "i < 3"
  obtains s' where "(sem_step (elsewhere {BLOCK_SEMAPHORE}))\<^sup>*\<^sup>*
      (s, semaphore_init 0 x, {}, n, g) (s', semaphore_init 0 x, {}, n, g)"
    and "at_rest BLOCK_SEMAPHORE (insert i B) s'"
proof -
  let ?m = "semaphore_init 0 x"
  note T = at_rest_turn [OF a i]
  obtain s' where l: "rtos_sem_wait ?m (turn i s) = Inr (False, ?m, s')" and r: "at_rest BLOCK_SEMAPHORE (insert i B) s'"
    using sem_fails [OF T(1), of x] T(4) by (auto simp: at_rest_def)
  have "sem_step (elsewhere {BLOCK_SEMAPHORE}) (turn i s, ?m, {}, n, g) (s', ?m, {} - {i}, n, g)"
    by (rule sem_step.blocked [OF T(3) l])
  then have "sem_step (elsewhere {BLOCK_SEMAPHORE}) (turn i s, ?m, {}, n, g) (s', ?m, {}, n, g)" by simp
  then show thesis
    using r sem_other [OF at_restD(1-3) [OF a] i, of ?m "{}" n g] by (intro that) simp_all
qed

lemma queue_refused:
  assumes a: "at_rest BLOCK_QUEUE_EMPTY B s" and i: "i < 3" and q: "mq_count q = 0"
  obtains s' where "(queue_step (elsewhere {BLOCK_QUEUE_EMPTY, BLOCK_QUEUE_FULL}))\<^sup>*\<^sup>*
      (s, q, {}, S, xs, ys) (s', q, {}, S, xs, ys)"
    and "at_rest BLOCK_QUEUE_EMPTY (insert i B) s'"
proof -
  let ?E = "elsewhere {BLOCK_QUEUE_EMPTY, BLOCK_QUEUE_FULL}"
  note T = at_rest_turn [OF a i]
  obtain s' where l: "rtos_queue_receive q (turn i s) = Inr (False, None, q, s')" and r: "at_rest BLOCK_QUEUE_EMPTY (insert i B) s'"
    using queue_fails [OF T(1) q] T(4) by (auto simp: at_rest_def)
  have "queue_step ?E (turn i s, q, {}, S, xs, ys) (s', q, {} - {i}, S, xs, ys)" by (rule queue_step.empty [OF T(3) l])
  then have "queue_step ?E (turn i s, q, {}, S, xs, ys) (s', q, {}, S, xs, ys)" by simp
  then show thesis
    using r queue_other [OF at_restD(1-3) [OF a] i, of q "{}" S xs ys] by (intro that) simp_all
qed

text \<open>A call of wait that returns false, and the waiter that a signal picks.\<close>

lemma sem_wait_refused:
  assumes "kernel_inv s" and "rtos_current_task s = Some i" and "rtos_sem_wait sem s = Inr (False, sem', s')"
  shows "sem' = sem" and "sem_count sem \<le> 0"
    and "state (tcb s' i) = TASK_BLOCKED \<and> block_reason (tcb s' i) = BLOCK_SEMAPHORE"
    and "j < task_count s \<Longrightarrow> j \<noteq> i \<Longrightarrow> tcb s' j = tcb s j"
  using sem_wait_spec [OF assms(1,2), of sem] unfolding assms(3) by (auto simp: blocked_as_def)

lemma best_waiter_top:
  assumes "i \<in> blocked_set r s" and "\<forall>k\<in>blocked_set r s - {i}. priority (tcb s k) < priority (tcb s i)"
  shows "best_waiter r s = Some i"
proof -
  have i: "i < task_count s" "state (tcb s i) = TASK_BLOCKED" "block_reason (tcb s i) = r"
    using assms(1) by (simp_all add: blocked_set_def)
  then obtain w where w: "best_waiter r s = Some w" using best_waiter_None [of r s] by (cases "best_waiter r s") auto
  note W = best_waiterD [OF w]
  have "w = i"
  proof (rule ccontr)
    assume "w \<noteq> i"
    with W(1-3) assms(2) have "priority (tcb s w) < priority (tcb s i)" by (simp add: blocked_set_def)
    with W(4) [OF i] show False by auto
  qed
  with w show ?thesis by simp
qed

section \<open>Properties\<close>

text \<open>
  C9: Mutual exclusion. Whatever sequence of lock and unlock calls the tasks make on an initialised
  mutex, with anything that keeps the kernel invariant in between: at most one task is between a
  successful lock and its unlock, the mutex is locked exactly when there is one, its owner field
  names that task, and a lock call by any other task returns false.
\<close>

theorem mutual_exclusion:
  assumes "kernel_inv s0" and "(lock_step E)\<^sup>*\<^sup>* (s0, mutex_init m0, {}, {}) (s, m, P, H)"
  shows "(locked m \<longleftrightarrow> H \<noteq> {}) \<and> (\<forall>i\<in>H. H = {i} \<and> owner m = int i + 1 \<and>
    (\<forall>j. rtos_current_task s = Some j \<and> j \<noteq> i \<longrightarrow> returns (rtos_mutex_lock m s) (\<lambda>(got, m', s'). \<not> got \<and> m' = m)))"
proof -
  have "lock_ok (s0, mutex_init m0, {}, {})" using assms(1) by (simp add: lock_ok_def mutex_init_def)
  with assms(2) have "lock_ok (s, m, P, H)"
    by (induction rule: rtranclp_induct) (auto intro: lock_step_ok)
  then have ok: "kernel_inv s" "if locked m then \<exists>i. H = {i} \<and> owner m = int i + 1 else H = {}"
    by (simp_all add: lock_ok_def)
  have "returns (rtos_mutex_lock m s) (\<lambda>(got, m', s'). \<not> got \<and> m' = m)"
    if "rtos_current_task s = Some j" "j \<noteq> i" "locked m" "owner m = int i + 1" for i j
    using that current_id [OF ok(1) that(1)] by (simp add: rtos_mutex_lock_def Let_def)
  with ok(2) show ?thesis by (auto split: if_splits)
qed

theorem mutual_exclusion_witness:
  "\<exists>s m. (lock_step (\<lambda>_ _. True))\<^sup>*\<^sup>* (three_tasks, mutex_init \<lparr>locked = True, owner = 9\<rparr>, {}, {}) (s, m, {}, {1}) \<and>
     owner m = 2"
proof -
  let ?m = "mutex_init \<lparr>locked = True, owner = 9\<rparr>" and ?s1 = "turn 1 three_tasks"
  have t: "calling_out 1 ?s1" using turn_calling(1) [OF three_tasks(1-3)] by simp
  then have k: "kernel_inv ?s1" "rtos_current_task ?s1 = Some 1" by (simp_all add: calling_out_def)
  obtain m' s' where l: "rtos_mutex_lock ?m ?s1 = Inr (True, m', s')"
    using k(2) by (simp add: rtos_mutex_lock_def mutex_init_def Let_def)
  have "lock_step (\<lambda>_ _. True) (three_tasks, ?m, {}, {}) (?s1, ?m, {}, {})" by (rule lock_step.other [OF k(1)]) simp
  moreover have "lock_step (\<lambda>_ _. True) (?s1, ?m, {}, {}) (s', m', {}, {1})"
    using lock_step.acquired [OF k(2) l, of "\<lambda>_ _. True" "{}" "{}"] by simp
  ultimately have run: "(lock_step (\<lambda>_ _. True))\<^sup>*\<^sup>* (three_tasks, ?m, {}, {}) (s', m', {}, {1})" by simp
  with mutual_exclusion [OF three_tasks(1) run] show ?thesis by (intro exI [of _ s'] exI [of _ m']) simp
qed

text \<open>
  C10: No wake-up of a mutex is lost. If no other code blocks a task for BLOCK_MUTEX, then whenever
  the mutex is free while a task is still blocked on it, some task that an unlock has woken has yet
  to call lock again. So the mutex is not left free with its waiters forgotten.
\<close>

theorem mutex_no_lost_wakeup:
  assumes "kernel_inv s0" and "blocked_set BLOCK_MUTEX s0 = {}"
    and "(lock_step (elsewhere {BLOCK_MUTEX}))\<^sup>*\<^sup>* (s0, mutex_init m0, {}, {}) (s, m, P, H)"
    and "\<not> locked m" and "blocked_set BLOCK_MUTEX s \<noteq> {}"
  shows "P \<noteq> {}"
proof -
  have "1 \<le> int (card P)"
    by (rule lock_rooms.no_lost_wakeup [OF assms(3) _ _ _ assms(5)])
      (use assms in \<open>simp_all add: lock_ok_def lock_room_def room_inv_def mutex_init_def free_units_def\<close>)
  then show ?thesis by auto
qed

text \<open>Tasks 1 and 2 blocked while task 0 holds the mutex, and its unlock.\<close>

theorem mutex_no_lost_wakeup_witness:
  "\<exists>s m P. (lock_step (elsewhere {BLOCK_MUTEX}))\<^sup>*\<^sup>* (three_tasks, mutex_init \<lparr>locked = True, owner = 9\<rparr>, {}, {}) (s, m, P, {}) \<and>
     \<not> locked m \<and> blocked_set BLOCK_MUTEX s \<noteq> {} \<and> P \<noteq> {}"
proof -
  let ?E = "elsewhere {BLOCK_MUTEX}" and ?m = "mutex_init \<lparr>locked = True, owner = 9\<rparr>" and ?s1 = "turn 0 three_tasks"
  define m where "m = \<lparr>locked = True, owner = 1\<rparr>"
  define a where "a = uart_log (Rtos (LogMutexLocked (task_name (tcb ?s1 0)))) ?s1"
  note T = at_rest_turn [OF three_at_rest, where i = 0]
  have l: "rtos_mutex_lock ?m ?s1 = Inr (True, m, a)" "locked m" "owner m = 1"
    using T(3) current_id [OF T(2,3)] by (simp_all add: rtos_mutex_lock_def mutex_init_def Let_def m_def a_def)
  have a: "at_rest BLOCK_MUTEX {} a"
    using T(1) T(4) [where r = BLOCK_MUTEX] by (simp add: a_def calling_out_def at_rest_def)
  have r1: "(lock_step ?E)\<^sup>*\<^sup>* (three_tasks, ?m, {}, {}) (a, m, {}, {0})"
    using lock_other [OF three_tasks(1-3), of 0 ?m "{}" "{}"] lock_step.acquired [OF T(3) l(1), of ?E "{}" "{}"] by simp
  obtain b where r2: "(lock_step ?E)\<^sup>*\<^sup>* (a, m, {}, {0}) (b, m, {}, {0})" and b: "at_rest BLOCK_MUTEX {1} b"
    by (rule lock_refused [OF a _ _ l(2,3), where i = 1 and H = "{0}"]) simp_all
  obtain c where r3: "(lock_step ?E)\<^sup>*\<^sup>* (b, m, {}, {0}) (c, m, {}, {0})" and c: "at_rest BLOCK_MUTEX {2, 1} c"
    by (rule lock_refused [OF b _ _ l(2,3), where i = 2 and H = "{0}"]) simp_all
  note C = at_rest_turn [OF c, where i = 0]
  define entry where "entry = Rtos (LogMutexReleased (task_name (tcb (turn 0 c) 0)))"
  obtain d where d: "scheduler_unblock_one BLOCK_MUTEX (uart_log entry (turn 0 c)) = Inr d"
    using unblock_after_log [OF C(2), of BLOCK_MUTEX entry] by (auto elim: returnsE)
  let ?m' = "m\<lparr>locked := False, owner := -1\<rparr>" and ?P = "{2, 1} - blocked_set BLOCK_MUTEX d"
  have u: "rtos_mutex_unlock m (turn 0 c) = Inr (?m', d)"
    using C(3) l(2,3) d current_id [OF C(2,3)] by (simp add: rtos_mutex_unlock_def Let_def entry_def)
  have bd: "blocked_set BLOCK_MUTEX d \<noteq> {}" using blocked_set_wake(1) [OF C(2) d] C(4) by auto
  have "(lock_step ?E)\<^sup>*\<^sup>* (c, m, {}, {0}) (d, ?m', ?P, {})"
    using lock_other [OF at_restD(1-3) [OF c], of 0 m "{}" "{0}"] lock_step.unlock [OF C(3) u, of ?E "{}" "{0}"] C(4) by simp
  with r1 r2 r3 have run: "(lock_step ?E)\<^sup>*\<^sup>* (three_tasks, ?m, {}, {}) (d, ?m', ?P, {})" by simp
  have "?P \<noteq> {}" using mutex_no_lost_wakeup [OF three_tasks(1,4) run _ bd] by simp
  with run bd show ?thesis by (intro exI [of _ d] exI [of _ ?m'] exI [of _ ?P]) simp
qed

text \<open>
  C11: A semaphore conserves its units. Whatever waits and signals the tasks make on a semaphore
  initialised to \<open>n\<close>, with anything that keeps the kernel invariant in between, its count is \<open>n\<close> plus the
  signals made minus the waits that returned true, and never negative: no unit is taken that was
  not there.
\<close>

theorem semaphore_conserves:
  assumes "kernel_inv s0" and "0 \<le> n"
    and "(sem_step E)\<^sup>*\<^sup>* (s0, semaphore_init n sem0, {}, 0, 0) (s, sem, P, taken, given)"
  shows "sem_count sem = n + int given - int taken \<and> int taken \<le> n + int given"
proof -
  let ?ok = "\<lambda>w :: 'a sem_world. sem_ok n w \<and> 0 \<le> sem_count (fst (snd w))"
  have step: "?ok v" if st: "sem_step E w v" and ok: "?ok w" for w v
  proof (rule conjI)
    show "sem_ok n v" using sem_step_ok [OF st] ok by blast
    show "0 \<le> sem_count (fst (snd v))"
      using st ok
    proof cases
      case (acquired s i sem sem' s' P k g)
      then show ?thesis using ok sem_wait_room(2,3) [of s i sem True sem' s'] by (simp add: sem_ok_def)
    next
      case (blocked s i sem sem' s' P k g)
      then show ?thesis using ok sem_wait_room(3) [of s i sem False sem' s'] by (simp add: sem_ok_def)
    next
      case (signal sem s sem' s' P k g)
      then show ?thesis using ok sem_signal_room(2) [of s sem sem' s'] by (simp add: sem_ok_def)
    qed simp
  qed
  have "?ok (s0, semaphore_init n sem0, {}, 0, 0)"
    using assms(1,2) by (simp add: sem_ok_def semaphore_init_def)
  with assms(3) have "?ok (s, sem, P, taken, given)"
    by (induction rule: rtranclp_induct) (use step in blast)+
  then show ?thesis by (simp add: sem_ok_def)
qed

theorem semaphore_conserves_witness:
  "\<exists>s sem. (sem_step (\<lambda>_ _. True))\<^sup>*\<^sup>* (three_tasks, semaphore_init 2 \<lparr>sem_count = 0\<rparr>, {}, 0, 0) (s, sem, {}, 1, 0) \<and>
     sem_count sem = 1"
proof -
  let ?sem = "semaphore_init 2 \<lparr>sem_count = 0\<rparr>" and ?s1 = "turn 1 three_tasks"
  have "calling_out 1 ?s1" using turn_calling(1) [OF three_tasks(1-3)] by simp
  then have k: "kernel_inv ?s1" "rtos_current_task ?s1 = Some 1" by (simp_all add: calling_out_def)
  obtain m' s' where l: "rtos_sem_wait ?sem ?s1 = Inr (True, m', s')"
    using k(2) by (simp add: rtos_sem_wait_def semaphore_init_def Let_def)
  have "sem_step (\<lambda>_ _. True) (three_tasks, ?sem, {}, 0, 0) (?s1, ?sem, {}, 0, 0)"
    by (rule sem_step.other [OF k(1)]) simp
  moreover have "sem_step (\<lambda>_ _. True) (?s1, ?sem, {}, 0, 0) (s', m', {}, 1, 0)"
    using sem_step.acquired [OF k(2) l, of "\<lambda>_ _. True" "{}" 0 0] by simp
  ultimately have run: "(sem_step (\<lambda>_ _. True))\<^sup>*\<^sup>* (three_tasks, ?sem, {}, 0, 0) (s', m', {}, 1, 0)" by simp
  with semaphore_conserves [OF three_tasks(1) _ run] show ?thesis by auto
qed

text \<open>
  C12: No wake-up of a semaphore is lost. If no other code blocks a task for BLOCK_SEMAPHORE, then
  while a task is blocked on the semaphore there are at most as many units in it as tasks that a
  signal has woken and that have yet to call wait again: no unit lies there for nobody while a
  task waits.
\<close>

theorem semaphore_no_lost_wakeup:
  assumes "kernel_inv s0" and "blocked_set BLOCK_SEMAPHORE s0 = {}" and "0 \<le> n"
    and "(sem_step (elsewhere {BLOCK_SEMAPHORE}))\<^sup>*\<^sup>* (s0, semaphore_init n sem0, {}, 0, 0) (s, sem, P, taken, given)"
    and "blocked_set BLOCK_SEMAPHORE s \<noteq> {}"
  shows "sem_count sem \<le> int (card P)"
  by (rule sem_rooms.no_lost_wakeup [OF assms(4) _ _ _ assms(5), where init = n])
    (use assms in \<open>simp_all add: sem_ok_def sem_room_def room_inv_def semaphore_init_def\<close>)

text \<open>Tasks 0 and 1 wait; a signal by task 2 wakes one of them.\<close>

theorem semaphore_no_lost_wakeup_witness:
  "\<exists>s sem P. (sem_step (elsewhere {BLOCK_SEMAPHORE}))\<^sup>*\<^sup>* (three_tasks, semaphore_init 0 \<lparr>sem_count = 7\<rparr>, {}, 0, 0) (s, sem, P, 0, 1) \<and>
     blocked_set BLOCK_SEMAPHORE s \<noteq> {} \<and> sem_count sem = 1 \<and> 1 \<le> card P"
proof -
  let ?E = "elsewhere {BLOCK_SEMAPHORE}" and ?m = "semaphore_init 0 \<lparr>sem_count = 7\<rparr>" and ?l = "Rtos (LogSemReleased 1)"
  obtain a where r1: "(sem_step ?E)\<^sup>*\<^sup>* (three_tasks, ?m, {}, 0, 0) (a, ?m, {}, 0, 0)" and a: "at_rest BLOCK_SEMAPHORE {0} a"
    by (rule sem_refused [OF three_at_rest, where i = 0]) simp_all
  obtain b where r2: "(sem_step ?E)\<^sup>*\<^sup>* (a, ?m, {}, 0, 0) (b, ?m, {}, 0, 0)" and b: "at_rest BLOCK_SEMAPHORE {1, 0} b"
    by (rule sem_refused [OF a, where i = 1]) simp_all
  note B = at_restD [OF b]
  obtain d where d: "scheduler_unblock_one BLOCK_SEMAPHORE (uart_log ?l b) = Inr d"
    using unblock_after_log [OF B(1), of BLOCK_SEMAPHORE ?l] by (auto elim: returnsE)
  then have u: "rtos_sem_signal ?m b = Inr (\<lparr>sem_count = 1\<rparr>, d)"
    by (simp add: rtos_sem_signal_def semaphore_init_def int_range_defs Let_def)
  let ?P = "{1, 0} - blocked_set BLOCK_SEMAPHORE d"
  have bd: "blocked_set BLOCK_SEMAPHORE d \<noteq> {}" using blocked_set_wake(1) [OF B(1) d] B(4) by auto
  have "sem_step ?E (b, ?m, {}, 0, 0) (d, \<lparr>sem_count = 1\<rparr>, ?P, 0, 1)"
    using sem_step.signal [OF u, of ?E "{}" 0 0] B(4) by simp
  with r1 r2 have run: "(sem_step ?E)\<^sup>*\<^sup>* (three_tasks, ?m, {}, 0, 0) (d, \<lparr>sem_count = 1\<rparr>, ?P, 0, 1)" by simp
  have "1 \<le> card ?P" using semaphore_no_lost_wakeup [OF three_tasks(1,4) _ run bd] by simp
  with run bd show ?thesis by (intro exI [of _ d] exI [of _ "\<lparr>sem_count = 1\<rparr>"] exI [of _ ?P]) simp
qed

text \<open>
  C36: A signal does not look at the semaphore it is for. Task \<open>i\<close> waits on the empty semaphore \<open>b\<close>, task
  \<open>j\<close> on the empty semaphore \<open>a\<close>, and \<open>i\<close> has more priority than every other task that waits on a
  semaphore. A signal of \<open>a\<close> makes \<open>i\<close> READY, at the tail of the ready queue, and leaves \<open>j\<close> blocked
  although the unit of \<open>a\<close> is there; and when \<open>i\<close> calls wait on \<open>b\<close> again, it finds \<open>b\<close> still empty
  and is blocked once more.
\<close>

theorem signal_wakes_wrong_object:
  assumes "kernel_inv s1" and "rtos_current_task s1 = Some i" and "rtos_sem_wait b s1 = Inr (False, b', t1)"
    and "kernel_inv s2" and "rtos_current_task s2 = Some j" and "rtos_sem_wait a s2 = Inr (False, a', t2)"
    and "0 \<le> sem_count a" and "i \<noteq> j"
    and "kernel_inv s" and "i < task_count s" and "j < task_count s" and "tcb s i = tcb t1 i" and "tcb s j = tcb t2 j"
    and "\<forall>k\<in>blocked_set BLOCK_SEMAPHORE s - {i}. priority (tcb s k) < priority (tcb s i)"
  shows "returns (rtos_sem_signal a' s) (\<lambda>(a'', s'). sem_count a'' = 1 \<and>
    state (tcb s' i) = TASK_READY \<and> rq_list s' = rq_list s @ [int i] \<and>
    j \<in> blocked_set BLOCK_SEMAPHORE s' \<and>
    (\<forall>s3. kernel_inv s3 \<and> rtos_current_task s3 = Some i \<longrightarrow>
      returns (rtos_sem_wait b' s3) (\<lambda>(got, b'', s4). \<not> got \<and> i \<in> blocked_set BLOCK_SEMAPHORE s4)))"
proof -
  note B = sem_wait_refused [OF assms(1-3)] and A = sem_wait_refused [OF assms(4-6)]
  have a': "sem_count a' = 0" using A(1,2) assms(7) by simp
  have i: "i \<in> blocked_set BLOCK_SEMAPHORE s" and j: "j \<in> blocked_set BLOCK_SEMAPHORE s"
    using assms(10-13) A(3) B(3) by (simp_all add: blocked_set_def)
  have w: "best_waiter BLOCK_SEMAPHORE s = Some i" by (rule best_waiter_top [OF i assms(14)])
  have "returns (rtos_sem_signal a' s) (\<lambda>(a'', s'). sem_count a'' = 1 \<and> woken BLOCK_SEMAPHORE s s' \<and> task_count s' = task_count s)"
    using unblock_after_log [OF assms(9), of BLOCK_SEMAPHORE "Rtos (LogSemReleased 1)"]
    by (simp add: rtos_sem_signal_def a' int_range_defs returns_bindr)
  moreover have "returns (rtos_sem_wait b' s3) (\<lambda>(got, b'', s4). \<not> got \<and> i \<in> blocked_set BLOCK_SEMAPHORE s4)"
    if "kernel_inv s3 \<and> rtos_current_task s3 = Some i" for s3
    using that B(1,2) blocked_set_wait(1) [OF kernel_invD(1), of s3 i BLOCK_SEMAPHORE]
    by (simp add: rtos_sem_wait_def Let_def)
  ultimately show ?thesis
    using i j assms(8) sched_invD(3,4) [OF kernel_invD(1) [OF assms(9)]]
    by (auto simp: woken_def w blocked_set_def elim!: returns_mono)
qed

text \<open>Task 0, of priority 2, waits on one empty semaphore, task 1, of priority 1, on another, which is signalled.\<close>

theorem signal_wakes_wrong_object_witness:
  "\<exists>t s b a. rtos_sem_wait (semaphore_init 0 \<lparr>sem_count = 7\<rparr>) (turn 0 three_tasks) = Inr (False, b, t) \<and>
     rtos_sem_wait (semaphore_init 0 \<lparr>sem_count = 8\<rparr>) (turn 1 t) = Inr (False, a, s) \<and>
     returns (rtos_sem_signal a s) (\<lambda>(a', s'). sem_count a' = 1 \<and> state (tcb s' 0) = TASK_READY \<and>
       1 \<in> blocked_set BLOCK_SEMAPHORE s')"
proof -
  let ?b = "semaphore_init 0 \<lparr>sem_count = 7\<rparr>" and ?a = "semaphore_init 0 \<lparr>sem_count = 8\<rparr>"
  have l3: "(0::nat) < 3" "(1::nat) < 3" by simp_all
  note S = at_rest_turn [OF three_at_rest l3(1)]
  obtain t where t: "rtos_sem_wait ?b (turn 0 three_tasks) = Inr (False, ?b, t)" and rt: "at_rest BLOCK_SEMAPHORE {0} t"
    using sem_fails [OF S(1), of "\<lparr>sem_count = 7\<rparr>"] S(4) by (auto simp: at_rest_def)
  note T = at_rest_turn [OF rt l3(2)]
  obtain s where s: "rtos_sem_wait ?a (turn 1 t) = Inr (False, ?a, s)" and rs: "at_rest BLOCK_SEMAPHORE {1, 0} s"
    using sem_fails [OF T(1), of "\<lparr>sem_count = 8\<rparr>"] T(4) by (auto simp: at_rest_def)
  note R = at_restD [OF rs]
  have "priority (tcb t i) = priority (tcb three_tasks i)" if "i < 3" for i
    using priority_kept [OF rtos_sem_wait_ok [OF S(2) t], of i] that three_tasks(3) by (simp add: turn_def)
  moreover have "priority (tcb s i) = priority (tcb t i)" if "i < 3" for i
    using priority_kept [OF rtos_sem_wait_ok [OF T(2) s], of i] that at_restD(3) [OF rt] by (simp add: turn_def)
  ultimately have p: "priority (tcb s 0) = 2" "priority (tcb s 1) = 1" using three_tasks_priority by simp_all
  have keep: "tcb s 0 = tcb t 0"
    using sem_wait_refused(4) [OF T(2,3) s, of 0] at_restD(3) [OF rt] by (simp add: turn_def)
  have "returns (rtos_sem_signal ?a s) (\<lambda>(a'', s'). sem_count a'' = 1 \<and>
      state (tcb s' 0) = TASK_READY \<and> rq_list s' = rq_list s @ [int 0] \<and> 1 \<in> blocked_set BLOCK_SEMAPHORE s' \<and>
      (\<forall>s3. kernel_inv s3 \<and> rtos_current_task s3 = Some 0 \<longrightarrow>
        returns (rtos_sem_wait ?b s3) (\<lambda>(got, b'', s4). \<not> got \<and> 0 \<in> blocked_set BLOCK_SEMAPHORE s4)))"
    by (rule signal_wakes_wrong_object [OF S(2,3) t T(2,3) s _ _ R(1) _ _ keep refl])
      (simp_all add: R p [unfolded One_nat_def] insert_Diff_if, simp_all add: semaphore_init_def)
  then have "returns (rtos_sem_signal ?a s) (\<lambda>(a', s'). sem_count a' = 1 \<and> state (tcb s' 0) = TASK_READY \<and>
      1 \<in> blocked_set BLOCK_SEMAPHORE s')"
    by (rule returns_mono) auto
  with t s show ?thesis by blast
qed

text \<open>
  C13: A message queue under concurrency. Whatever sends and receives the tasks make on an
  initialised queue, if no other code blocks a task for it: the values received, followed by those
  in the queue, are exactly the values sent, in order, at most ten in the queue; while a receiver
  is blocked there are at most as many messages as woken receivers yet to call again, and while
  a sender is blocked at most as many free places as woken senders.
\<close>

theorem queue_protocol:
  assumes "kernel_inv s0" and "blocked_set BLOCK_QUEUE_EMPTY s0 = {}" and "blocked_set BLOCK_QUEUE_FULL s0 = {}"
    and "length (buffer q0) = 10"
    and "(queue_step (elsewhere {BLOCK_QUEUE_EMPTY, BLOCK_QUEUE_FULL}))\<^sup>*\<^sup>*
      (s0, queue_init q0, {}, {}, [], []) (s, q, R, S, sent, got)"
  shows "sent = got @ mq_contents q \<and> length (mq_contents q) \<le> 10 \<and>
    (blocked_set BLOCK_QUEUE_EMPTY s = {} \<or> length (mq_contents q) \<le> card R) \<and>
    (blocked_set BLOCK_QUEUE_FULL s = {} \<or> 10 - length (mq_contents q) \<le> card S)"
proof -
  let ?w = "(s0, queue_init q0, {}, {}, [], [])"
  have ok: "queue_ok ?w" using assms(1,4) by (simp add: queue_ok_def queue_init_def mq_ok_def mq_contents_def)
  have r: "room_inv (message_room ?w)" "room_inv (place_room ?w)"
    using assms(2,3) by (simp_all add: room_inv_def message_room_def place_room_def queue_init_def)
  have v: "queue_ok (s, q, R, S, sent, got)" by (rule message_rooms.reached(1) [OF assms(5) ok r(1)])
  have n: "0 \<le> mq_count q" "mq_count q \<le> 10" using v by (simp_all add: queue_ok_def mq_ok_def)
  have "mq_count q \<le> int (card R)" if "blocked_set BLOCK_QUEUE_EMPTY s \<noteq> {}"
    by (rule message_rooms.no_lost_wakeup [OF assms(5) ok r(1) _ that]) (simp add: message_room_def)
  moreover have "10 - mq_count q \<le> int (card S)" if "blocked_set BLOCK_QUEUE_FULL s \<noteq> {}"
    by (rule place_rooms.no_lost_wakeup [OF assms(5) ok r(2) _ that]) (simp add: place_room_def)
  ultimately have
    "blocked_set BLOCK_QUEUE_EMPTY s = {} \<or> nat (mq_count q) \<le> card R"
    "blocked_set BLOCK_QUEUE_FULL s = {} \<or> 10 - nat (mq_count q) \<le> card S"
    using n by linarith+
  then show ?thesis using v n by (simp add: queue_ok_def)
qed

text \<open>Tasks 0 and 1 wait for a message; task 2 sends one.\<close>

theorem queue_protocol_witness:
  "\<exists>s q R. (queue_step (elsewhere {BLOCK_QUEUE_EMPTY, BLOCK_QUEUE_FULL}))\<^sup>*\<^sup>*
       (three_tasks, queue_init fresh_queue, {}, {}, [], []) (s, q, R, {}, [42], []) \<and>
     blocked_set BLOCK_QUEUE_EMPTY s \<noteq> {} \<and> mq_contents q = [42] \<and> 1 \<le> card R"
proof -
  let ?E = "elsewhere {BLOCK_QUEUE_EMPTY, BLOCK_QUEUE_FULL}" and ?q = "queue_init fresh_queue"
  have q: "mq_ok ?q" "mq_count ?q = 0" "length (buffer fresh_queue) = 10" "mq_contents ?q = []"
    by (simp_all add: fresh_queue_def queue_init_def mq_ok_def mq_contents_def)
  obtain a where r1: "(queue_step ?E)\<^sup>*\<^sup>* (three_tasks, ?q, {}, {}, [], []) (a, ?q, {}, {}, [], [])"
    and a: "at_rest BLOCK_QUEUE_EMPTY {0} a"
    by (rule queue_refused [OF three_at_rest _ q(2), where i = 0]) simp_all
  obtain b where r2: "(queue_step ?E)\<^sup>*\<^sup>* (a, ?q, {}, {}, [], []) (b, ?q, {}, {}, [], [])"
    and b: "at_rest BLOCK_QUEUE_EMPTY {1, 0} b"
    by (rule queue_refused [OF a _ q(2), where i = 1]) simp_all
  note B = at_rest_turn [OF b, where i = 2]
  obtain q2 where q2: "mq_put 42 ?q = Inr q2" "mq_contents q2 = [42]"
    using mq_put_ok [OF q(1), of 42] q(2,4) by (auto simp: mq_full_def elim: returnsE)
  define l where "l = Rtos (LogQueueSend (task_name (tcb (turn 2 b) 2)) 42 (mq_count q2))"
  obtain d where d: "scheduler_unblock_one BLOCK_QUEUE_EMPTY (uart_log l (turn 2 b)) = Inr d"
    using unblock_after_log [OF B(2), of BLOCK_QUEUE_EMPTY l] by (auto elim: returnsE)
  then have u: "rtos_queue_send 42 ?q (turn 2 b) = Inr (True, q2, d)"
    using B(3) q(2) q2(1) by (simp add: rtos_queue_send_def l_def)
  let ?P = "{1, 0} - blocked_set BLOCK_QUEUE_EMPTY d"
  have bd: "blocked_set BLOCK_QUEUE_EMPTY d \<noteq> {}" using blocked_set_wake(1) [OF B(2) d] B(4) by auto
  have "(queue_step ?E)\<^sup>*\<^sup>* (b, ?q, {}, {}, [], []) (d, q2, ?P, {}, [42], [])"
    using queue_other [OF at_restD(1-3) [OF b], of 2 ?q "{}" "{}" "[]" "[]"]
      queue_step.sent [OF B(3) u, of ?E "{}" "{}" "[]" "[]"] B(4) by simp
  with r1 r2 have run: "(queue_step ?E)\<^sup>*\<^sup>* (three_tasks, ?q, {}, {}, [], []) (d, q2, ?P, {}, [42], [])" by simp
  have "length (mq_contents q2) \<le> card ?P"
    using queue_protocol [OF three_tasks(1,4,4) q(3) run] bd by blast
  with run bd q2(2) show ?thesis by (intro exI [of _ d] exI [of _ q2] exI [of _ ?P]) simp
qed

end
