(* ===== verification/Event_Protocol.thy ===== *)
theory Event_Protocol
  imports Protocols
begin

text \<open>
  The event flags under concurrency: any tasks set, clear and wait for the flags of one object in any order,
  and between two calls the kernel and the other code may do anything that keeps the kernel invariant. Two
  counts per flag, of the times it was raised and of the times it was consumed, show that no event is
  consumed twice; the table of waiters and the blocked tasks are shown to match.
\<close>

section \<open>The steps\<close>

text \<open>
  \<open>(s, e, R, T)\<close>: the kernel, the object, and by bit how many calls of \<open>event_flags_set\<close> raised it
  and how many waits, immediate or blocked, consumed it. The waits that a set ends are those of the waiters it
  takes off the table.
\<close>

type_synonym 'a event_world = "'a kernel_scheme \<times> EventFlags \<times> (nat \<Rightarrow> nat) \<times> (nat \<Rightarrow> nat)"

definition bump :: "32 word \<Rightarrow> (nat \<Rightarrow> nat) \<Rightarrow> nat \<Rightarrow> nat" where
  "bump bits f b = f b + (if bit bits b then 1 else 0)"

definition consumers :: "nat \<Rightarrow> EventWaiter multiset \<Rightarrow> nat" where
  "consumers b ws = size (filter_mset (\<lambda>w. bit (required_mask w) b) ws)"

inductive event_step :: "('a kernel_scheme \<Rightarrow> 'a kernel_scheme \<Rightarrow> bool) \<Rightarrow> 'a event_world \<Rightarrow> 'a event_world \<Rightarrow> bool"
  for E where
  raised: "event_flags_set (Some e) bits s = Inr (Some e', s') \<Longrightarrow> event_step E (s, e, R, T)
    (s', e', bump bits R, \<lambda>b. T b + consumers b (mset (registered e) - mset (registered e')))"
| cleared: "event_flags_clear (Some e) bits s = (Some e', s') \<Longrightarrow> event_step E (s, e, R, T) (s', e', R, T)"
| granted: "rtos_current_task s = Some i \<Longrightarrow> event_flags_wait (Some e) bits s = Inr (True, Some e', s') \<Longrightarrow>
    event_step E (s, e, R, T) (s', e', R, bump bits T)"
| refused: "rtos_current_task s = Some i \<Longrightarrow> event_flags_wait (Some e) bits s = Inr (False, Some e', s') \<Longrightarrow>
    event_step E (s, e, R, T) (s', e', R, T)"
| other: "kernel_inv s' \<Longrightarrow> E s s' \<Longrightarrow> event_step E (s, e, R, T) (s', e, R, T)"

definition event_ok :: "'a event_world \<Rightarrow> bool" where
  "event_ok = (\<lambda>(s, e, R, T). kernel_inv s \<and> ev_ok e \<and>
     (\<forall>b. T b + (if bit (flags e) b then 1 else 0) \<le> R b) \<and>
     (\<forall>w\<in>set (registered e). \<not> satisfied (flags e) w))"

text \<open>Every task blocked for an event is in the table.\<close>

definition all_registered :: "'a event_world \<Rightarrow> bool" where
  "all_registered = (\<lambda>(s, e, R, T). int ` blocked_set BLOCK_EVENT s \<subseteq> task_index ` set (registered e))"

lemma registered_flags [simp]: "registered (e\<lparr>flags := f\<rparr>) = registered e" "ev_ok (e\<lparr>flags := f\<rparr>) = ev_ok e"
  by (simp_all add: registered_def ev_ok_def)

section \<open>A set\<close>

lemma bit_and_not_word: "bit (f AND NOT m) b \<longleftrightarrow> bit f b \<and> \<not> bit (m :: 32 word) b"
  by (auto simp: bit_and_iff bit_not_iff dest: bit_imp_le_length)

text \<open>Each bit that is up before the scan is taken by one waiter of the woken, or is up after it.\<close>

lemma event_scan_bits:
  "event_scan f ws = (woke, kept, g) \<Longrightarrow>
   consumers b (mset woke) + (if bit g b then 1 else 0) = (if bit f b then 1 else 0)"
proof (induction f ws arbitrary: woke kept rule: event_scan.induct)
  case (1 f)
  then show ?case by (simp add: consumers_def)
next
  case (2 f w ws)
  show ?case
  proof (cases "satisfied f w")
    case True
    let ?f = "f AND NOT (required_mask w)"
    obtain woke' where sc: "event_scan ?f ws = (woke', kept, g)" and woke: "woke = w # woke'"
      using 2(3) True by (auto split: prod.splits)
    have "bit (required_mask w) b \<Longrightarrow> bit f b"
      using True unfolding satisfied_def by (metis bit_and_iff)
    moreover have "bit ?f b \<longleftrightarrow> bit f b \<and> \<not> bit (required_mask w) b"
      by (rule bit_and_not_word)
    ultimately show ?thesis
      using 2(1) [OF True sc] by (auto simp: woke consumers_def split: if_splits)
  next
    case False
    then obtain kept' where sc: "event_scan f ws = (woke, kept', g)" using 2(3) by (auto split: prod.splits)
    show ?thesis by (rule 2(2) [OF False sc])
  qed
qed

lemma blocked_set_made_ready:
  assumes "made_ready ws s s'"
  shows "blocked_set r s' = {i \<in> blocked_set r s. int i \<notin> task_index ` set ws}"
  using assms by (auto simp: made_ready_def blocked_set_def tcb_to_def split: if_splits)

lemma event_set_step:
  assumes ok: "event_ok (s, e, R, T)" and call: "event_flags_set (Some e) bits s = Inr (Some e', s')"
  shows "event_ok (s', e', bump bits R, \<lambda>b. T b + consumers b (mset (registered e) - mset (registered e')))"
    and "all_registered (s, e, R, T) \<Longrightarrow> all_registered (s', e', R', T')"
proof -
  have k: "kernel_inv s" "ev_ok e" and c: "T b + (if bit (flags e) b then 1 else 0) \<le> R b" for b
    using ok by (simp_all add: event_ok_def)
  have "event_ok (s', e', bump bits R, \<lambda>b. T b + consumers b (mset (registered e) - mset (registered e'))) \<and>
    (all_registered (s, e, R, T) \<longrightarrow> all_registered (s', e', R', T'))"
  proof (cases "bits = 0")
    case True
    then show ?thesis
      using ok call by (auto simp: event_flags_set_def event_ok_def all_registered_def bump_def consumers_def)
  next
    case False
    obtain woke kept g where sc: "event_scan (flags e OR bits) (rev (registered e)) = (woke, kept, g)"
      by (rule prod_cases3)
    have e': "kernel_inv s'" "ev_ok e'" "flags e' = g" "mset (registered e') = mset kept" and m: "made_ready woke s s'"
      using event_flags_set_scan [OF k(2,1) False sc] by (simp_all add: call api_ok_def)
    have all: "mset (registered e) = mset woke + mset kept" using event_scan_mset [OF sc] by simp
    have set: "set (registered e') = set kept" "set (registered e) = set woke \<union> set kept"
      using arg_cong [OF e'(4), of set_mset] arg_cong [OF all, of set_mset] by simp_all
    have "T b + consumers b (mset woke) + (if bit g b then 1 else 0) \<le> bump bits R b" for b
      using event_scan_bits [OF sc, of b] c [of b] by (simp add: bump_def bit_or_iff split: if_splits)
    moreover have "\<not> satisfied g w" if "w \<in> set kept" for w by (rule event_scan_kept [OF sc that])
    ultimately have "event_ok (s', e', bump bits R, \<lambda>b. T b + consumers b (mset (registered e) - mset (registered e')))"
      using e' by (simp add: event_ok_def set all)
    moreover have "int ` blocked_set BLOCK_EVENT s' \<subseteq> task_index ` set (registered e')"
      if "int ` blocked_set BLOCK_EVENT s \<subseteq> task_index ` set (registered e)"
      using that by (auto simp: blocked_set_made_ready [OF m] set)
    ultimately show ?thesis by (simp add: all_registered_def)
  qed
  then show "event_ok (s', e', bump bits R, \<lambda>b. T b + consumers b (mset (registered e) - mset (registered e')))"
    and "all_registered (s, e, R, T) \<Longrightarrow> all_registered (s', e', R', T')" by blast+
qed

section \<open>A wait\<close>

lemma event_wait_cases:
  assumes k: "kernel_inv s" "ev_ok e" and cur: "rtos_current_task s = Some i"
    and call: "event_flags_wait (Some e) bits s = Inr (got, Some e', s')"
  obtains (granted) "got" and "flags e AND bits = bits" and "e' = e\<lparr>flags := flags e AND NOT bits\<rparr>"
      and "blocked_set BLOCK_EVENT s' = blocked_set BLOCK_EVENT s"
  | (ignored) "\<not> got" and "e' = e" and "blocked_set BLOCK_EVENT s' = blocked_set BLOCK_EVENT s"
  | (waits) "\<not> got" and "flags e AND bits \<noteq> bits" and "ev_ok e'" and "flags e' = flags e"
      and "registered e' = registered e @ [\<lparr>task_index = int i, required_mask = bits\<rparr>]"
      and "blocked_set BLOCK_EVENT s' = insert i (blocked_set BLOCK_EVENT s)"
proof -
  obtain n where n: "waiter_count e = int n" "n \<le> 8" "length (waiters e) = 8"
    using k(2) by (auto simp: ev_ok_def elim: nonneg_int_cases)
  note idx = scheduler_current_index [OF k(1) cur]
  show thesis
  proof (cases "bits = 0 \<or> flags e AND bits = bits \<or> n = 8")
    case True
    then show thesis
      using call n by (auto simp: event_flags_wait_def Let_def RTOS_EVENT_MAX_WAITERS_def split: if_splits
          intro: granted ignored)
  next
    case False
    let ?w = "\<lparr>task_index = int i, required_mask = bits\<rparr>"
    let ?s = "uart_log (Event (LogEventWait (int i) bits)) s"
    have r: "e' = e\<lparr>waiters := (waiters e)[n := ?w], waiter_count := int n + 1\<rparr>" "\<not> got"
      "s' = scheduler_set_current_task_state TASK_BLOCKED BLOCK_EVENT ?s"
      using call n False by (simp_all add: event_flags_wait_def Let_def RTOS_EVENT_MAX_WAITERS_def idx)
    have "nat (int n + 1) = Suc n" by simp
    then have "registered e' = registered e @ [?w]" "ev_ok e'"
      using n False by (simp_all add: r(1) registered_def take_Suc_update ev_ok_def)
    moreover have "blocked_set BLOCK_EVENT s' = insert i (blocked_set BLOCK_EVENT s)"
      using blocked_set_wait(1) [of ?s i BLOCK_EVENT] kernel_invD(1) [OF k(1)] cur by (simp add: r(3))
    ultimately show thesis using waits False r by simp
  qed
qed

lemma event_wait_step:
  assumes ok: "event_ok (s, e, R, T)" and cur: "rtos_current_task s = Some i"
    and call: "event_flags_wait (Some e) bits s = Inr (got, Some e', s')"
  shows "event_ok (s', e', R, if got then bump bits T else T)"
    and "all_registered (s, e, R, T) \<Longrightarrow> all_registered (s', e', R', T')"
proof -
  have k: "kernel_inv s" "ev_ok e" and c: "T b + (if bit (flags e) b then 1 else 0) \<le> R b" for b
    using ok by (simp_all add: event_ok_def)
  have k': "kernel_inv s'" using event_flags_wait_ok [OF k(1) call] by (simp add: api_ok_def)
  have "event_ok (s', e', R, if got then bump bits T else T) \<and>
    (all_registered (s, e, R, T) \<longrightarrow> all_registered (s', e', R', T'))"
    using k cur call
  proof (cases rule: event_wait_cases)
    case granted
    have "bit bits b \<longrightarrow> bit (flags e) b" for b using granted(2) by (metis bit_and_iff)
    then have "bump bits T b + (if bit (flags e') b then 1 else 0) \<le> R b" for b
      using c [of b] by (auto simp: granted(3) bump_def bit_and_not_word split: if_splits)
    moreover have "registered e' = registered e" "ev_ok e'" using k(2) by (simp_all add: granted(3))
    ultimately show ?thesis
      using ok k' granted by (auto simp: event_ok_def all_registered_def dest: satisfied_mono)
  next
    case ignored
    then show ?thesis using ok k' by (simp add: event_ok_def all_registered_def)
  next
    case waits
    then show ?thesis using ok k' by (auto simp: event_ok_def all_registered_def satisfied_def)
  qed
  then show "event_ok (s', e', R, if got then bump bits T else T)"
    and "all_registered (s, e, R, T) \<Longrightarrow> all_registered (s', e', R', T')" by blast+
qed

section \<open>All steps\<close>

lemma event_clear_eq:
  assumes "event_flags_clear (Some e) bits s = (Some e', s')"
  shows "e' = e\<lparr>flags := flags e AND NOT bits\<rparr>" and "s' = uart_log (Event (LogEventClear (flags e AND NOT bits) bits)) s"
  using assms by (auto simp: event_flags_clear_def Let_def)

lemma event_step_ok:
  assumes "event_step E v w" and "event_ok v"
  shows "event_ok w"
  using assms
proof (induction rule: event_step.induct)
  case (raised e bits s e' s' R T)
  from event_set_step(1) [OF raised(2,1)] show ?case .
next
  case (cleared e bits s e' s' R T)
  have c: "T b + (if bit (flags e) b then 1 else 0) \<le> R b" for b
    using cleared(2) by (simp add: event_ok_def)
  have "T b + (if bit (flags e AND NOT bits) b then 1 else 0) \<le> R b" for b
    using c [of b] by (cases "bit (flags e) b") (simp_all add: bit_and_not_word)
  moreover have "\<not> satisfied (flags e AND NOT bits) w" if "w \<in> set (registered e)" for w
    using cleared(2) that satisfied_mono by (auto simp: event_ok_def)
  ultimately show ?case
    using cleared(2) unfolding event_clear_eq [OF cleared(1)] by (simp add: event_ok_def)
next
  case (granted s i e bits e' s' R T)
  from event_wait_step(1) [OF granted(3,1,2)] show ?case by simp
next
  case (refused s i e bits e' s' R T)
  from event_wait_step(1) [OF refused(3,1,2)] show ?case by simp
next
  case (other s' s e R T)
  then show ?case by (simp add: event_ok_def)
qed

lemma event_step_registered:
  assumes "event_step (elsewhere {BLOCK_EVENT}) v w" and "event_ok v" and "all_registered v"
  shows "all_registered w"
  using assms
proof (induction rule: event_step.induct)
  case (raised e bits s e' s' R T)
  from event_set_step(2) [OF raised(2,1,3)] show ?case .
next
  case (cleared e bits s e' s' R T)
  then show ?case unfolding event_clear_eq [OF cleared(1)] by (simp add: all_registered_def)
next
  case (granted s i e bits e' s' R T)
  from event_wait_step(2) [OF granted(3,1,2,4)] show ?case .
next
  case (refused s i e bits e' s' R T)
  from event_wait_step(2) [OF refused(3,1,2,4)] show ?case .
next
  case (other s' s e R T)
  then show ?case by (auto simp: all_registered_def elsewhere_def)
qed

text \<open>A fresh object.\<close>

lemma event_init:
  assumes "length (waiters e0) = 8" and "event_flags_init (Some e0) = Some e"
  shows "ev_ok e" and "registered e = []" and "flags e = 0"
proof -
  let ?f = "loop_range 0 8 (\<lambda>i e. e\<lparr>waiters := (waiters e)[i := no_waiter]\<rparr>) (e0\<lparr>flags := 0, waiter_count := 0\<rparr>)"
  have "length (waiters ?f) = 8 \<and> waiter_count ?f = 0 \<and> flags ?f = 0"
    by (rule loop_range_inv [where P = "\<lambda>k f. length (waiters f) = 8 \<and> waiter_count f = 0 \<and> flags f = 0"])
      (simp_all add: assms(1))
  moreover have "e = ?f" using assms(2) by (simp add: event_flags_init_def RTOS_EVENT_MAX_WAITERS_def)
  ultimately show "ev_ok e" and "registered e = []" and "flags e = 0"
    by (simp_all add: ev_ok_def registered_def)
qed

section \<open>A small run\<close>

lemma event_refused:
  assumes a: "at_rest BLOCK_EVENT B s" and i: "i < 3" and e: "ev_ok e" "length (registered e) < 8"
    and bits: "bits \<noteq> 0" "flags e AND bits \<noteq> bits"
  obtains s' e' where "(event_step (elsewhere {BLOCK_EVENT}))\<^sup>*\<^sup>* (s, e, R, T) (s', e', R, T)"
    and "at_rest BLOCK_EVENT (insert i B) s'" and "ev_ok e'" and "flags e' = flags e"
    and "registered e' = registered e @ [\<lparr>task_index = int i, required_mask = bits\<rparr>]"
proof -
  note t = at_rest_turn [OF a i]
  let ?s = "turn i s" and ?E = "elsewhere {BLOCK_EVENT}"
  obtain n where n: "waiter_count e = int n" "n < 8" "length (waiters e) = 8"
    using e by (auto simp: ev_ok_def registered_def elim!: nonneg_int_cases)
  let ?e = "e\<lparr>waiters := (waiters e)[n := \<lparr>task_index = int i, required_mask = bits\<rparr>], waiter_count := int n + 1\<rparr>"
  let ?t = "scheduler_set_current_task_state TASK_BLOCKED BLOCK_EVENT (uart_log (Event (LogEventWait (int i) bits)) ?s)"
  have w: "event_flags_wait (Some e) bits ?s = Inr (False, Some ?e, ?t)"
    using n bits scheduler_current_index [OF t(2,3)]
    by (simp add: event_flags_wait_def Let_def RTOS_EVENT_MAX_WAITERS_def)
  have "event_step ?E (s, e, R, T) (?s, e, R, T)"
    by (rule event_step.other [OF t(2)]) (simp add: elsewhere_def t(4) at_restD(4) [OF a])
  moreover have "event_step ?E (?s, e, R, T) (?t, ?e, R, T)" by (rule event_step.refused [OF t(3) w])
  moreover have "at_rest BLOCK_EVENT (insert i B) ?t"
    using calling_api [OF t(1) api_step.event_wait [OF w]] t(2,3,4)
      blocked_set_wait(1) [OF kernel_invD(1), of "uart_log (Event (LogEventWait (int i) bits)) ?s" i BLOCK_EVENT]
    by (simp add: at_rest_def)
  moreover have "ev_ok ?e" "registered ?e = registered e @ [\<lparr>task_index = int i, required_mask = bits\<rparr>]"
    using n by (simp_all add: ev_ok_def registered_def nat_add_distrib take_Suc_update)
  ultimately show thesis by (intro that [of ?t ?e]) simp_all
qed

section \<open>Properties\<close>

text \<open>
  C14: Event flags under concurrency. Whatever sets, clears and waits the tasks make on an initialised object,
  if no other code blocks a task for BLOCK_EVENT: of each flag, the waits that consumed it are at
  most the sets that raised it, and fewer while it is up, so no event is consumed twice; every task blocked for
  an event is in the table of waiters; and no waiter in the table has all its flags up, so none waits
  for an event that is there.
\<close>

theorem event_protocol:
  assumes "kernel_inv s0" and "blocked_set BLOCK_EVENT s0 = {}" and "length (waiters e0) = 8"
    and "event_flags_init (Some e0) = Some e1"
    and "(event_step (elsewhere {BLOCK_EVENT}))\<^sup>*\<^sup>* (s0, e1, \<lambda>_. 0, \<lambda>_. 0) (s, e, R, T)"
  shows "(\<forall>b. T b \<le> R b \<and> (bit (flags e) b \<longrightarrow> T b < R b)) \<and>
    (\<forall>i\<in>blocked_set BLOCK_EVENT s. \<exists>w\<in>set (registered e). task_index w = int i) \<and>
    (\<forall>w\<in>set (registered e). flags e AND required_mask w \<noteq> required_mask w)"
proof -
  let ?v = "(s0, e1, \<lambda>_. 0, \<lambda>_. 0)"
  have v: "event_ok ?v" "all_registered ?v"
    using assms(1,2) event_init [OF assms(3,4)] by (simp_all add: event_ok_def all_registered_def)
  have "event_ok (s, e, R, T) \<and> all_registered (s, e, R, T)"
    using assms(5) by (induction rule: rtranclp_induct) (auto simp: v intro: event_step_ok event_step_registered)
  then have c: "T b + (if bit (flags e) b then 1 else 0) \<le> R b"
    and r: "int ` blocked_set BLOCK_EVENT s \<subseteq> task_index ` set (registered e)"
    and n: "\<forall>w\<in>set (registered e). \<not> satisfied (flags e) w" for b
    by (simp_all add: event_ok_def all_registered_def)
  have "T b \<le> R b \<and> (bit (flags e) b \<longrightarrow> T b < R b)" for b using c [of b] by (auto split: if_splits)
  moreover have "\<exists>w\<in>set (registered e). task_index w = int i" if "i \<in> blocked_set BLOCK_EVENT s" for i
    using subsetD [OF r imageI [OF that]] by force
  ultimately show ?thesis using n by (simp add: satisfied_def)
qed

text \<open>Task 0 waits for two flags, task 1 for one of them, which is then set: task 1 is served.\<close>

theorem event_protocol_witness:
  "\<exists>e0 e1 s e R T. event_flags_init (Some e0) = Some e1 \<and>
     (event_step (elsewhere {BLOCK_EVENT}))\<^sup>*\<^sup>* (three_tasks, e1, \<lambda>_. 0, \<lambda>_. 0) (s, e, R, T) \<and>
     blocked_set BLOCK_EVENT s = {0} \<and> R 0 = 1 \<and> T 0 = 1 \<and> \<not> bit (flags e) 0 \<and>
     (\<exists>w\<in>set (registered e). task_index w = 0)"
proof -
  let ?E = "elsewhere {BLOCK_EVENT}" and ?o = "(\<lambda>_. 0) :: nat \<Rightarrow> nat"
  define e0 where "e0 = \<lparr>flags = 7, waiters = replicate 8 no_waiter, waiter_count = 5\<rparr>"
  have l: "length (waiters e0) = 8" by (simp add: e0_def)
  obtain e1 where i: "event_flags_init (Some e0) = Some e1" by (simp add: event_flags_init_def)
  note e1 = event_init [OF l i]
  obtain a ea where r1: "(event_step ?E)\<^sup>*\<^sup>* (three_tasks, e1, ?o, ?o) (a, ea, ?o, ?o)" and a: "at_rest BLOCK_EVENT {0} a"
    and ea: "ev_ok ea" "flags ea = 0" "registered ea = [\<lparr>task_index = 0, required_mask = 3\<rparr>]"
    by (rule event_refused [OF three_at_rest _ e1(1), where i = 0 and bits = 3 and R = ?o and T = ?o])
      (simp_all add: e1)
  obtain b eb where r2: "(event_step ?E)\<^sup>*\<^sup>* (a, ea, ?o, ?o) (b, eb, ?o, ?o)" and b: "at_rest BLOCK_EVENT {1, 0} b"
    and eb: "ev_ok eb" "flags eb = 0"
      "registered eb = [\<lparr>task_index = 0, required_mask = 3\<rparr>, \<lparr>task_index = 1, required_mask = 1\<rparr>]"
    by (rule event_refused [OF a _ ea(1), where i = 1 and bits = 1 and R = ?o and T = ?o]) (simp_all add: ea)
  note B = at_restD [OF b]
  have sc: "event_scan (flags eb OR 1) (rev (registered eb)) =
      ([\<lparr>task_index = 1, required_mask = 1\<rparr>], [\<lparr>task_index = 0, required_mask = 3\<rparr>], 0)"
    by (simp add: eb satisfied_def)
  obtain d ed where s: "event_flags_set (Some eb) 1 b = Inr (Some ed, d)" "flags ed = 0"
    "mset (registered ed) = {#\<lparr>task_index = 0, required_mask = 3\<rparr>#}" "made_ready [\<lparr>task_index = 1, required_mask = 1\<rparr>] b d"
    using event_flags_set_scan [OF eb(1) B(1) _ sc] by (auto elim!: returnsE)
  let ?R = "bump 1 ?o" and ?T = "\<lambda>b. ?o b + consumers b (mset (registered eb) - mset (registered ed))"
  have bd: "blocked_set BLOCK_EVENT d = {0}" by (auto simp: blocked_set_made_ready [OF s(4)] B(4))
  have c: "?R 0 = 1" "?T 0 = 1" by (simp_all add: bump_def s(3) eb(3) consumers_def)
  have "event_step ?E (b, eb, ?o, ?o) (d, ed, ?R, ?T)" by (rule event_step.raised [OF s(1)])
  with r1 r2 have run: "(event_step ?E)\<^sup>*\<^sup>* (three_tasks, e1, ?o, ?o) (d, ed, ?R, ?T)" by simp
  from event_protocol [OF three_tasks(1,4) l i run] bd have "\<exists>w\<in>set (registered ed). task_index w = 0" by simp
  with i run bd c s(2) show ?thesis
    by (intro exI [of _ e0] exI [of _ e1] exI [of _ d] exI [of _ ed] exI [of _ ?R] exI [of _ ?T]) simp
qed

end
