(* ===== verification/Sched_Spec.thy ===== *)
theory Sched_Spec
  imports App_Contract
begin

text \<open>
  An abstract specification of the scheduler, and the proof that the code implements it. The
  specification has no arrays, queue slots, contexts, stacks or fault values: a \<open>machine\<close> is a
  list of jobs, the ready ones in order of arrival, the current one, the clock and the alarms
  (the software timers). \<open>spec_cycle\<close> is one tick of it. Under an application whose tasks and
  callbacks meet their own specifications, the scheduling loop of \<open>scheduler.c\<close> and
  \<open>spec_cycle\<close> go through the same states.
\<close>

section \<open>The abstract machine\<close>

record job =
  j_function :: addr
  j_priority :: int
  j_state :: TaskState
  j_reason :: BlockReason
  j_sleep :: int
  j_slice :: "32 word"

text \<open>A claimed timer. Its counters are natural numbers; a free slot is \<open>None\<close>.\<close>

record alarm =
  a_mode :: TimerMode
  a_period :: nat
  a_left :: nat
  a_callback :: addr
  a_arg :: addr
  a_on :: bool

record machine =
  jobs :: "job list"
  ready_line :: "nat list"
  current :: "nat option"
  clock :: "32 word"
  printed :: "(int \<times> int \<times> string \<times> int list) list"
  alarms :: "alarm option list"

definition enter_state :: "TaskState \<Rightarrow> BlockReason \<Rightarrow> job \<Rightarrow> job" where
  "enter_state st r j =
     (if st = TASK_READY then j\<lparr>j_state := st, j_sleep := 0, j_reason := BLOCK_NONE\<rparr>
      else j\<lparr>j_state := st, j_reason := r\<rparr>)"

definition move :: "nat \<Rightarrow> TaskState \<Rightarrow> BlockReason \<Rightarrow> machine \<Rightarrow> machine" where
  "move i st r m = m\<lparr>jobs := (jobs m)[i := enter_state st r (jobs m ! i)],
     ready_line := remove1 i (ready_line m) @ (if st = TASK_READY then [i] else [])\<rparr>"

text \<open>The calls of the running job: wait for a reason, wake the best waiter, sleep, print.\<close>

definition block :: "BlockReason \<Rightarrow> machine \<Rightarrow> machine" where
  "block r m = (case current m of None \<Rightarrow> m | Some i \<Rightarrow> move i TASK_BLOCKED r m)"

definition waits :: "BlockReason \<Rightarrow> job \<Rightarrow> bool" where
  "waits r j \<longleftrightarrow> j_state j = TASK_BLOCKED \<and> j_reason j = r"

definition release :: "BlockReason \<Rightarrow> machine \<Rightarrow> machine" where
  "release r m =
     (case first_max (\<lambda>i. j_priority (jobs m ! i)) (filter (\<lambda>i. waits r (jobs m ! i)) [0..<length (jobs m)]) of
        None \<Rightarrow> m | Some i \<Rightarrow> move i TASK_READY BLOCK_NONE m)"

definition nap :: "int \<Rightarrow> machine \<Rightarrow> machine" where
  "nap n m =
     (case current m of None \<Rightarrow> m
      | Some i \<Rightarrow> move i TASK_BLOCKED BLOCK_SLEEP (m\<lparr>jobs := (jobs m)[i := (jobs m ! i)\<lparr>j_sleep := n\<rparr>]\<rparr>))"

definition say :: "string \<Rightarrow> int list \<Rightarrow> machine \<Rightarrow> machine" where
  "say txt xs m = m\<lparr>printed :=
     (to_int (uint (clock m div 60)), to_int (uint (clock m mod 60)), txt, xs) # printed m\<rparr>"

text \<open>The calls on an alarm; a call on a free slot or on no slot does nothing.\<close>

definition on_alarm :: "nat \<Rightarrow> (alarm \<Rightarrow> alarm option) \<Rightarrow> machine \<Rightarrow> machine" where
  "on_alarm i f m = m\<lparr>alarms := (alarms m)[i := Option.bind (alarms m ! i) f]\<rparr>"

definition arm :: "nat option \<Rightarrow> machine \<Rightarrow> machine" where
  "arm h m = (case h of None \<Rightarrow> m
     | Some i \<Rightarrow> on_alarm i (\<lambda>a. Some (a\<lparr>a_left := a_period a, a_on := True\<rparr>)) m)"

definition disarm :: "nat option \<Rightarrow> machine \<Rightarrow> machine" where
  "disarm h m = (case h of None \<Rightarrow> m | Some i \<Rightarrow> on_alarm i (\<lambda>a. Some (a\<lparr>a_on := False\<rparr>)) m)"

definition give_back :: "nat option \<Rightarrow> machine \<Rightarrow> machine" where
  "give_back h m = (case h of None \<Rightarrow> m | Some i \<Rightarrow> on_alarm i (\<lambda>a. None) m)"

definition claim :: "TimerMode \<Rightarrow> nat \<Rightarrow> addr \<Rightarrow> addr \<Rightarrow> machine \<Rightarrow> nat option \<times> machine" where
  "claim md period cb arg m =
     (if cb = 0 \<or> period = 0 then (None, m)
      else case find (\<lambda>i. alarms m ! i = None) [0..<length (alarms m)] of
        None \<Rightarrow> (None, m)
      | Some i \<Rightarrow> (Some i, m\<lparr>alarms := (alarms m)[i := Some \<lparr>a_mode = md, a_period = period,
          a_left = period, a_callback = cb, a_arg = arg, a_on = False\<rparr>]\<rparr>))"

text \<open>
  One tick of an alarm. \<open>call f a\<close> is what the callback at \<open>f\<close> does with the argument \<open>a\<close>; it may
  change the alarms, its own included, and what follows it works on the slot the callback left.
\<close>

type_synonym 'd effect = "machine \<times> 'd \<Rightarrow> machine \<times> 'd"

definition wind :: "nat \<Rightarrow> machine \<Rightarrow> machine" where
  "wind i = on_alarm i (\<lambda>a. Some (a\<lparr>a_left := a_left a - 1\<rparr>))"

definition rewind :: "nat \<Rightarrow> machine \<Rightarrow> machine" where
  "rewind i = on_alarm i (\<lambda>a. Some (if a_mode a = TIMER_PERIODIC then a\<lparr>a_left := a_period a\<rparr>
     else a\<lparr>a_on := False\<rparr>))"

definition alarm_step :: "(addr \<Rightarrow> addr \<Rightarrow> 'd effect) \<Rightarrow> nat \<Rightarrow> 'd effect" where
  "alarm_step call i md =
     (case alarms (fst md) ! i of None \<Rightarrow> md
      | Some a \<Rightarrow>
        if \<not> a_on a then md
        else if a_left a > 1 then (wind i (fst md), snd md)
        else let (m, d) = call (a_callback a) (a_arg a) (wind i (fst md), snd md) in (rewind i m, d))"

definition ring :: "(addr \<Rightarrow> addr \<Rightarrow> 'd effect) \<Rightarrow> 'd effect" where
  "ring call md = fold (alarm_step call) [0..<length (alarms (fst md))] md"

text \<open>
  One tick: sleepers count down, the due ones join the line; the alarms ring; a job is picked
  and has its turn.
\<close>

definition count_down :: "job \<Rightarrow> job" where
  "count_down j =
     (if \<not> waits BLOCK_SLEEP j then j
      else if j_sleep j \<le> 1 then enter_state TASK_READY BLOCK_NONE j
      else j\<lparr>j_sleep := j_sleep j - 1\<rparr>)"

definition due :: "job \<Rightarrow> bool" where
  "due j \<longleftrightarrow> waits BLOCK_SLEEP j \<and> j_sleep j \<le> 1"

definition tick :: "machine \<Rightarrow> machine" where
  "tick m = m\<lparr>clock := clock m + 1, jobs := map count_down (jobs m),
     ready_line := ready_line m @ filter (\<lambda>i. due (jobs m ! i)) [0..<length (jobs m)]\<rparr>"

definition pick :: "machine \<Rightarrow> nat option" where
  "pick m =
     (case first_max (\<lambda>i. j_priority (jobs m ! i)) (ready_line m) of None \<Rightarrow> None
      | Some b \<Rightarrow>
        (case current m of None \<Rightarrow> Some b
         | Some c \<Rightarrow>
           if j_state (jobs m ! c) = TASK_READY \<and> j_priority (jobs m ! c) = j_priority (jobs m ! b) \<and>
              (b = c \<or> j_slice (jobs m ! c) = 0)
           then Some c else Some b))"

definition turn_to :: "nat \<Rightarrow> machine \<Rightarrow> machine" where
  "turn_to i m = move i TASK_RUNNING BLOCK_NONE
     (m\<lparr>jobs := (jobs m)[i := (jobs m ! i)\<lparr>j_slice :=
          (if current m = Some i then j_slice (jobs m ! i) + 1 else 1)\<rparr>], current := Some i\<rparr>)"

definition end_turn :: "nat \<Rightarrow> machine \<Rightarrow> machine" where
  "end_turn i m = (if j_state (jobs m ! i) = TASK_RUNNING then move i TASK_READY BLOCK_NONE m else m)"

definition rest :: "machine \<Rightarrow> machine" where
  "rest m = (case current m of None \<Rightarrow> m | Some i \<Rightarrow> m\<lparr>jobs := (jobs m)[i := (jobs m ! i)\<lparr>j_slice := 0\<rparr>]\<rparr>)"

text \<open>\<open>sem f\<close> is what the task function at address \<open>f\<close> does to the machine and the program's data.\<close>

definition have_turn :: "(addr \<Rightarrow> 'd effect) \<Rightarrow> 'd effect" where
  "have_turn sem md =
     (case pick (fst md) of None \<Rightarrow> (rest (fst md), snd md)
      | Some i \<Rightarrow>
        let m1 = turn_to i (fst md); (m2, d) = sem (j_function (jobs m1 ! i)) (m1, snd md) in (end_turn i m2, d))"

definition spec_cycle :: "(addr \<Rightarrow> 'd effect) \<Rightarrow> (addr \<Rightarrow> addr \<Rightarrow> 'd effect) \<Rightarrow> 'd effect" where
  "spec_cycle sem call md = have_turn sem (ring call (tick (fst md), snd md))"

text \<open>
  The same cycle with tasks and callbacks that may do several things: \<open>sem f x y\<close> when the task
  function at \<open>f\<close> may go from \<open>x\<close> to \<open>y\<close>. With the graph of an effect it is the cycle above.
\<close>

type_synonym 'd move = "machine \<times> 'd \<Rightarrow> machine \<times> 'd \<Rightarrow> bool"

inductive alarm_move :: "(addr \<Rightarrow> addr \<Rightarrow> 'd move) \<Rightarrow> nat \<Rightarrow> 'd move" for call i where
  free: "alarms m ! i = None \<Longrightarrow> alarm_move call i (m, d) (m, d)"
| off: "alarms m ! i = Some a \<Longrightarrow> \<not> a_on a \<Longrightarrow> alarm_move call i (m, d) (m, d)"
| count: "alarms m ! i = Some a \<Longrightarrow> a_on a \<Longrightarrow> a_left a > 1 \<Longrightarrow> alarm_move call i (m, d) (wind i m, d)"
| ring: "alarms m ! i = Some a \<Longrightarrow> a_on a \<Longrightarrow> a_left a \<le> 1 \<Longrightarrow>
    call (a_callback a) (a_arg a) (wind i m, d) (m', d') \<Longrightarrow> alarm_move call i (m, d) (rewind i m', d')"

inductive ring_move :: "(addr \<Rightarrow> addr \<Rightarrow> 'd move) \<Rightarrow> nat \<Rightarrow> 'd move" for call where
  none: "ring_move call 0 x x"
| "next": "ring_move call k x y \<Longrightarrow> alarm_move call k y z \<Longrightarrow> ring_move call (Suc k) x z"

inductive turn_move :: "(addr \<Rightarrow> 'd move) \<Rightarrow> 'd move" for sem where
  idle: "pick m = None \<Longrightarrow> turn_move sem (m, d) (rest m, d)"
| run: "pick m = Some i \<Longrightarrow> sem (j_function (jobs (turn_to i m) ! i)) (turn_to i m, d) (m', d') \<Longrightarrow>
    turn_move sem (m, d) (end_turn i m', d')"

inductive cycle_move :: "(addr \<Rightarrow> 'd move) \<Rightarrow> (addr \<Rightarrow> addr \<Rightarrow> 'd move) \<Rightarrow> 'd move" for sem call where
  cycle: "ring_move call (length (alarms m)) (tick m, d) x \<Longrightarrow> turn_move sem x y \<Longrightarrow>
    cycle_move sem call (m, d) y"

inductive_simps alarm_move_simps: "alarm_move call i (m, d) y"
inductive_simps ring_move_simps: "ring_move call 0 x y" "ring_move call (Suc k) x y"
inductive_simps turn_move_simps: "turn_move sem (m, d) y"
inductive_simps cycle_move_simps: "cycle_move sem call (m, d) y"

lemma alarm_move_graph: "alarm_move (\<lambda>f a x y. y = c f a x) i x y \<longleftrightarrow> y = alarm_step c i x"
  by (cases x) (auto simp: alarm_move_simps alarm_step_def split: option.split prod.split)

lemma ex_pair_eq [simp]: "(\<exists>a b. (a, b) = x \<and> P a b) \<longleftrightarrow> P (fst x) (snd x)"
  by (cases x) auto

lemma ring_move_graph: "ring_move (\<lambda>f a x y. y = c f a x) k x y \<longleftrightarrow> y = fold (alarm_step c) [0..<k] x"
  by (induction k arbitrary: y) (auto simp: ring_move_simps alarm_move_graph)

lemma turn_move_graph: "turn_move (\<lambda>f x y. y = g f x) x y \<longleftrightarrow> y = have_turn g x"
  by (cases x) (auto simp: turn_move_simps have_turn_def Let_def split: option.split prod.split)

lemma cycle_move_graph:
  "cycle_move (\<lambda>f x y. y = g f x) (\<lambda>f a x y. y = c f a x) x y \<longleftrightarrow> y = spec_cycle g c x"
  by (cases x) (simp add: cycle_move_simps ring_move_graph turn_move_graph spec_cycle_def ring_def tick_def)

lemmas cycle_move_graph_fun = cycle_move_graph [abs_def]

lemma relpowp_graph: "((\<lambda>x y. y = f x) ^^ n) x y \<longleftrightarrow> y = ((f :: 'a \<Rightarrow> 'a) ^^ n) x"
  by (induction n arbitrary: y) (auto elim!: relpowp_0_E relpowp_Suc_E intro: relpowp_0_I relpowp_Suc_I)

section \<open>The machine a kernel state represents\<close>

definition job_of :: "TCB \<Rightarrow> job" where
  "job_of t = \<lparr>j_function = task_function t, j_priority = priority t, j_state = state t,
     j_reason = block_reason t, j_sleep = sleep_ticks t, j_slice = slice_ticks_used t\<rparr>"

definition alarm_of :: "SoftTimer \<Rightarrow> alarm option" where
  "alarm_of t = (if in_use t then Some \<lparr>a_mode = mode t, a_period = unat (period_ticks t),
     a_left = unat (remaining t), a_callback = callback t, a_arg = timer_arg t, a_on = active t\<rparr> else None)"

definition machine_of :: "'a kernel_scheme \<Rightarrow> machine" where
  "machine_of s = \<lparr>jobs = map job_of (take (task_count s) (task_list s)), ready_line = map nat (rq_list s),
     current = rtos_current_task s, clock = g_kernel_tick s, printed = app_lines s,
     alarms = map alarm_of (g_soft_timers s)\<rparr>"

lemma job_of_fields [simp]:
  "j_function (job_of t) = task_function t" "j_priority (job_of t) = priority t"
  "j_state (job_of t) = state t" "j_reason (job_of t) = block_reason t"
  "j_sleep (job_of t) = sleep_ticks t" "j_slice (job_of t) = slice_ticks_used t"
  by (simp_all add: job_of_def)

lemma job_of_updates [simp]:
  "job_of (t\<lparr>sleep_ticks := n\<rparr>) = (job_of t)\<lparr>j_sleep := n\<rparr>"
  "job_of (t\<lparr>slice_ticks_used := k\<rparr>) = (job_of t)\<lparr>j_slice := k\<rparr>"
  by (simp_all add: job_of_def)

lemma enter_state_fields [simp]:
  "j_function (enter_state st r j) = j_function j" "j_priority (enter_state st r j) = j_priority j"
  "j_state (enter_state st r j) = st" "j_slice (enter_state st r j) = j_slice j"
  by (simp_all add: enter_state_def)

lemma job_of_to [simp]: "job_of (tcb_to st r t) = enter_state st r (job_of t)"
  by (simp add: job_of_def enter_state_def tcb_to_def)

lemma waits_job_of [simp]: "waits r (job_of t) \<longleftrightarrow> state t = TASK_BLOCKED \<and> block_reason t = r"
  by (simp add: waits_def)

lemma machine_of_fields [simp]:
  "jobs (machine_of s) = map job_of (take (task_count s) (task_list s))"
  "ready_line (machine_of s) = map nat (rq_list s)"
  "current (machine_of s) = rtos_current_task s"
  "clock (machine_of s) = g_kernel_tick s" "printed (machine_of s) = app_lines s"
  "alarms (machine_of s) = map alarm_of (g_soft_timers s)"
  by (simp_all add: machine_of_def)

lemma machine_of_log [simp]:
  "machine_of (uart_log (Sched a) s) = machine_of s" "machine_of (uart_log (Timer b) s) = machine_of s"
  "machine_of (uart_log (Rtos c) s) = machine_of s" "machine_of (uart_log (Pool d) s) = machine_of s"
  "machine_of (uart_log (Event e) s) = machine_of s"
  "machine_of (uart_log (App txt xs) s) = say txt xs (machine_of s)"
  by (simp_all add: machine_of_def say_def rtos_current_task_def timer_now_def)

lemma machine_of_timer [simp]:
  "machine_of (upd_timer i f s) =
     (machine_of s)\<lparr>alarms := (alarms (machine_of s))[i := alarm_of (f (g_soft_timers s ! i))]\<rparr>"
  by (simp add: machine_of_def rtos_current_task_def rq_list_def app_lines_def map_update)

lemma machine_of_more [simp]: "machine_of (kernel.more_update f s) = machine_of s"
  by (simp add: machine_of_def rtos_current_task_def rq_list_def app_lines_def)

lemma machine_eqI:
  assumes "length (jobs m) = length (jobs n)"
    and "\<And>j. j < length (jobs n) \<Longrightarrow> jobs m ! j = jobs n ! j"
    and "ready_line m = ready_line n" and "current m = current n" and "clock m = clock n"
    and "printed m = printed n" and "alarms m = alarms n"
  shows "(m :: machine) = n"
  using assms by (intro machine.equality) (auto intro: nth_equalityI)

text \<open>Under the scheduler's invariant the jobs and the line are those of the control blocks.\<close>

lemma machine_of_jobs:
  assumes "sched_inv s"
  shows "length (jobs (machine_of s)) = task_count s"
    and "i < task_count s \<Longrightarrow> jobs (machine_of s) ! i = job_of (tcb s i)"
  using sched_invD(3,4) [OF assms] by (simp_all add: min_def)

lemma rq_list_line:
  assumes "sched_inv s"
  shows "rq_list s = map int (ready_line (machine_of s))"
proof -
  have "int (nat x) = x" if "x \<in> set (rq_list s)" for x
    using sched_invD(7) [OF assms] that ready_set_nonneg by fastforce
  then have "map (int \<circ> nat) (rq_list s) = rq_list s" by (simp add: map_idI)
  then show ?thesis by simp
qed

lemma map_remove1_inj: "inj f \<Longrightarrow> map f (remove1 x xs) = remove1 (f x) (map f xs)"
  by (induction xs) (auto dest: injD)

lemma line_remove1:
  assumes "sched_inv s"
  shows "map nat (remove1 (int i) (rq_list s)) = remove1 i (map nat (rq_list s))"
proof -
  let ?l = "ready_line (machine_of s)"
  have "map nat (remove1 (int i) (map int ?l)) = map nat (map int (remove1 i ?l))"
    by (simp add: map_remove1_inj [OF inj_of_nat])
  also have "\<dots> = remove1 i ?l" by (simp add: comp_def)
  finally show ?thesis unfolding rq_list_line [OF assms, symmetric] by simp
qed

section \<open>Each operation implements its counterpart\<close>

lemma machine_move:
  assumes inv: "sched_inv s" and i: "i < task_count s"
  shows "machine_of (scheduler_set_task_state (int i) st r s) = move i st r (machine_of s)"
proof -
  note I = sched_invD [OF inv]
  have "map job_of (take (task_count s) (task_list (scheduler_set_task_state (int i) st r s))) =
      (map job_of (take (task_count s) (task_list s)))[i := enter_state st r (job_of (tcb s i))]"
    using I i by (simp add: set_task_state_tcb take_update_swap map_update)
  then show ?thesis
    using i I(3,4) set_task_state_rq(1) [OF inv i, of st r] line_remove1 [OF inv, of i]
    by (simp add: machine_of_def move_def rtos_current_task_def)
qed

lemma machine_block:
  assumes inv: "sched_inv s"
  shows "machine_of (scheduler_set_current_task_state TASK_BLOCKED r s) = block r (machine_of s)"
proof (cases "rtos_current_task s")
  case None
  then have "scheduler_set_current_task_state TASK_BLOCKED r s = s"
    using set_task_state_invalid [of "current_task_index s" s TASK_BLOCKED r]
    by (auto simp: rtos_current_task_None scheduler_set_current_task_state_def)
  then show ?thesis using None by (simp add: block_def)
next
  case (Some i)
  then have "i < task_count s" by (simp add: rtos_current_task_Some)
  then show ?thesis
    using Some by (simp add: set_current_eq [OF inv Some] machine_move [OF inv] block_def)
qed

lemma best_waiter_release:
  assumes inv: "sched_inv s"
  shows "best_waiter r s = first_max (\<lambda>i. j_priority (jobs (machine_of s) ! i))
    (filter (\<lambda>i. waits r (jobs (machine_of s) ! i)) [0..<length (jobs (machine_of s))])"
proof -
  note J = machine_of_jobs [OF inv]
  have "filter (\<lambda>i. waits r (jobs (machine_of s) ! i)) [0..<task_count s] = blocked_on r s"
    unfolding blocked_on_def using J(2)
    by (intro filter_cong) (auto simp: waiting_for_def simp del: machine_of_fields)
  then show ?thesis
    unfolding best_waiter_def J(1)
    by (simp only:) (rule first_max_cong, auto simp: blocked_on_def J(2) simp del: machine_of_fields)
qed

lemma machine_release:
  assumes inv: "sched_inv s"
  shows "returns (scheduler_unblock_one r s) (\<lambda>s'. machine_of s' = release r (machine_of s))"
proof (cases "best_waiter r s")
  case None
  then show ?thesis
    using sched_invD(1) [OF inv] by (simp add: scheduler_unblock_one_eq release_def best_waiter_release [OF inv]
        del: machine_of_fields)
next
  case (Some w)
  with best_waiterD(1) [OF Some] show ?thesis
    using sched_invD(1) [OF inv]
    by (simp add: scheduler_unblock_one_eq Let_def machine_move [OF inv] del: machine_of_fields)
      (simp add: release_def best_waiter_release [OF inv, symmetric] del: machine_of_fields)
qed

lemma machine_upd_tcb:
  assumes "sched_inv s" and "i < task_count s"
  shows "machine_of (upd_tcb i f s) = (machine_of s)\<lparr>jobs := (jobs (machine_of s))[i := job_of (f (tcb s i))]\<rparr>"
  using assms sched_invD(3,4) [OF assms(1)]
  by (simp add: machine_of_def take_update_swap map_update rtos_current_task_def rq_list_def)

lemma machine_nap:
  assumes inv: "sched_inv s" and n: "INT_MIN < n" "n \<le> INT_MAX"
  shows "machine_of (rtos_task_sleep n s) = nap n (machine_of s)"
proof (cases "rtos_current_task s")
  case None
  then show ?thesis by (simp add: rtos_task_sleep_def nap_def)
next
  case (Some i)
  then have i: "i < task_count s" by (simp add: rtos_current_task_Some)
  let ?u = "upd_tcb i (\<lambda>t. t\<lparr>sleep_ticks := n\<rparr>) s"
  have "sched_inv ?u"
    using sched_invD(10) [OF inv i] n by (intro sched_inv_upd_tcb inv) (simp add: tcb_ok_def)
  then show ?thesis
    using Some i machine_of_jobs(2) [OF inv i]
    by (simp add: rtos_task_sleep_def nap_def machine_block machine_upd_tcb [OF inv i] block_def
        del: machine_of_fields(1))
qed

lemma machine_rest:
  assumes inv: "sched_inv s"
  shows "machine_of (scheduler_idle tk s) = rest (machine_of s)"
proof (cases "running_index s")
  case None
  then have "rtos_current_task s = None"
    using sched_invD(1) [OF inv] by (auto simp: running_index_def rtos_current_task_def split: if_splits)
  then show ?thesis using None by (simp add: scheduler_idle_def rest_def)
next
  case (Some c)
  then have c: "rtos_current_task s = Some c" "c < task_count s"
    using inv by (simp_all add: running_index_Some rtos_current_task_Some)
  show ?thesis
    using Some c machine_of_jobs(2) [OF inv c(2)]
    by (simp add: scheduler_idle_def rest_def machine_upd_tcb [OF inv c(2)] del: machine_of_fields(1))
qed

lemma job_of_sleep [simp]: "job_of (sleep_tcb t) = count_down (job_of t)"
  by (simp add: sleep_tcb_def count_down_def sleeping_def)

lemma due_job_of [simp]: "due (job_of t) = sleep_expires t"
  by (simp add: due_def sleep_expires_def sleeping_def)

text \<open>The clock and the sleepers.\<close>

lemma machine_tick:
  assumes inv: "sched_inv s"
  shows "returns (for_range 0 (task_count s) sleep_step (timer_tick s))
    (\<lambda>s'. kernel.more s' = kernel.more s \<and> machine_of s' = tick (machine_of s))"
proof -
  let ?t = "timer_tick s"
  have t: "sched_inv ?t" "kernel.more ?t = kernel.more s" "tcb ?t = tcb s" "task_count ?t = task_count s"
    "rq_list ?t = rq_list s" "app_lines ?t = app_lines s" "rtos_current_task ?t = rtos_current_task s"
    "g_kernel_tick ?t = g_kernel_tick s + 1" "g_soft_timers ?t = g_soft_timers s"
    using inv by (simp_all add: rq_list_def app_lines_def rtos_current_task_def)
  show ?thesis
  proof (rule returns_mono [OF sleep_loop_spec [OF t(1), unfolded t(4)]])
    fix s'
    assume "sched_inv s' \<and> sleep_frame ?t s' \<and> length (task_list s') = length (task_list ?t) \<and>
      (\<forall>j. tcb s' j = (if j < task_count s then sleep_tcb (tcb ?t j) else tcb ?t j)) \<and>
      rq_list s' = rq_list ?t @ map int (filter (\<lambda>j. sleep_expires (tcb ?t j)) [0..<task_count s])"
    then have S: "sched_inv s'" and fr: "sleep_frame ?t s'"
      and tk: "\<And>j. j < task_count s \<Longrightarrow> tcb s' j = sleep_tcb (tcb s j)"
      and rq: "rq_list s' = rq_list s @ map int (filter (\<lambda>j. sleep_expires (tcb s j)) [0..<task_count s])"
      by (simp_all add: t)
    have F: "task_count s' = task_count s" "rtos_current_task s' = rtos_current_task s"
      "g_kernel_tick s' = g_kernel_tick s + 1" "app_lines s' = app_lines s" "kernel.more s' = kernel.more s"
      "g_soft_timers s' = g_soft_timers s"
      using fr t by (simp_all add: sleep_frame_def rtos_current_task_def)
    note J = machine_of_jobs [OF S] machine_of_jobs [OF inv]
    have "machine_of s' = tick (machine_of s)"
    proof (rule machine_eqI)
      show "jobs (machine_of s') ! j = jobs (tick (machine_of s)) ! j"
        if "j < length (jobs (tick (machine_of s)))" for j
        using that J tk F(1) by (simp add: tick_def del: machine_of_fields(1))
      have "filter (\<lambda>i. due (jobs (machine_of s) ! i)) [0..<task_count s] =
          filter (\<lambda>j. sleep_expires (tcb s j)) [0..<task_count s]"
        using J(4) by (intro filter_cong) (auto simp del: machine_of_fields(1))
      then show "ready_line (machine_of s') = ready_line (tick (machine_of s))"
        by (simp add: tick_def rq J(3) comp_def del: machine_of_fields(1))
    qed (use J F in \<open>simp_all add: tick_def del: machine_of_fields(1)\<close>)
    with F(5) show "kernel.more s' = kernel.more s \<and> machine_of s' = tick (machine_of s)"
      by blast
  qed
qed

section \<open>The alarms\<close>

lemma alarm_of_fields:
  "in_use t \<Longrightarrow> alarm_of t = Some \<lparr>a_mode = mode t, a_period = unat (period_ticks t),
     a_left = unat (remaining t), a_callback = callback t, a_arg = timer_arg t, a_on = active t\<rparr>"
  "\<not> in_use t \<Longrightarrow> alarm_of t = None"
  by (simp_all add: alarm_of_def)

lemma machine_on_alarm:
  assumes "i < length (g_soft_timers s)"
    and "alarm_of (f (g_soft_timers s ! i)) = Option.bind (alarm_of (g_soft_timers s ! i)) g"
  shows "machine_of (upd_timer i f s) = on_alarm i g (machine_of s)"
  using assms by (simp add: on_alarm_def del: machine_of_fields(1-5))

lemma on_alarm_same:
  "Option.bind (alarms m ! i) f = alarms m ! i \<Longrightarrow> on_alarm i f (m :: machine) = m"
  by (simp add: on_alarm_def)

lemma machine_wind:
  assumes "i < length (g_soft_timers s)"
  shows "machine_of (soft_countdown i s) = wind i (machine_of s)"
proof -
  let ?t = "g_soft_timers s ! i"
  have dec: "unat (remaining ?t - 1) = unat (remaining ?t) - 1" if "remaining ?t > 0"
    using that by (simp add: unat_minus_one word_gt_0)
  show ?thesis
  proof (cases "remaining ?t > 0")
    case True
    then show ?thesis
      using assms dec unfolding soft_countdown_def wind_def
      by (simp del: machine_of_timer) (intro machine_on_alarm, simp_all add: alarm_of_def)
  next
    case False
    then have "Option.bind (alarm_of ?t) (\<lambda>a. Some (a\<lparr>a_left := a_left a - 1\<rparr>)) = alarm_of ?t"
      by (simp add: alarm_of_def word_gt_0)
    with False show ?thesis
      using assms by (simp add: soft_countdown_def wind_def on_alarm_same del: machine_of_fields(1-5))
  qed
qed

lemma machine_rewind:
  assumes "i < length (g_soft_timers s)"
  shows "machine_of (soft_after_callback i s) = rewind i (machine_of s)"
proof -
  let ?f = "\<lambda>t. if mode t = TIMER_PERIODIC then t\<lparr>remaining := period_ticks t\<rparr> else t\<lparr>active := False\<rparr>"
  have "machine_of (soft_after_callback i s) = machine_of (upd_timer i ?f s)"
    by (simp add: soft_after_callback_def Let_def)
  also have "\<dots> = rewind i (machine_of s)"
    unfolding rewind_def using assms by (intro machine_on_alarm) (simp_all add: alarm_of_def)
  finally show ?thesis .
qed

section \<open>The decision\<close>

lemma first_max_map: "first_max f (map g xs) = map_option g (first_max (f \<circ> g) xs)"
  by (induction xs) (auto split: option.splits)

lemma head_task_line:
  assumes inv: "sched_inv s"
  shows "head_task s =
    map_option int (first_max (\<lambda>i. j_priority (jobs (machine_of s) ! i)) (ready_line (machine_of s)))"
proof -
  let ?l = "ready_line (machine_of s)"
  have i: "i < task_count s" if "i \<in> set ?l" for i
  proof -
    have "int i \<in> set (rq_list s)" unfolding rq_list_line [OF inv] set_map using that by (rule imageI)
    then show ?thesis using sched_invD(7) [OF inv] by simp
  qed
  have "head_task s = map_option int (first_max (prio_of s \<circ> int) ?l)"
    unfolding head_task_def rq_list_line [OF inv] first_max_map ..
  also have "first_max (prio_of s \<circ> int) ?l = first_max (\<lambda>i. j_priority (jobs (machine_of s) ! i)) ?l"
    using i machine_of_jobs(2) [OF inv]
    by (intro first_max_cong) (simp add: prio_of_def del: machine_of_fields)
  finally show ?thesis .
qed

lemma chosen_pick:
  assumes inv: "sched_inv s"
  shows "chosen s = pick (machine_of s)"
proof (cases "first_max (\<lambda>i. j_priority (jobs (machine_of s) ! i)) (ready_line (machine_of s))")
  case None
  then show ?thesis
    unfolding chosen_def pick_def head_task_line [OF inv] by simp
next
  case (Some b)
  then have hd: "head_task s = Some (int b)" by (simp add: head_task_line [OF inv])
  then have b: "b < task_count s" using head_task_Some [OF inv hd] by (metis of_nat_eq_iff)
  note J = machine_of_jobs(2) [OF inv]
  show ?thesis
  proof (cases "rtos_current_task s")
    case None
    then have "running_index s = None"
      using sched_invD(1) [OF inv] by (auto simp: running_index_def rtos_current_task_def split: if_splits)
    then show ?thesis using None Some hd by (simp add: chosen_def continues_def pick_def del: machine_of_fields(1,2))
  next
    case cur: (Some c)
    then have c: "c < task_count s" "running_index s = Some c"
      using inv by (simp_all add: running_index_Some rtos_current_task_Some)
    then show ?thesis
      using cur Some hd J [OF b] J [OF c(1)]
      by (simp add: chosen_def continues_def pick_def prio_of_def del: machine_of_fields(1,2))
  qed
qed

lemma machine_entered:
  assumes inv: "sched_inv s" and d: "dispatchable i d" and core: "same_core i s d"
    and how: "goes_on i s d \<or> current_task_index s \<noteq> int i \<and> switched_in (current_task_index s) i s d"
  shows "machine_of (entered i d) = turn_to i (machine_of s)"
proof -
  note I = sched_invD [OF inv] and J = machine_of_jobs [OF inv] and E = machine_of_jobs [OF sched_inv_entered [OF d]]
  have D: "i < task_count s" "task_count (entered i d) = task_count s" "length (task_list d) = 8"
    "length (task_list s) = 8"
    using d core I(3) by (auto simp: dispatchable_def same_core_def entered_def)
  let ?sl = "if rtos_current_task s = Some i then slice_ticks_used (tcb s i) + 1 else 1"
  have cur: "rtos_current_task s = Some i \<longleftrightarrow> current_task_index s = int i"
    using D(1) by (simp add: rtos_current_task_Some)
  have jd: "job_of (tcb d j) = (job_of (tcb s j))\<lparr>j_slice := (if j = i then ?sl else slice_ticks_used (tcb s j))\<rparr>"
    if "j < task_count s" for j
  proof -
    have j: "j < 8" using that I(4) by simp
    then have "tcb_core (tcb d j) = tcb_core (tcb s j)" using core D(4) by (simp add: same_core_def)
    note c = tcb_core_eqD [OF this]
    have "slice_ticks_used (tcb d j) = (if j = i then ?sl else slice_ticks_used (tcb s j))"
      using how cur j D(4) by (auto simp: goes_on_def switched_in_def)
    with c(1-3,6,7) show ?thesis by (simp add: job_of_def)
  qed
  show ?thesis
  proof (rule machine_eqI)
    show "length (jobs (machine_of (entered i d))) = length (jobs (turn_to i (machine_of s)))"
      by (simp add: E(1) J(1) D(2) turn_to_def move_def del: machine_of_fields(1))
    fix j
    assume "j < length (jobs (turn_to i (machine_of s)))"
    then have j: "j < task_count s" by (simp add: turn_to_def move_def J(1) del: machine_of_fields(1))
    then have "job_of (tcb (entered i d) j) =
        (if j = i then enter_state TASK_RUNNING BLOCK_NONE (job_of (tcb d i)) else job_of (tcb d j))"
      using D I(4) by (simp add: entered_tasks [OF d])
    then show "jobs (machine_of (entered i d)) ! j = jobs (turn_to i (machine_of s)) ! j"
      using j D(1,2) E(2) [of j] J jd [OF j]
      by (cases "j = i") (simp_all add: turn_to_def move_def del: machine_of_fields(1))
  next
    have "rq_list (entered i d) = remove1 (int i) (rq_list s)"
      using core by (simp add: entered_rq(1) [OF d] same_core_def)
    then show "ready_line (machine_of (entered i d)) = ready_line (turn_to i (machine_of s))"
      by (simp add: turn_to_def move_def line_remove1 [OF inv])
    have "current_task_index (entered i d) = int i" using d by (simp add: entered_def dispatchable_def)
    then show "current (machine_of (entered i d)) = current (turn_to i (machine_of s))"
      using D(1,2) by (simp add: turn_to_def move_def rtos_current_task_Some)
  qed (use core in \<open>simp_all add: turn_to_def move_def entered_def same_core_def\<close>)
qed

lemma machine_end_turn:
  assumes inv: "sched_inv s" and i: "i < task_count s"
  shows "machine_of (requeue_running i s) = end_turn i (machine_of s)"
  using machine_move [OF assms, of TASK_READY BLOCK_NONE] machine_of_jobs(2) [OF assms]
  by (simp add: requeue_running_def end_turn_def del: machine_of_fields(1))

section \<open>The loop\<close>

text \<open>
  An application whose task functions and callbacks stay within \<open>task_may\<close> and \<open>callback_may\<close>:
  what each may do to the machine and to the application's data, seen through \<open>data_of\<close>.
\<close>

locale simulated = application app app_inv
  for app :: "'a kernel_scheme app" and app_inv :: "nat \<Rightarrow> 'a kernel_scheme \<Rightarrow> bool" +
  fixes data_of :: "'a \<Rightarrow> 'd"
    and task_may :: "addr \<Rightarrow> 'd move"
    and callback_may :: "addr \<Rightarrow> addr \<Rightarrow> 'd move"
  assumes task_within: "kernel_inv s \<Longrightarrow> app_inv (Suc n) s \<Longrightarrow> rtos_current_task s = Some i \<Longrightarrow>
      state (tcb s i) = TASK_RUNNING \<Longrightarrow> app_task app (task_function (tcb s i)) s = Inr s' \<Longrightarrow>
      task_may (task_function (tcb s i)) (machine_of s, data_of (kernel.more s))
        (machine_of s', data_of (kernel.more s'))"
    and callback_within: "kernel_inv s \<Longrightarrow> app_inv (Suc n) s \<Longrightarrow> j < 8 \<Longrightarrow>
      in_use (g_soft_timers s ! j) \<Longrightarrow> active (g_soft_timers s ! j) \<Longrightarrow>
      app_callback app (callback (g_soft_timers s ! j)) (timer_arg (g_soft_timers s ! j)) s = Inr s' \<Longrightarrow>
      callback_may (callback (g_soft_timers s ! j)) (timer_arg (g_soft_timers s ! j))
        (machine_of s, data_of (kernel.more s)) (machine_of s', data_of (kernel.more s'))"
begin

definition view :: "'a kernel_scheme \<Rightarrow> machine \<times> 'd" where
  "view s = (machine_of s, data_of (kernel.more s))"

lemma run_task_view:
  assumes inv: "kernel_inv s" and d: "dispatchable i d" and core: "same_core i s d"
    and how: "goes_on i s d \<or> current_task_index s \<noteq> int i \<and> switched_in (current_task_index s) i s d"
    and a: "app_inv (Suc n) s" and run: "run_task app tk' i d = Inr s'"
  shows "\<exists>m x. task_may (j_function (jobs (turn_to i (machine_of s)) ! i))
      (turn_to i (machine_of s), data_of (kernel.more s)) (m, x) \<and> view s' = (end_turn i m, x)"
proof -
  note E = entered_kernel [OF inv d core]
  let ?e = "entered i d" and ?m1 = "turn_to i (machine_of s)"
  define s2 where "s2 = uart_log (Sched (LogTaskRunning tk' i (task_name (tcb ?e i)) (stack_pointer (tcb ?e i))
      (ready_count ?e))) ?e"
  have i: "i < task_count d" "i < length (task_list d)" "current_task_index d = int i" "i < task_count s"
    using d core by (simp_all add: dispatchable_def same_core_def)
  have S: "kernel_inv s2" "app_inv (Suc n) s2" "rtos_current_task s2 = Some i"
    "state (tcb s2 i) = TASK_RUNNING" "task_function (tcb s2 i) \<noteq> 0"
    using E i stable [OF a E(2)] stable [OF a, of s2] d
    by (simp_all add: s2_def entered_tasks [OF d] rtos_current_task_Some dispatchable_def tcb_ok_def)
      (simp_all add: entered_def)
  have m1: "machine_of s2 = ?m1" "kernel.more s2 = kernel.more s"
    using machine_entered [OF kernel_invD(1) [OF inv] d core how] E(2) by (simp_all add: s2_def same_app_def)
  have "i < task_count s2" using S(3) by (simp add: rtos_current_task_Some)
  then have f: "task_function (tcb s2 i) = j_function (jobs ?m1 ! i)"
    using machine_of_jobs(2) [OF kernel_invD(1) [OF S(1)]] m1(1) by (metis job_of_fields(1))
  have "run_task app tk' i d = bindr (app_task app (task_function (tcb s2 i)) s2)
      (\<lambda>s3. let s4 = requeue_running i s3
            in Inr (uart_log (Sched (LogTaskState tk' (task_name (tcb s4 i)) (state (tcb s4 i)))) s4))"
    using S(5) by (simp add: run_task_def Let_def s2_def entered_def call_task_def)
  with run obtain s3 m where s3: "app_task app (task_function (tcb s2 i)) s2 = Inr s3"
    and s': "s' = uart_log (Sched m) (requeue_running i s3)"
    by (auto simp: bindr_eq_Inr Let_def)
  have "api_ok s2 s3" using task_runs [OF S(1-4)] s3 api_steps_ok S(1) by (auto elim: returnsE)
  then have inv3: "sched_inv s3" and i3: "i < task_count s3"
    using S(3) by (simp_all add: api_ok_def kframe_def rtos_current_task_Some kernel_invD)
  have ts: "task_may (j_function (jobs ?m1 ! i)) (?m1, data_of (kernel.more s))
      (machine_of s3, data_of (kernel.more s3))"
    using task_within [OF S(1-4) s3] by (simp only: f m1)
  have "kernel.more s' = kernel.more s3" by (simp add: s' requeue_running_def)
  then show ?thesis
    using machine_end_turn [OF inv3 i3] ts by (auto simp: view_def s' simp del: machine_of_fields)
qed

lemma soft_step_view:
  assumes q: "quiet tk (Suc n) s" and j: "j < 8"
  shows "returns (soft_step app j s) (\<lambda>s'. alarm_move callback_may j (view s) (view s'))"
proof -
  let ?t = "g_soft_timers s ! j"
  have inv: "kernel_inv s" using q by (simp add: quiet_def)
  have len: "j < length (g_soft_timers s)" using j kernel_invD(3) [OF inv] by simp
  have al: "alarms (machine_of s) ! j = alarm_of ?t" using len by simp
  have wound: "machine_of (soft_countdown j s) = wind j (machine_of s)" by (rule machine_wind [OF len])
  show ?thesis
  proof (cases "timer_fires ?t")
    case False
    have "1 < unat (remaining ?t)" if "in_use ?t" "active ?t"
      using that False by (simp add: timer_fires_def word_le_nat_alt)
    then show ?thesis
      using wound soft_step_quiet_eq [OF len False]
      by (auto simp: view_def alarm_move_simps al alarm_of_def simp del: machine_of_fields)
  next
    case True
    note C = soft_step_calls [OF q j True]
    have k: "kernel_inv (calling j s)" "app_inv (Suc n) (calling j s)" using C(1) by (simp_all add: quiet_def)
    obtain s3 where s3: "app_callback app (callback ?t) (timer_arg ?t) (calling j s) = Inr s3"
      "api_steps (calling j s) s3"
      using callback_runs [OF k j C(2,3)] unfolding C(4,5) by (auto elim: returnsE)
    have "length (g_soft_timers s3) = 8"
      using api_steps_ok [OF s3(2) k(1)] by (simp add: api_ok_def kernel_invD)
    then have r: "machine_of (soft_after_callback j s3) = rewind j (machine_of s3)"
      using j by (intro machine_rewind) simp
    have c: "machine_of (calling j s) = wind j (machine_of s)" "kernel.more (calling j s) = kernel.more s"
      using wound by (simp_all add: calling_def Let_def)
    have "callback_may (callback ?t) (timer_arg ?t) (wind j (machine_of s), data_of (kernel.more s))
        (machine_of s3, data_of (kernel.more s3))"
      using callback_within [OF k j C(2,3), of s3] s3(1) by (simp only: C(4,5) c)
    moreover have "in_use ?t" "active ?t" "unat (remaining ?t) \<le> 1"
      using True by (simp_all add: timer_fires_def word_le_nat_alt)
    ultimately show ?thesis
      by (auto simp: C(6) s3(1) view_def r alarm_move_simps al alarm_of_def simp del: machine_of_fields)
  qed
qed

lemma update_soft_view:
  assumes q: "quiet tk (8 + n) s"
  shows "returns (timer_update_soft app s) (\<lambda>s'. ring_move callback_may 8 (view s) (view s'))"
proof -
  let ?P = "\<lambda>k s'. quiet tk (8 + n - k) s' \<and> ring_move callback_may k (view s) (view s')"
  have "returns (for_range 0 8 (soft_step app) s) (?P (0 + 8))"
  proof (rule for_range_returns)
    show "?P 0 s" using q by (simp add: ring_move_simps)
  next
    fix k t
    assume k: "k < 0 + (8 :: nat)" and P: "?P k t"
    have "8 + n - k = Suc (8 + n - Suc k)" using k by linarith
    then have "quiet tk (Suc (8 + n - Suc k)) t" using P by (simp only:)
    with k have "returns (soft_step app k t) (quiet tk (8 + n - Suc k))"
      "returns (soft_step app k t) (\<lambda>t'. alarm_move callback_may k (view t) (view t'))"
      by (simp_all add: soft_step_quiet soft_step_view)
    then show "returns (soft_step app k t) (?P (Suc k))"
      using P by (auto simp: returns_def intro: ring_move.next split: sum.splits)
  qed
  then have "returns (for_range 0 8 (soft_step app) s) (\<lambda>s'. ring_move callback_may 8 (view s) (view s'))"
    by (rule returns_mono) simp
  then show ?thesis by (simp add: timer_update_soft_def)
qed

lemma cycle_view:
  assumes q: "quiet tk (9 + n) s"
  shows "returns (scheduler_cycle app s) (\<lambda>s'. cycle_move task_may callback_may (view s) (view s'))"
proof -
  have inv: "kernel_inv s" using q by (simp add: quiet_def)
  obtain u where u: "for_range 0 (task_count s) sleep_step (timer_tick s) = Inr u" "kernel.more u = kernel.more s"
    "machine_of u = tick (machine_of s)"
    using machine_tick [OF kernel_invD(1) [OF inv]] by (auto elim: returnsE)
  have q1: "quiet (tk + 1) (8 + Suc n) (timer_tick s)"
    using q stable [of "9 + n" s] timer_tick_inv [of s] by (simp add: quiet_def)
  then have "kmove (timer_tick s) u"
    using sleep_loop_kmove [of "timer_tick s"] u(1) by (simp add: quiet_def)
  with q1 have q2: "quiet (tk + 1) (8 + Suc n) u" by (rule quiet_kmove)
  obtain t where t: "timer_update_soft app u = Inr t" "ring_move callback_may 8 (view u) (view t)"
    using update_soft_view [OF q2] by (auto elim: returnsE)
  have upd: "timer_update_sleep app (timer_tick s) = Inr t"
    using u(1) t(1) kernel_invD(1) [OF inv] by (simp add: timer_update_sleep_def sched_inv_def)
  have len: "length (alarms (machine_of s)) = 8" using kernel_invD(3) [OF inv] by simp
  have vt: "ring_move callback_may (length (alarms (machine_of s)))
      (tick (machine_of s), data_of (kernel.more s)) (view t)"
    unfolding len using t(2) by (simp add: view_def u(2,3) del: machine_of_fields)
  from timer_update_sleep_quiet [OF q1] have qt: "quiet (tk + 1) (Suc n) t" by (simp add: upd)
  then have invt: "kernel_inv t" and cyc: "cycle_inv t" and a: "app_inv (Suc n) t"
    by (simp_all add: quiet_def cycle_inv_alt)
  note S = kernel_invD(1) [OF invt]
  have "returns (scheduler_decide app t) (\<lambda>s'. turn_move task_may (view t) (view s'))"
  proof (cases "chosen t")
    case None
    have "kernel.more (scheduler_idle tk' t) = kernel.more t" for tk'
      by (simp add: scheduler_idle_def Let_def split: option.split)
    then show ?thesis
      using None machine_rest [OF S] chosen_pick [OF S]
      by (simp add: decide_idle [OF cyc None] turn_move_simps view_def del: machine_of_fields)
  next
    case (Some i)
    obtain d where d: "scheduler_decide app t = run_task app (timer_now t) i d" "same_core i t d" "dispatchable i d"
      "goes_on i t d \<or> current_task_index t \<noteq> int i \<and> switched_in (current_task_index t) i t d"
      using decide_runs [OF cyc Some] by metis
    obtain s' where s': "run_task app (timer_now t) i d = Inr s'"
      using run_task_quiet [OF invt d(3,2) a] by (blast elim: returnsE)
    show ?thesis
      using run_task_view [OF invt d(3,2,4) a s'] Some chosen_pick [OF S]
      by (auto simp: d(1) s' turn_move_simps view_def simp del: machine_of_fields)
  qed
  moreover have "cycle_move task_may callback_may (view s) (view x)" if "turn_move task_may (view t) (view x)" for x
    unfolding view_def [of s] by (rule cycle_move.cycle [OF vt that])
  ultimately show ?thesis by (auto simp: scheduler_cycle_def upd elim!: returns_mono)
qed

lemma run_view:
  assumes "quiet tk (9 * n + k) s"
  shows "returns (for_range i n (\<lambda>_. scheduler_cycle app) s)
    (\<lambda>s'. (cycle_move task_may callback_may ^^ n) (view s) (view s'))"
  using assms
proof (induction n arbitrary: i tk s)
  case (Suc n)
  have q: "quiet tk (9 + (9 * n + k)) s" using Suc.prems by (simp add: algebra_simps)
  obtain t where t: "scheduler_cycle app s = Inr t" "quiet (tk + 1) (9 * n + k) t"
    using cycle_quiet [OF q] by (blast elim: returnsE)
  then have "cycle_move task_may callback_may (view s) (view t)" using cycle_view [OF q] by simp
  then show ?case
    using Suc.IH [OF t(2), of "Suc i"] by (auto simp: t(1) elim!: returns_mono simp del: relpowp.simps intro: relpowp_Suc_I2)
qed simp

lemma run_within:
  assumes "kernel_inv s" and "no_running s" and "app_inv (9 * nat max_ticks) s"
  shows "returns (scheduler_run app max_ticks s)
    (\<lambda>s'. (cycle_move task_may callback_may ^^ nat max_ticks) (view s) (view s'))"
proof -
  have "quiet (g_kernel_tick s) (9 * nat max_ticks + 0) s" using assms by (simp add: quiet_def)
  from run_view [OF this] show ?thesis by (simp add: scheduler_run_def)
qed

end

text \<open>
  An application whose task functions and callbacks meet specifications \<open>task_spec\<close> and
  \<open>callback_spec\<close>: functions of the machine and of the application's data.
\<close>

locale specified = application app app_inv
  for app :: "'a kernel_scheme app" and app_inv :: "nat \<Rightarrow> 'a kernel_scheme \<Rightarrow> bool" +
  fixes data_of :: "'a \<Rightarrow> 'd"
    and task_spec :: "addr \<Rightarrow> 'd effect"
    and callback_spec :: "addr \<Rightarrow> addr \<Rightarrow> 'd effect"
  assumes task_meets: "kernel_inv s \<Longrightarrow> app_inv (Suc n) s \<Longrightarrow> rtos_current_task s = Some i \<Longrightarrow>
      state (tcb s i) = TASK_RUNNING \<Longrightarrow> app_task app (task_function (tcb s i)) s = Inr s' \<Longrightarrow>
      (machine_of s', data_of (kernel.more s')) =
        task_spec (task_function (tcb s i)) (machine_of s, data_of (kernel.more s))"
    and callback_meets: "kernel_inv s \<Longrightarrow> app_inv (Suc n) s \<Longrightarrow> j < 8 \<Longrightarrow>
      in_use (g_soft_timers s ! j) \<Longrightarrow> active (g_soft_timers s ! j) \<Longrightarrow>
      app_callback app (callback (g_soft_timers s ! j)) (timer_arg (g_soft_timers s ! j)) s = Inr s' \<Longrightarrow>
      (machine_of s', data_of (kernel.more s')) =
        callback_spec (callback (g_soft_timers s ! j)) (timer_arg (g_soft_timers s ! j))
          (machine_of s, data_of (kernel.more s))"

sublocale specified \<subseteq> simulated app app_inv data_of "\<lambda>f x y. y = task_spec f x" "\<lambda>f a x y. y = callback_spec f a x"
  by unfold_locales (fact task_meets, fact callback_meets)

context specified begin

lemma run_meets:
  assumes "kernel_inv s" and "no_running s" and "app_inv (9 * nat max_ticks) s"
  shows "returns (scheduler_run app max_ticks s)
    (\<lambda>s'. (machine_of s', data_of (kernel.more s')) =
      (spec_cycle task_spec callback_spec ^^ nat max_ticks) (machine_of s, data_of (kernel.more s)))"
  using run_within [OF assms] unfolding cycle_move_graph_fun relpowp_graph view_def .

end

section \<open>Properties\<close>

text \<open>
  C2: The scheduling loop refines the abstract scheduler: under an application whose tasks
  and timer callbacks meet their specifications, \<open>max_ticks\<close> cycles of the code return without a fault, and lead to a
  state that represents exactly what \<open>max_ticks\<close> cycles of the specification make of the
  machine represented at the start: the same states, wake-up times, slices, order of the ready
  tasks, current task, clock, software timers, application data and application output.
\<close>

theorem scheduler_refines_spec:
  assumes "specified app app_inv data_of task_spec callback_spec" and "kernel_inv s" and "no_running s"
    and "app_inv (9 * nat max_ticks) s"
  shows "returns (scheduler_run app max_ticks s) (\<lambda>s'. (machine_of s', data_of (kernel.more s')) =
    (spec_cycle task_spec callback_spec ^^ nat max_ticks) (machine_of s, data_of (kernel.more s)))"
  by (rule specified.run_meets [OF assms])

end
