(* ===== verification/Api_Spec.thy ===== *)
theory Api_Spec
  imports Sched_Spec "HOL-Library.Sublist"
begin

text \<open>
  The public API seen on the abstract machine of \<open>Sched_Spec\<close>: what each call of the running
  task, of a callback or of \<open>main\<close> does to the jobs, the ready line and the alarms. \<open>machine_step\<close>
  collects the operations; every call is one of them. The lemmas on \<open>calm\<close> and \<open>went\<close> are what an
  application's own proofs are built from.
\<close>

section \<open>The operations\<close>

definition new_job :: "addr \<Rightarrow> int \<Rightarrow> job" where
  "new_job f prio = \<lparr>j_function = f, j_priority = prio, j_state = TASK_READY, j_reason = BLOCK_NONE,
     j_sleep = 0, j_slice = 0\<rparr>"

definition spawn :: "addr \<Rightarrow> int \<Rightarrow> machine \<Rightarrow> machine" where
  "spawn f prio m = (if length (jobs m) \<ge> 8 then m
     else m\<lparr>jobs := jobs m @ [new_job f prio], ready_line := ready_line m @ [length (jobs m)]\<rparr>)"

definition hold_back :: "int \<Rightarrow> machine \<Rightarrow> machine" where
  "hold_back tid m = (if tid < 1 \<or> tid > int (length (jobs m)) then m
     else move (nat (tid - 1)) TASK_SUSPENDED BLOCK_NONE m)"

definition let_go :: "int \<Rightarrow> machine \<Rightarrow> machine" where
  "let_go tid m = (if tid < 1 \<or> tid > int (length (jobs m)) then m
     else if j_state (jobs m ! nat (tid - 1)) \<noteq> TASK_SUSPENDED then m
     else move (nat (tid - 1)) TASK_READY BLOCK_NONE m)"

text \<open>The jobs an event wakes, one after the other; an index that is no job is passed over.\<close>

definition call_up :: "int list \<Rightarrow> machine \<Rightarrow> machine" where
  "call_up is m = fold (\<lambda>i m. if i < 0 \<or> i \<ge> int (length (jobs m)) then m
     else move (nat i) TASK_READY BLOCK_NONE m) is m"

inductive machine_step :: "machine \<Rightarrow> machine \<Rightarrow> bool" where
  no_effect: "machine_step m m"
| print: "machine_step m (say txt xs m)"
| create: "f \<noteq> 0 \<Longrightarrow> machine_step m (spawn f prio m)"
| sleep: "machine_step m (nap n m)"
| suspend: "machine_step m (hold_back tid m)"
| resume: "machine_step m (let_go tid m)"
| wait: "r \<notin> {BLOCK_NONE, BLOCK_SLEEP} \<Longrightarrow> machine_step m (block r m)"
| wake: "r \<notin> {BLOCK_NONE, BLOCK_SLEEP, BLOCK_EVENT} \<Longrightarrow> machine_step m (release r m)"
| event: "machine_step m (call_up is m)"
| timer_create: "claim md period cb arg m = (h, m') \<Longrightarrow> machine_step m m'"
| timer_start: "machine_step m (arm h m)"
| timer_stop: "machine_step m (disarm h m)"
| timer_delete: "machine_step m (give_back h m)"

section \<open>Tasks\<close>

lemma machine_create_room:
  assumes inv: "kernel_inv s" and full: "task_count s < 8" and f: "f \<noteq> 0"
  shows "machine_of (snd (rtos_create_task nm prio f s)) = spawn f prio (machine_of s)"
proof -
  note S = kernel_invD(1) [OF inv]
  note I = sched_invD [OF S] and J = machine_of_jobs [OF S]
  let ?t = "created_tcb (task_count s) nm prio f"
  let ?w = "with_task ?t s"
  have w: "sched_inv ?w" "task_count s < task_count ?w"
    using full f by (intro sched_inv_with_task S tcb_ok_created) (simp_all add: created_tcb_def with_task_def)
  have cur: "rtos_current_task ?w = rtos_current_task s"
    using I(9) by (simp add: with_task_def rtos_current_task_def)
  have "take (task_count s) ((task_list s)[task_count s := ?t]) = take (task_count s) (task_list s)" by simp
  then have jw: "jobs (machine_of ?w) = jobs (machine_of s) @ [job_of ?t]"
    using full I(3) by (simp add: with_task_def take_Suc_conv_app_nth)
  have lw: "ready_line (machine_of ?w) = ready_line (machine_of s)"
    "clock (machine_of ?w) = clock (machine_of s)" "printed (machine_of ?w) = printed (machine_of s)"
    "alarms (machine_of ?w) = alarms (machine_of s)"
    by (simp_all add: with_task_def rq_list_def app_lines_def)
  have "int (task_count s) \<notin> set (rq_list s)" using I(7) by simp
  then have "remove1 (task_count s) (ready_line (machine_of s)) = ready_line (machine_of s)"
    using line_remove1 [OF S, of "task_count s"] by (simp add: remove1_idem)
  moreover have "enter_state TASK_READY BLOCK_NONE (job_of ?t) = new_job f prio"
    by (simp add: enter_state_def job_of_def created_tcb_def new_job_def)
  ultimately have "move (task_count s) TASK_READY BLOCK_NONE (machine_of ?w) = (machine_of s)\<lparr>
    jobs := jobs (machine_of s) @ [new_job f prio], ready_line := ready_line (machine_of s) @ [task_count s]\<rparr>"
    using J(1) jw lw cur by (simp add: move_def nth_append list_update_append del: machine_of_fields(1,2,4,5,6))
  then show ?thesis
    using machine_move [OF w, of TASK_READY BLOCK_NONE] full
    by (simp add: create_ok_eq [OF inv full] spawn_def J(1) del: machine_of_fields)
qed

lemma machine_init:
  "machine_of (rtos_init s) = \<lparr>jobs = [], ready_line = [], current = None, clock = 0, printed = app_lines s,
     alarms = replicate 8 None\<rparr>"
  by (simp add: machine_of_def alarm_of_def zero_timer_def rtos_init_def k_memory_init_def scheduler_init_def timer_init_def
      rtos_current_task_def rq_list_def app_lines_def uart_log_def split: prod.split)

lemma machine_create:
  assumes "kernel_inv s" and "f \<noteq> 0"
  shows "machine_of (snd (rtos_create_task nm prio f s)) = spawn f prio (machine_of s)"
proof (cases "task_count s < 8")
  case True
  then show ?thesis by (rule machine_create_room [OF assms(1) _ assms(2)])
next
  case False
  then show ?thesis
    using machine_of_jobs(1) [OF kernel_invD(1) [OF assms(1)]]
    by (simp add: rtos_create_task_def spawn_def del: machine_of_fields)
qed

lemma create_more: "kernel.more (snd (rtos_create_task nm prio f s)) = kernel.more s"
  by (simp add: rtos_create_task_def Let_def on_contexts_def ctx_put_def)

lemma rtos_init_more: "kernel.more (rtos_init s) = kernel.more s"
  by (simp add: rtos_init_def k_memory_init_def scheduler_init_def timer_init_def split: prod.split)

lemma rtos_init_start:
  assumes "statics_shape s"
  shows "task_count (rtos_init s) = 0" and "g_kernel_tick (rtos_init s) = 0"
    and "\<forall>i<8. \<not> in_use (g_soft_timers (rtos_init s) ! i)"
  by (simp_all add: rtos_init_def k_memory_init_def scheduler_init_def timer_init_def zero_timer_def
      split: prod.split)

text \<open>What every task has and a new one has, every task has after a creation.\<close>

lemma create_all:
  assumes inv: "kernel_inv s" and f: "f \<noteq> 0"
    and old: "\<forall>i<task_count s. P (tcb s i)" and new: "\<And>i. P (created_tcb i nm prio f)"
    and fixed: "\<And>t u. tcb_fixed t = tcb_fixed u \<Longrightarrow> P t \<Longrightarrow> P u"
  shows "\<forall>i<task_count (snd (rtos_create_task nm prio f s)). P (tcb (snd (rtos_create_task nm prio f s)) i)"
proof (cases "task_count s < 8")
  case False
  then show ?thesis using old by (simp add: rtos_create_task_def)
next
  case True
  note I = sched_invD [OF kernel_invD(1) [OF inv]]
  let ?t = "snd (rtos_create_task nm prio f s)" and ?c = "created_tcb (task_count s) nm prio f"
  have ok: "api_ok s ?t" by (rule rtos_create_task_ok [OF inv f])
  show ?thesis
  proof (intro allI impI)
    fix i
    assume i: "i < task_count ?t"
    show "P (tcb ?t i)"
    proof (cases "i = task_count s")
      case new_task: True
      have "tcb ?t i = tcb_to TASK_READY BLOCK_NONE ?c"
        using new_task I(3) True by (simp add: create_ok_eq [OF inv] with_task_def set_task_state_tcb I)
      then have "tcb_fixed ?c = tcb_fixed (tcb ?t i)" by simp
      then show ?thesis using new by (rule fixed)
    next
      case False
      with i have i: "i < task_count s" using True by (simp add: create_ok_eq [OF inv] with_task_def)
      with ok have "tcb_fixed (tcb s i) = tcb_fixed (tcb ?t i)" by (simp add: api_ok_def kframe_def)
      then show ?thesis using old i by (blast intro: fixed)
    qed
  qed
qed

lemma create_keeps:
  assumes inv: "kernel_inv s" and f: "f \<noteq> 0"
    and fs: "\<forall>i<task_count s. task_function (tcb s i) \<in> F" and "f \<in> F"
  shows "\<forall>i<task_count (snd (rtos_create_task nm prio f s)).
      task_function (tcb (snd (rtos_create_task nm prio f s)) i) \<in> F"
    and "g_soft_timers (snd (rtos_create_task nm prio f s)) = g_soft_timers s"
proof -
  show "\<forall>i<task_count (snd (rtos_create_task nm prio f s)).
      task_function (tcb (snd (rtos_create_task nm prio f s)) i) \<in> F"
    by (rule create_all [OF inv f fs]) (use assms(4) in \<open>auto simp: created_tcb_def dest: tcb_fixed_eqD(3)\<close>)
  show "g_soft_timers (snd (rtos_create_task nm prio f s)) = g_soft_timers s"
    using f by (cases "task_count s < 8") (simp add: create_ok_eq [OF inv] with_task_def, simp add: rtos_create_task_def)
qed

lemma machine_suspend:
  assumes "sched_inv s"
  shows "machine_of (snd (rtos_suspend_task tid s)) = hold_back tid (machine_of s)"
proof (cases "tid < 1 \<or> tid > int (task_count s)")
  case True
  then have "task_index_from_id tid s = -1" using task_index_of_id [OF assms, of tid] by auto
  then show ?thesis
    using True machine_of_jobs(1) [OF assms]
    by (simp add: rtos_suspend_task_def hold_back_def del: machine_of_fields)
next
  case False
  then obtain k where k: "tid = int k + 1" "k < task_count s"
    by (intro that [of "nat (tid - 1)"]) auto
  then show ?thesis
    using machine_of_jobs(1) [OF assms] task_index_of_id [OF assms, of tid] machine_move [OF assms k(2)]
    by (simp add: rtos_suspend_task_def hold_back_def Let_def del: machine_of_fields)
qed

lemma machine_resume:
  assumes "sched_inv s"
  shows "machine_of (snd (rtos_resume_task tid s)) = let_go tid (machine_of s)"
proof (cases "tid < 1 \<or> tid > int (task_count s)")
  case True
  then have "task_index_from_id tid s = -1" using task_index_of_id [OF assms, of tid] by auto
  then show ?thesis
    using True machine_of_jobs(1) [OF assms]
    by (simp add: rtos_resume_task_def let_go_def del: machine_of_fields)
next
  case False
  then obtain k where k: "tid = int k + 1" "k < task_count s"
    by (intro that [of "nat (tid - 1)"]) auto
  then show ?thesis
    using machine_of_jobs [OF assms] task_index_of_id [OF assms, of tid] machine_move [OF assms k(2)]
    by (simp add: rtos_resume_task_def let_go_def Let_def del: machine_of_fields)
qed

section \<open>Timers\<close>

lemma on_alarm_free:
  "i < length (g_soft_timers s) \<Longrightarrow> \<not> in_use (g_soft_timers s ! i) \<Longrightarrow>
   on_alarm i f (machine_of s) = machine_of s"
  by (rule on_alarm_same) (simp add: alarm_of_def)

lemma machine_arm: "timer_soft_start h s = Inr t \<Longrightarrow> machine_of t = arm h (machine_of s)"
  by (auto simp: timer_soft_start_def arm_def Let_def on_alarm_free simp del: machine_of_timer machine_of_fields
      intro!: machine_on_alarm split: option.splits if_splits) (simp add: alarm_of_def)

lemma machine_disarm: "timer_soft_stop h s = Inr t \<Longrightarrow> machine_of t = disarm h (machine_of s)"
  by (auto simp: timer_soft_stop_def disarm_def Let_def on_alarm_free simp del: machine_of_timer machine_of_fields
      intro!: machine_on_alarm split: option.splits if_splits) (simp add: alarm_of_def)

lemma machine_give_back: "timer_soft_delete h s = Inr t \<Longrightarrow> machine_of t = give_back h (machine_of s)"
  by (auto simp: timer_soft_delete_def give_back_def Let_def on_alarm_free simp del: machine_of_timer machine_of_fields
      intro!: machine_on_alarm split: option.splits if_splits) (simp add: alarm_of_def)

lemma create_scan_find:
  "create_scan n k new s =
     (case find (\<lambda>i. \<not> in_use (g_soft_timers s ! i)) [k..<k + n] of
        None \<Rightarrow> (None, uart_log (Timer LogTimerPoolExhausted) s)
      | Some i \<Rightarrow> (Some i, uart_log (Timer (LogTimerCreated (timer_name new) (mode new) (period_ticks new)))
          (upd_timer i (\<lambda>_. new) s)))"
  by (induction n arbitrary: k) (simp_all add: upt_conv_Cons del: upt_Suc)

lemma find_cong_mem: "(\<And>x. x \<in> set xs \<Longrightarrow> P x = Q x) \<Longrightarrow> find P xs = find Q xs"
  by (induction xs) auto

lemma machine_claim:
  assumes "length (g_soft_timers s) = 8" and "timer_soft_create nm md period cb arg s = (h, t)"
  shows "claim md (unat period) cb arg (machine_of s) = (h, machine_of t)"
proof -
  have "find (\<lambda>i. alarms (machine_of s) ! i = None) [0..<8] = find (\<lambda>i. \<not> in_use (g_soft_timers s ! i)) [0..<8]"
    using assms(1) by (intro find_cong_mem) (simp add: alarm_of_def)
  then show ?thesis
    using assms by (auto simp: timer_soft_create_def claim_def create_scan_find unat_eq_0 alarm_of_def
        split: option.splits if_splits simp del: machine_of_fields(1-5))
qed

section \<open>Events\<close>

lemma machine_ready_valid:
  assumes "sched_inv s"
  shows "machine_of (scheduler_set_task_state i TASK_READY BLOCK_NONE s) =
    (if i < 0 \<or> i \<ge> int (length (jobs (machine_of s))) then machine_of s
     else move (nat i) TASK_READY BLOCK_NONE (machine_of s))"
proof (cases "i < 0 \<or> int (task_count s) \<le> i")
  case True
  then show ?thesis using machine_of_jobs(1) [OF assms] by (simp add: set_task_state_invalid del: machine_of_fields)
next
  case False
  then obtain k where "i = int k" "k < task_count s" by (rule task_index_cases)
  then show ?thesis using machine_of_jobs(1) [OF assms] machine_move [OF assms] by (simp del: machine_of_fields)
qed

lemma machine_event_loop:
  assumes "kernel_inv s" and "event_set_loop n e s = Inr (e', s')"
  shows "\<exists>is. machine_of s' = call_up is (machine_of s)"
  using assms
proof (induction n arbitrary: e s)
  case 0
  then have "machine_of s' = call_up [] (machine_of s)" by (simp add: call_up_def)
  then show ?case by blast
next
  case (Suc n)
  show ?case
  proof (cases "flags e AND required_mask (waiters e ! n) = required_mask (waiters e ! n)")
    case False
    then show ?thesis using Suc by (simp split: if_splits)
  next
    case True
    then obtain e1 s1 where w: "event_wake n e s = Inr (e1, s1)" "event_set_loop n e1 s1 = Inr (e', s')"
      using Suc.prems(2) by (auto simp: bindr_eq_Inr split: if_splits)
    have "kernel_inv s1" using event_wake_ok [OF Suc.prems(1) w(1)] by (simp add: api_ok_def)
    from Suc.IH [OF this w(2)] obtain js where js: "machine_of s' = call_up js (machine_of s1)" by blast
    have "machine_of s1 = call_up [task_index (waiters e ! n)] (machine_of s)"
      using w(1) kernel_invD(1) [OF Suc.prems(1)]
      by (auto simp: event_wake_def Let_def call_up_def machine_ready_valid simp del: machine_of_fields split: if_splits)
    then have "machine_of s' = call_up (task_index (waiters e ! n) # js) (machine_of s)"
      unfolding js by (simp add: call_up_def)
    then show ?thesis by blast
  qed
qed

lemma machine_event_set:
  assumes "kernel_inv s" and "event_flags_set ef b s = Inr (ef', s')"
  shows "\<exists>is. machine_of s' = call_up is (machine_of s)"
proof (cases "ef = None \<or> b = 0")
  case True
  then have "machine_of s' = call_up [] (machine_of s)"
    using assms(2) by (auto simp: event_flags_set_def call_up_def split: option.splits)
  then show ?thesis by blast
next
  case False
  then obtain e where "ef = Some e" "b \<noteq> 0" by auto
  then obtain n e1 e2 where "event_set_loop n e1 (uart_log (Event (LogEventSet (flags e OR b) b)) s) = Inr (e2, s')"
    using assms(2) by (auto simp: event_flags_set_def Let_def bindr_eq_Inr)
  from machine_event_loop [OF _ this] assms(1) show ?thesis by simp
qed

lemma machine_event_wait:
  assumes "sched_inv s" and "event_flags_wait ef b s = Inr (r, ef', s')"
  shows "machine_of s' = machine_of s \<or> machine_of s' = block BLOCK_EVENT (machine_of s)"
  using assms by (auto simp: event_flags_wait_def Let_def machine_block simp del: machine_of_fields
      split: option.splits if_splits)

section \<open>Synchronisation calls of the running task\<close>

text \<open>
  What every synchronisation call of the running task keeps: the invariant, the current task,
  the application's variables, the table of functions and the software timers.
\<close>

definition calm :: "'a kernel_scheme \<Rightarrow> 'a kernel_scheme \<Rightarrow> bool" where
  "calm s t \<longleftrightarrow> api_steps s t \<and> kernel_inv t \<and> rtos_current_task t = rtos_current_task s \<and>
     kernel.more t = kernel.more s \<and> task_count t = task_count s \<and>
     (\<forall>i<task_count s. task_function (tcb t i) = task_function (tcb s i)) \<and>
     g_soft_timers t = g_soft_timers s"

lemma calmI:
  assumes inv: "kernel_inv s" and step: "api_step s t" and "kernel.more t = kernel.more s"
    and tc: "task_count t = task_count s" and "g_soft_timers t = g_soft_timers s"
  shows "calm s t"
proof -
  have ok: "api_ok s t" using step inv by (rule api_step_ok)
  then have "rtos_current_task t = rtos_current_task s"
    by (simp add: rtos_current_task_def tc api_ok_def kframe_def)
  moreover have "task_function (tcb t i) = task_function (tcb s i)" if "i < task_count s" for i
  proof (rule tcb_fixed_eqD)
    show "tcb_fixed (tcb t i) = tcb_fixed (tcb s i)" using ok that by (simp add: api_ok_def kframe_def)
  qed
  ultimately show ?thesis using assms ok by (simp add: calm_def api_ok_def)
qed

lemma unblock_frames:
  "sched_bound s \<Longrightarrow> scheduler_unblock_one r s = Inr t \<Longrightarrow>
   task_count t = task_count s \<and> kernel.more t = kernel.more s \<and> g_soft_timers t = g_soft_timers s"
  by (auto simp: scheduler_unblock_one_eq Let_def split: option.splits)

lemma unblock_log_frames:
  assumes "kernel_inv s"
  obtains t where "scheduler_unblock_one r (uart_log (Rtos m) s) = Inr t" and "task_count t = task_count s"
    and "kernel.more t = kernel.more s" and "g_soft_timers t = g_soft_timers s"
    and "machine_of t = release r (machine_of s)"
proof -
  have inv: "sched_inv (uart_log (Rtos m) s)" using assms by (simp add: kernel_invD)
  obtain t where t: "scheduler_unblock_one r (uart_log (Rtos m) s) = Inr t"
    "machine_of t = release r (machine_of s)"
    using machine_release [OF inv, of r] by (auto elim: returnsE)
  with unblock_frames [OF sched_invD(1) [OF inv] t(1)] show thesis by (intro that) simp_all
qed

lemma sem_wait_calm:
  assumes "kernel_inv s" and "rtos_current_task s = Some i"
  obtains got sem' t where "rtos_sem_wait sem s = Inr (got, sem', t)" and "calm s t"
    and "got \<longleftrightarrow> sem_count sem > 0" and "sem_count sem' = sem_count sem - (if got then 1 else 0)"
    and "machine_of t = (if got then machine_of s else block BLOCK_SEMAPHORE (machine_of s))"
proof (cases "sem_count sem > 0")
  case True
  let ?m = "Rtos (LogSemAcquired (task_name (tcb s i)) (sem_count sem - 1))"
  have c: "rtos_sem_wait sem s = Inr (True, sem\<lparr>sem_count := sem_count sem - 1\<rparr>, uart_log ?m s)"
    using True assms(2) by (simp add: rtos_sem_wait_def Let_def)
  show thesis
    by (rule that [OF c calmI [OF assms(1) api_step.sem_wait [OF c]]]) (simp_all add: True)
next
  case False
  let ?b = "scheduler_set_current_task_state TASK_BLOCKED BLOCK_SEMAPHORE s"
  let ?m = "Rtos (LogSemWaiting (task_name (tcb ?b i)))"
  have c: "rtos_sem_wait sem s = Inr (False, sem, uart_log ?m ?b)"
    using False assms(2) by (simp add: rtos_sem_wait_def Let_def)
  show thesis
    by (rule that [OF c calmI [OF assms(1) api_step.sem_wait [OF c]]])
      (simp_all add: False machine_block kernel_invD(1) [OF assms(1)])
qed

lemma sem_signal_calm:
  assumes "kernel_inv s" and "in_int (sem_count sem + 1)"
  obtains sem' t where "rtos_sem_signal sem s = Inr (sem', t)" and "calm s t"
    and "sem_count sem' = sem_count sem + 1" and "machine_of t = release BLOCK_SEMAPHORE (machine_of s)"
proof -
  obtain t where t: "scheduler_unblock_one BLOCK_SEMAPHORE (uart_log (Rtos (LogSemReleased (sem_count sem + 1))) s) = Inr t"
    and f: "task_count t = task_count s" "kernel.more t = kernel.more s" "g_soft_timers t = g_soft_timers s"
      "machine_of t = release BLOCK_SEMAPHORE (machine_of s)"
    by (rule unblock_log_frames [OF assms(1)])
  then have c: "rtos_sem_signal sem s = Inr (sem\<lparr>sem_count := sem_count sem + 1\<rparr>, t)"
    using assms(2) by (simp add: rtos_sem_signal_def Let_def)
  show thesis
    by (rule that [OF c]) (rule calmI [OF assms(1) api_step.sem_signal [OF c] f(2,1,3)], simp, rule f(4))
qed

lemma mutex_free_calm:
  assumes "kernel_inv s" and "rtos_current_task s = Some i" and "\<not> locked m"
  obtains m' t where "rtos_mutex_lock m s = Inr (True, m', t)" and "calm s t"
    and "locked m'" and "owner m' = task_id (tcb t i)" and "machine_of t = machine_of s"
proof -
  let ?l = "uart_log (Rtos (LogMutexLocked (task_name (tcb s i)))) s"
  have c: "rtos_mutex_lock m s = Inr (True, m\<lparr>locked := True, owner := task_id (tcb s i)\<rparr>, ?l)"
    using assms(2,3) by (simp add: rtos_mutex_lock_def Let_def)
  show thesis
    by (rule that [OF c calmI [OF assms(1) api_step.mutex_lock [OF c]]]) simp_all
qed

lemma mutex_unlock_calm:
  assumes "kernel_inv s" and "rtos_current_task s = Some i" and "locked m" and "owner m = task_id (tcb s i)"
  obtains m' t where "rtos_mutex_unlock m s = Inr (m', t)" and "calm s t" and "\<not> locked m'"
    and "machine_of t = release BLOCK_MUTEX (machine_of s)"
proof -
  obtain t where t: "scheduler_unblock_one BLOCK_MUTEX (uart_log (Rtos (LogMutexReleased (task_name (tcb s i)))) s) = Inr t"
    and f: "task_count t = task_count s" "kernel.more t = kernel.more s" "g_soft_timers t = g_soft_timers s"
      "machine_of t = release BLOCK_MUTEX (machine_of s)"
    by (rule unblock_log_frames [OF assms(1)])
  then have c: "rtos_mutex_unlock m s = Inr (m\<lparr>locked := False, owner := -1\<rparr>, t)"
    using assms(2-4) by (simp add: rtos_mutex_unlock_def Let_def)
  show thesis
    by (rule that [OF c calmI [OF assms(1) api_step.mutex_unlock [OF c]]]) (simp_all add: f del: machine_of_fields)
qed

lemma queue_send_calm:
  assumes "kernel_inv s" and "rtos_current_task s = Some i" and "mq_ok q"
  obtains sent q' t where "rtos_queue_send v q s = Inr (sent, q', t)" and "calm s t" and "mq_ok q'"
    and "mq_count q' = mq_count q + (if sent then 1 else 0)"
    and "mq_contents q' = mq_contents q @ (if sent then [v] else [])"
    and "sent \<longleftrightarrow> mq_count q \<noteq> 10"
    and "machine_of t = (if sent then release BLOCK_QUEUE_EMPTY (machine_of s)
      else block BLOCK_QUEUE_FULL (machine_of s))"
proof (cases "mq_count q = 10")
  case True
  let ?b = "scheduler_set_current_task_state TASK_BLOCKED BLOCK_QUEUE_FULL s"
  have c: "rtos_queue_send v q s = Inr (False, q, uart_log (Rtos (LogQueueFull (task_name (tcb ?b i)))) ?b)"
    using True assms(2) by (simp add: rtos_queue_send_def Let_def)
  show thesis
    by (rule that [OF c calmI [OF assms(1) api_step.queue_send [OF c]]])
      (simp_all add: True assms(3) machine_block kernel_invD(1) [OF assms(1)])
next
  case False
  obtain q' where q': "mq_put v q = Inr q'" "mq_ok q'" "mq_contents q' = mq_contents q @ [v]"
    using mq_put_ok [OF assms(3), of v] False by (auto simp: mq_full_def elim: returnsE)
  have n: "mq_count q' = mq_count q + 1"
    unfolding mq_count_length [OF assms(3)] mq_count_length [OF q'(2)] q'(3) by simp
  let ?m = "Rtos (LogQueueSend (task_name (tcb s i)) v (mq_count q'))"
  obtain t where t: "scheduler_unblock_one BLOCK_QUEUE_EMPTY (uart_log ?m s) = Inr t"
    and f: "task_count t = task_count s" "kernel.more t = kernel.more s" "g_soft_timers t = g_soft_timers s"
      "machine_of t = release BLOCK_QUEUE_EMPTY (machine_of s)"
    by (rule unblock_log_frames [OF assms(1)])
  have c: "rtos_queue_send v q s = Inr (True, q', t)"
    using False assms(2) q'(1) t by (simp add: rtos_queue_send_def)
  show thesis
    by (rule that [OF c calmI [OF assms(1) api_step.queue_send [OF c]]])
      (simp_all add: f q'(2,3) n False del: machine_of_fields)
qed

lemma queue_receive_calm:
  assumes "kernel_inv s" and "rtos_current_task s = Some i" and "mq_ok q" and "mq_count q \<noteq> 0"
  obtains x q' t where "rtos_queue_receive q s = Inr (True, Some x, q', t)" and "calm s t" and "mq_ok q'"
    and "mq_count q' = mq_count q - 1" and "mq_contents q = x # mq_contents q'"
    and "machine_of t = release BLOCK_QUEUE_FULL (machine_of s)"
proof -
  obtain x q' where q': "mq_take q = Inr (x, q')" "mq_ok q'" "mq_contents q = x # mq_contents q'"
    using mq_take_ok [OF assms(3)] assms(4) by (auto simp: mq_empty_def elim!: returnsE)
  have n: "mq_count q' = mq_count q - 1"
    unfolding mq_count_length [OF assms(3)] mq_count_length [OF q'(2)] q'(3) by simp
  let ?m = "Rtos (LogQueueReceive (task_name (tcb s i)) x (mq_count q'))"
  obtain t where t: "scheduler_unblock_one BLOCK_QUEUE_FULL (uart_log ?m s) = Inr t"
    and f: "task_count t = task_count s" "kernel.more t = kernel.more s" "g_soft_timers t = g_soft_timers s"
      "machine_of t = release BLOCK_QUEUE_FULL (machine_of s)"
    by (rule unblock_log_frames [OF assms(1)])
  have c: "rtos_queue_receive q s = Inr (True, Some x, q', t)"
    using assms(2,4) q'(1) t by (simp add: rtos_queue_receive_def)
  show thesis
    by (rule that [OF c calmI [OF assms(1) api_step.queue_receive [OF c]]])
      (simp_all add: f q'(2,3) n del: machine_of_fields)
qed

text \<open>A state reached inside a task function.\<close>

definition went :: "'a kernel_scheme \<Rightarrow> 'a kernel_scheme \<Rightarrow> bool" where
  "went s t \<longleftrightarrow> api_steps s t \<and> kernel_inv t \<and> rtos_current_task t = rtos_current_task s \<and>
     task_count t = task_count s \<and> g_soft_timers t = g_soft_timers s \<and>
     (\<forall>i<task_count s. task_function (tcb t i) = task_function (tcb s i))"

lemma went_refl: "kernel_inv s \<Longrightarrow> went s s"
  by (simp add: went_def)

lemma went_calm: "went s t \<Longrightarrow> calm t u \<Longrightarrow> went s u"
  by (auto simp: went_def calm_def intro: rtranclp_trans)

lemma kernel_inv_own: "kernel_inv s \<Longrightarrow> kernel_inv (kernel.more_update f s)"
  using api_ok_more [of s f] by (simp add: api_ok_def)

lemma current_own [simp]: "rtos_current_task (kernel.more_update f t) = rtos_current_task t"
  by (simp add: rtos_current_task_def)

lemma went_own: "went s t \<Longrightarrow> went s (kernel.more_update f t)"
  using api_step.own [of t f]
  by (auto simp: went_def kernel_inv_own intro: rtranclp.rtrancl_into_rtrancl)

lemma went_log: "went s t \<Longrightarrow> went s (uart_log (App m xs) t)"
  using api_step.log [of t m xs] by (auto simp: went_def intro: rtranclp.rtrancl_into_rtrancl)

lemma sleep_calm: "kernel_inv t \<Longrightarrow> INT_MIN < n \<Longrightarrow> n \<le> INT_MAX \<Longrightarrow> calm t (rtos_task_sleep n t)"
  by (rule calmI) (simp_all add: api_step.sleep, simp_all add: rtos_task_sleep_def split: option.split)

lemma went_sleep: "went s t \<Longrightarrow> INT_MIN < n \<Longrightarrow> n \<le> INT_MAX \<Longrightarrow> went s (rtos_task_sleep n t)"
  by (rule went_calm) (auto intro: sleep_calm simp: went_def)

lemma went_inv: "went s t \<Longrightarrow> kernel_inv t" "went s t \<Longrightarrow> rtos_current_task t = rtos_current_task s"
  by (simp_all add: went_def)

lemma calm_vars: "calm s t \<Longrightarrow> kernel.more t = kernel.more s"
  by (simp add: calm_def)

lemma sleep_vars [simp]: "kernel.more (rtos_task_sleep n t) = kernel.more t"
  by (simp add: rtos_task_sleep_def split: option.split)

lemma machine_of_sleep:
  "went s t \<Longrightarrow> INT_MIN < n \<Longrightarrow> n \<le> INT_MAX \<Longrightarrow> machine_of (rtos_task_sleep n t) = nap n (machine_of t)"
  by (rule machine_nap) (simp_all add: went_def kernel_invD)

text \<open>The specification is run by the simplifier.\<close>

lemma funpow_numeral: "(f ^^ numeral k) x = (f ^^ pred_numeral k) (f x)"
  by (simp add: numeral_eq_Suc funpow_swap1)

lemmas run_spec = spec_cycle_def have_turn_def ring_def alarm_step_def tick_def count_down_def waits_def due_def pick_def upt_conv_Cons Let_def
  turn_to_def move_def enter_state_def end_turn_def rest_def block_def release_def nap_def say_def
  to_int_def funpow_numeral


section \<open>Every call is one of the operations\<close>

lemma machine_release_log:
  assumes "kernel_inv s" and "scheduler_unblock_one r (uart_log (Rtos m) s) = Inr t"
  shows "machine_of t = release r (machine_of s)"
  using machine_release [of "uart_log (Rtos m) s" r] assms by (simp add: kernel_invD)

lemma machine_of_pool [simp]: "machine_of (s\<lparr>mem_pool := p\<rparr>) = machine_of s"
  by (simp add: machine_of_def rtos_current_task_def rq_list_def app_lines_def)

lemma machine_memory:
  "k_memory_alloc s = Inr (q, t) \<Longrightarrow> machine_of t = machine_of s"
  "machine_of (k_memory_free p s) = machine_of s"
  by (auto simp: k_memory_alloc_def k_memory_free_def bindr_eq_Inr simp del: machine_of_fields split: prod.split)


lemma api_step_machine:
  assumes inv: "kernel_inv s" and step: "api_step s t"
  shows "machine_step (machine_of s) (machine_of t)"
  using step
proof cases
  case (create f nm prio r)
  then show ?thesis
    using machine_create [OF inv create(1), of nm prio] machine_step.create [OF create(1)]
    by (simp del: machine_of_fields)
next
  case (suspend tid r)
  then show ?thesis
    using machine_suspend [OF kernel_invD(1) [OF inv], of tid] machine_step.suspend by (simp del: machine_of_fields)
next
  case (resume tid r)
  then show ?thesis
    using machine_resume [OF kernel_invD(1) [OF inv], of tid] machine_step.resume by (simp del: machine_of_fields)
next
  case (sem_wait sem r sem')
  then show ?thesis
    using kernel_invD(1) [OF inv] by (auto simp: rtos_sem_wait_def Let_def deref_current_eq_Inr machine_block
        simp del: machine_of_fields intro: machine_step.no_effect machine_step.wait split: if_splits)
next
  case (mutex_lock m r m')
  then obtain i where i: "rtos_current_task s = Some i" by (auto simp: rtos_mutex_lock_def deref_current_eq_Inr)
  have "machine_of t = machine_of s \<or> machine_of t = block BLOCK_MUTEX (machine_of s)"
    using mutex_lock i kernel_invD(1) [OF inv]
    by (cases "locked m"; cases "owner m = task_id (tcb s i)")
      (auto simp: rtos_mutex_lock_def Let_def machine_block simp del: machine_of_fields)
  then show ?thesis using machine_step.no_effect machine_step.wait [of BLOCK_MUTEX] by auto
next
  case (sem_signal sem sem')
  then show ?thesis
    using machine_release_log [OF inv] by (auto simp: rtos_sem_signal_def Let_def bindr_eq_Inr
        simp del: machine_of_fields intro: machine_step.wake)
next
  case (mutex_unlock m m')
  then show ?thesis
    using machine_release_log [OF inv] by (auto simp: rtos_mutex_unlock_def Let_def bindr_eq_Inr deref_current_eq_Inr
        simp del: machine_of_fields intro: machine_step.no_effect machine_step.wake split: if_splits)
next
  case (queue_send v q r q')
  then show ?thesis
    using kernel_invD(1) [OF inv] machine_release_log [OF inv]
    by (auto simp: rtos_queue_send_def Let_def bindr_eq_Inr deref_current_eq_Inr machine_block
        simp del: machine_of_fields intro: machine_step.wait machine_step.wake split: if_splits)
next
  case (queue_receive q r w q')
  then show ?thesis
    using kernel_invD(1) [OF inv] machine_release_log [OF inv]
    by (auto simp: rtos_queue_receive_def Let_def bindr_eq_Inr deref_current_eq_Inr machine_block
        simp del: machine_of_fields intro: machine_step.wait machine_step.wake split: if_splits)
next
  case (event_set ef b ef')
  from machine_event_set [OF inv this] obtain js where "machine_of t = call_up js (machine_of s)" by blast
  then show ?thesis by (simp only: machine_step.event)
next
  case (event_clear ef b ef')
  then show ?thesis
    by (auto simp: event_flags_clear_def Let_def machine_step.no_effect simp del: machine_of_fields split: option.splits)
next
  case (event_wait ef b r ef')
  from machine_event_wait [OF kernel_invD(1) [OF inv] this] show ?thesis
    using machine_step.no_effect machine_step.wait [of BLOCK_EVENT] by auto
next
  case (alloc q)
  then show ?thesis by (simp only: machine_memory machine_step.no_effect)
next
  case (timer_create nm' md period cb arg h)
  from machine_step.timer_create [OF machine_claim [OF kernel_invD(3) [OF inv] this]] show ?thesis .
next
  case own
  then show ?thesis by (auto simp: machine_step.no_effect simp del: machine_of_fields)
next
  case (log m xs)
  show ?thesis unfolding log machine_of_log by (rule machine_step.print)
next
  case (sleep n)
  show ?thesis
    unfolding sleep(1) machine_nap [OF kernel_invD(1) [OF inv] sleep(2,3)] by (rule machine_step.sleep)
next
  case (free q)
  show ?thesis unfolding free machine_memory(2) by (rule machine_step.no_effect)
next
  case (store i off b)
  show ?thesis unfolding store(1) machine_of_pool by (rule machine_step.no_effect)
next
  case (timer_start h)
  show ?thesis unfolding machine_arm [OF timer_start] by (rule machine_step.timer_start)
next
  case (timer_stop h)
  show ?thesis unfolding machine_disarm [OF timer_stop] by (rule machine_step.timer_stop)
next
  case (timer_delete h)
  show ?thesis unfolding machine_give_back [OF timer_delete] by (rule machine_step.timer_delete)
qed

section \<open>Any application\<close>

text \<open>
  Without a specification of its tasks, an application still does no more to the machine than a
  sequence of these operations: the machine of every run is a run of \<open>free_cycle\<close>.
\<close>

abbreviation machine_steps :: "machine \<Rightarrow> machine \<Rightarrow> bool" where
  "machine_steps \<equiv> machine_step\<^sup>*\<^sup>*"

lemma api_steps_machine:
  assumes "api_steps s t" and "kernel_inv s"
  shows "machine_steps (machine_of s) (machine_of t)"
  using assms(1)
proof (induction rule: rtranclp_induct)
  case (step y z)
  have "kernel_inv y" using api_steps_ok [OF step.hyps(1) assms(2)] by (simp add: api_ok_def)
  with step show ?case by (blast intro: api_step_machine rtranclp.rtrancl_into_rtrancl)
qed simp

definition free_cycle :: "machine \<Rightarrow> machine \<Rightarrow> bool" where
  "free_cycle m n \<longleftrightarrow> cycle_move (\<lambda>f x y. machine_steps (fst x) (fst y)) (\<lambda>f a x y. machine_steps (fst x) (fst y))
     (m, ()) (n, ())"

sublocale application \<subseteq> anything: simulated app app_inv "\<lambda>_. ()"
  "\<lambda>f x y. machine_steps (fst x) (fst y)" "\<lambda>f a x y. machine_steps (fst x) (fst y)"
proof (unfold_locales, goal_cases)
  case (1 s n i s')
  from task_runs [OF 1(1-4)] have "api_steps s s'" unfolding 1(5) by simp
  then show ?case using 1(1) by (simp add: api_steps_machine del: machine_of_fields)
next
  case (2 s n j s')
  from callback_runs [OF 2(1-5)] have "api_steps s s'" unfolding 2(6) by simp
  then show ?case using 2(1) by (simp add: api_steps_machine del: machine_of_fields)
qed

lemma relpowp_unit: "((R :: 'a \<times> unit \<Rightarrow> 'a \<times> unit \<Rightarrow> bool) ^^ n) (x, ()) (y, ()) \<longleftrightarrow> ((\<lambda>x y. R (x, ()) (y, ())) ^^ n) x y"
proof (induction n arbitrary: y)
  case (Suc n)
  then show ?case by (auto simp: relcompp_apply)
qed auto

context application begin

lemma run_free:
  assumes "kernel_inv s" and "no_running s" and "app_inv (9 * nat max_ticks) s"
  shows "returns (scheduler_run app max_ticks s) (\<lambda>s'. (free_cycle ^^ nat max_ticks) (machine_of s) (machine_of s'))"
  using anything.run_within [OF assms] unfolding anything.view_def relpowp_unit free_cycle_def [abs_def] .

end

text \<open>What no operation and no cycle of the machine can undo: the jobs stay the same jobs, the
  lines printed stay printed.\<close>

definition identity :: "job \<Rightarrow> addr \<times> int" where
  "identity j = (j_function j, j_priority j)"

definition later :: "machine \<Rightarrow> machine \<Rightarrow> bool" where
  "later m n \<longleftrightarrow> prefix (map identity (jobs m)) (map identity (jobs n)) \<and> suffix (printed m) (printed n) \<and>
     length (alarms n) = length (alarms m)"

lemma later_refl: "later m m"
  by (simp add: later_def)

lemma later_trans: "later m n \<Longrightarrow> later n p \<Longrightarrow> later m p"
  by (auto simp: later_def intro: prefix_order.trans suffix_order.trans)

lemma map_update_same: "g y = g (xs ! i) \<Longrightarrow> map g (xs[i := y]) = map g xs"
  by (simp add: map_update) (metis list_update_beyond list_update_id map_update not_le)

lemma identity_updates [simp]:
  "identity (enter_state st r j) = identity j" "identity (j\<lparr>j_sleep := n\<rparr>) = identity j"
  "identity (j\<lparr>j_slice := k\<rparr>) = identity j" "identity (count_down j) = identity j"
  by (simp_all add: identity_def enter_state_def count_down_def)

lemma later_move: "later m (move i st r m)"
  by (simp add: later_def move_def map_update_same)

lemma later_on_alarm: "later m (on_alarm i f m)"
  by (simp add: later_def on_alarm_def)

lemma later_call_up: "later m (call_up is m)"
proof (induction "is" arbitrary: m)
  case Nil
  show ?case by (simp add: call_up_def later_refl)
next
  case (Cons i js)
  let ?m = "if i < 0 \<or> i \<ge> int (length (jobs m)) then m else move (nat i) TASK_READY BLOCK_NONE m"
  have "later m ?m" by (simp add: later_refl later_move)
  moreover have "call_up (i # js) m = call_up js ?m" unfolding call_up_def fold_Cons by simp
  ultimately show ?case using later_trans [OF _ Cons.IH [of ?m]] by (simp only:)
qed

lemma later_nap: "later m (nap n m)"
proof (cases "current m")
  case (Some i)
  let ?m = "m\<lparr>jobs := (jobs m)[i := (jobs m ! i)\<lparr>j_sleep := n\<rparr>]\<rparr>"
  have "later m ?m" by (simp add: later_def map_update_same)
  then show ?thesis using Some later_trans [OF _ later_move] by (simp add: nap_def)
qed (simp add: nap_def later_refl)

lemma machine_step_later: "machine_step m n \<Longrightarrow> later m n"
proof (induction rule: machine_step.induct)
  case (print txs xs m)
  then show ?case by (simp add: later_def say_def suffix_ConsI)
next
  case (timer_create md period cb arg m h m')
  then show ?case by (auto simp: claim_def later_def split: if_splits option.splits)
next
  case (create f m prio)
  then show ?case by (simp add: later_def spawn_def)
qed (auto simp: later_refl later_nap later_move later_on_alarm later_call_up hold_back_def let_go_def block_def
    release_def arm_def disarm_def give_back_def split: option.split)

lemma machine_steps_later: "machine_steps m n \<Longrightarrow> later m n"
  by (induction rule: rtranclp_induct) (auto intro: later_refl later_trans machine_step_later)

lemma alarm_move_later:
  assumes "alarm_move (\<lambda>f a x y. machine_steps (fst x) (fst y)) i x y"
  shows "later (fst x) (fst y)"
  using assms
proof cases
  case (ring m a d m' d')
  have "later m (wind i m)" "later m' (rewind i m')" by (simp_all add: wind_def rewind_def later_on_alarm)
  moreover have "later (wind i m) m'" using ring by (simp add: machine_steps_later)
  ultimately show ?thesis using ring by (auto intro: later_trans)
qed (auto simp: later_refl wind_def later_on_alarm)

lemma ring_move_later:
  "ring_move (\<lambda>f a x y. machine_steps (fst x) (fst y)) k x y \<Longrightarrow> later (fst x) (fst y)"
  by (induction rule: ring_move.induct) (auto intro: later_refl later_trans dest: alarm_move_later)

lemma turn_move_later:
  assumes "turn_move (\<lambda>f x y. machine_steps (fst x) (fst y)) x y"
  shows "later (fst x) (fst y)"
  using assms
proof cases
  case (idle m d)
  then show ?thesis
    by (auto simp: rest_def later_def map_update_same split: option.split)
next
  case (run m i d m' d')
  have "later m (m\<lparr>jobs := (jobs m)[i := (jobs m ! i)\<lparr>j_slice := k\<rparr>], current := Some i\<rparr>)" for k
    by (simp add: later_def map_update_same)
  then have "later m (turn_to i m)" unfolding turn_to_def by (rule later_trans) (rule later_move)
  moreover have "later m' (end_turn i m')" by (simp add: end_turn_def later_refl later_move)
  moreover have "later (turn_to i m) m'" using run by (simp add: machine_steps_later)
  ultimately show ?thesis using run by (auto intro: later_trans)
qed

lemma later_tick: "later m (tick m)"
  by (simp add: later_def tick_def comp_def)

lemma free_cycle_later: "free_cycle m n \<Longrightarrow> later m n"
  unfolding free_cycle_def
  by (auto simp: cycle_move_simps intro: later_trans [OF later_trans [OF later_tick]]
      dest!: ring_move_later turn_move_later)

lemma free_cycles_later: "(free_cycle ^^ n) m p \<Longrightarrow> later m p"
  by (induction n arbitrary: p) (auto intro: later_refl later_trans dest: free_cycle_later)

section \<open>Properties\<close>

text \<open>
  C3: Any application at all that keeps the contract: the machine represented by the kernel goes
  through cycles of the abstract scheduler in which each task function and each callback does
  some sequence of the thirteen operations of \<open>machine_step\<close> and nothing else, so that the
  tasks keep their places, functions and priorities, and nothing printed is taken back.
\<close>

theorem any_application_refines:
  assumes "application app app_inv" and "kernel_inv s" and "no_running s"
    and "app_inv (9 * nat max_ticks) s"
  shows "returns (scheduler_run app max_ticks s) (\<lambda>s'.
    (free_cycle ^^ nat max_ticks) (machine_of s) (machine_of s') \<and>
    prefix (map (\<lambda>t. (task_function t, priority t)) (take (task_count s) (task_list s)))
      (map (\<lambda>t. (task_function t, priority t)) (take (task_count s') (task_list s'))) \<and>
    suffix (app_lines s) (app_lines s'))"
proof (rule returns_mono [OF application.run_free [OF assms]])
  fix s'
  assume run: "(free_cycle ^^ nat max_ticks) (machine_of s) (machine_of s')"
  have "later (machine_of s) (machine_of s')" by (rule free_cycles_later [OF run])
  with run show "(free_cycle ^^ nat max_ticks) (machine_of s) (machine_of s') \<and>
    prefix (map (\<lambda>t. (task_function t, priority t)) (take (task_count s) (task_list s)))
      (map (\<lambda>t. (task_function t, priority t)) (take (task_count s') (task_list s'))) \<and>
    suffix (app_lines s) (app_lines s')"
    by (simp add: later_def identity_def comp_def)
qed

end
