(* ===== verification/Console.thy ===== *)
theory Console
  imports Kernel_State
begin

text \<open>
  The text \<open>uart_log\<close> writes. The other theories record each call as a constructor with its
  values; here every constructor is given the format string and the arguments of its call in the
  source, and \<open>vprintf\<close> is defined for the conversions the code uses. The text of a pointer
  (\<open>%p\<close>) is up to the C implementation and a parameter.
\<close>

section \<open>Numbers as text\<close>

definition digit :: "nat \<Rightarrow> char" where
  "digit n = ''0123456789ABCDEF'' ! n"

text \<open>The digits of \<open>n\<close> to the base \<open>b\<close>, the most significant first.\<close>

function digits :: "nat \<Rightarrow> nat \<Rightarrow> string" where
  "digits b n = (if b < 2 \<or> n < b then [digit n] else digits b (n div b) @ [digit (n mod b)])"
  by pat_completeness auto
termination by (relation "measure snd") auto

declare digits.simps [simp del]

definition pad :: "nat \<Rightarrow> string \<Rightarrow> string" where
  "pad w s = replicate (w - length s) (CHR ''0'') @ s"

text \<open>\<open>%d\<close> is \<open>show_int 1\<close>, \<open>%02d\<close> is \<open>show_int 2\<close>: a sign counts for the width.\<close>

definition show_int :: "nat \<Rightarrow> int \<Rightarrow> string" where
  "show_int w x = (if x < 0 then CHR ''-'' # pad (w - 1) (digits 10 (nat (- x))) else pad w (digits 10 (nat x)))"

section \<open>printf\<close>

text \<open>A pointer into the pool, or into the stack of a task.\<close>

datatype pointer = PoolAddr int | StackAddr nat nat

datatype arg = SInt int | UInt "32 word" | Str string | Ptr pointer

text \<open>
  One conversion, without its \<open>%\<close>. An argument of another type is undefined behaviour in C: none.
\<close>

fun convert :: "(pointer \<Rightarrow> string) \<Rightarrow> string \<Rightarrow> arg \<Rightarrow> string option" where
  "convert ptr c (SInt x) =
     (if c = ''d'' then Some (show_int 1 x) else if c = ''02d'' then Some (show_int 2 x) else None)"
| "convert ptr c (UInt w) =
     (if c = ''u'' then Some (digits 10 (unat w)) else if c = ''08X'' then Some (pad 8 (digits 16 (unat w))) else None)"
| "convert ptr c (Str s) = (if c = ''s'' then Some s else None)"
| "convert ptr c (Ptr p) = (if c = ''p'' then Some (ptr p) else None)"

text \<open>
  \<open>put ptr k format args\<close>: \<open>k\<close> is what has been read of a conversion, none outside of one.
\<close>

fun put :: "(pointer \<Rightarrow> string) \<Rightarrow> string option \<Rightarrow> string \<Rightarrow> arg list \<Rightarrow> string option" where
  "put ptr None [] args = Some []"
| "put ptr (Some k) [] args = None"
| "put ptr None (c # cs) args =
     (if c = CHR ''%'' then put ptr (Some []) cs args else map_option (Cons c) (put ptr None cs args))"
| "put ptr (Some k) (c # cs) args =
     (if c \<notin> set ''duXsp'' then put ptr (Some (k @ [c])) cs args
      else case args of [] \<Rightarrow> None
        | a # as \<Rightarrow>
          (case convert ptr (k @ [c]) a of None \<Rightarrow> None
           | Some t \<Rightarrow> map_option (append t) (put ptr None cs as)))"

definition vprintf :: "(pointer \<Rightarrow> string) \<Rightarrow> string \<times> arg list \<Rightarrow> string option" where
  "vprintf ptr call = put ptr None (fst call) (snd call)"

section \<open>The calls of uart_log\<close>

fun state_name :: "TaskState \<Rightarrow> string" where
  "state_name TASK_READY = ''READY''"
| "state_name TASK_RUNNING = ''RUNNING''"
| "state_name TASK_BLOCKED = ''BLOCKED''"
| "state_name TASK_SUSPENDED = ''SUSPENDED''"

fun mode_name :: "TimerMode \<Rightarrow> string" where
  "mode_name TIMER_PERIODIC = ''PERIODIC''"
| "mode_name TIMER_ONE_SHOT = ''ONE_SHOT''"

fun reason_name :: "switch_reason \<Rightarrow> string" where
  "reason_name First_tick = ''First tick''"
| "reason_name Forced = ''Forced''"
| "reason_name Preempted = ''Preempted''"
| "reason_name Slice_expired = ''Slice expired''"

definition or_else :: "string \<Rightarrow> string option \<Rightarrow> arg" where
  "or_else d nm = Str (case nm of None \<Rightarrow> d | Some n \<Rightarrow> n)"

fun sched_call :: "sched_log \<Rightarrow> string \<times> arg list" where
  "sched_call (LogCurrentTask t nm st) =
     (''[Tick %u] Current Task  : %s (state=%s)'', [UInt t, Str nm, Str (state_name st)])"
| "sched_call (LogContextSaved t nm) = (''[Tick %u] Context Saved  : %s'', [UInt t, Str nm])"
| "sched_call (LogContextSwitch t r old nm) =
     (''[Tick %u] Context Switch [%s]: %s -> %s'', [UInt t, Str (reason_name r), or_else ''(none)'' old, Str nm])"
| "sched_call (LogNextTask t nm p) = (''[Tick %u] Next Task      : %s (priority=%d)'', [UInt t, Str nm, SInt p])"
| "sched_call (LogContextRestored t nm pcv lrv) =
     (''[Tick %u] Context Restored: %s (pc=0x%08X lr=0x%08X)'', [UInt t, Str nm, UInt pcv, UInt lrv])"
| "sched_call (LogTaskRunning t i nm sp n) =
     (''[Tick %u] Task Running   : %s sp=%p ready=%d'', [UInt t, Str nm, Ptr (StackAddr i sp), SInt (int n)])"
| "sched_call (LogTaskState t nm st) = (''[Tick %u] %s state=%s'', [UInt t, Str nm, Str (state_name st)])"
| "sched_call (LogIdle t) = (''[Tick %u] Idle: no READY tasks'', [UInt t])"
| "sched_call (LogForcedSwitch t nm st to) =
     (''[Tick %u] [Forced switch]: %s (%s) -> %s'', [UInt t, Str nm, Str (state_name st), Str to])"
| "sched_call (LogPreempted t nm p by' q) =
     (''[Tick %u] [Preempted]    : %s (pri=%d) by %s (pri=%d)'', [UInt t, Str nm, SInt p, Str by', SInt q])"
| "sched_call (LogSliceExpired t nm to n) =
     (''[Tick %u] [Slice expired]: %s yielding to %s (slice=%u/%u)'',
      [UInt t, Str nm, Str to, UInt n, UInt RTOS_TIME_SLICE_TICKS])"
| "sched_call (LogContinue t nm n p) =
     (''[Tick %u] Continue      : %s (slice=%u/%u, priority=%d)'',
      [UInt t, Str nm, UInt n, UInt RTOS_TIME_SLICE_TICKS, SInt p])"
| "sched_call (LogUnblocked nm) = (''%s unblocked'', [Str nm])"

fun timer_call :: "timer_log \<Rightarrow> string \<times> arg list" where
  "timer_call (LogTimerExpired t nm m) =
     (''[Tick %u] Timer Expired : %s (mode=%s)'', [UInt t, Str nm, Str (mode_name m)])"
| "timer_call (LogCallbackExecuting t nm) = (''[Tick %u] Timer Callback: %s executing'', [UInt t, Str nm])"
| "timer_call (LogCallbackDone t nm) = (''[Tick %u] Timer Callback: %s done'', [UInt t, Str nm])"
| "timer_call (LogTimerReload t nm p) =
     (''[Tick %u] Timer Reload  : %s (next in %u ticks)'', [UInt t, Str nm, UInt p])"
| "timer_call (LogOneShotComplete t nm) =
     (''[Tick %u] Timer Stopped : %s (one-shot complete)'', [UInt t, Str nm])"
| "timer_call (LogSleepExpired t nm) = (''[Tick %u] Sleep expired : %s waking up'', [UInt t, Str nm])"
| "timer_call (LogCreateNullCallback nm) =
     (''Timer Create FAILED: callback is NULL (name=%s)'', [or_else ''(null)'' nm])"
| "timer_call (LogCreateZeroPeriod nm) =
     (''Timer Create FAILED: period_ticks must be >= 1 (name=%s)'', [or_else ''(null)'' nm])"
| "timer_call (LogTimerCreated nm m p) =
     (''Timer Created  : %s (mode=%s period=%u ticks)'', [Str nm, Str (mode_name m), UInt p])"
| "timer_call LogTimerPoolExhausted =
     (''Timer Create FAILED: pool exhausted (%u/%u slots used)'', 
      [UInt (of_nat RTOS_SOFT_TIMER_COUNT), UInt (of_nat RTOS_SOFT_TIMER_COUNT)])"
| "timer_call LogTimerStartIgnored = (''Timer Start IGNORED: invalid timer'', [])"
| "timer_call (LogTimerStarted nm p) = (''Timer Started  : %s (fires in %u ticks)'', [Str nm, UInt p])"
| "timer_call LogTimerStopIgnored = (''Timer Stop IGNORED: invalid timer'', [])"
| "timer_call (LogTimerStopped nm) = (''Timer Stopped  : %s'', [Str nm])"
| "timer_call LogTimerDeleteIgnored = (''Timer Delete IGNORED: invalid timer'', [])"
| "timer_call (LogTimerDeleted nm) = (''Timer Deleted  : %s'', [Str nm])"

fun rtos_call :: "rtos_log \<Rightarrow> string \<times> arg list" where
  "rtos_call LogTaskTableFull = (''Task create failed: task table full'', [])"
| "rtos_call (LogTaskCreated nm p) = (''Task Created: %s priority=%d'', [Str nm, SInt p])"
| "rtos_call (LogTaskSuspended nm) = (''Task Suspended: %s'', [Str nm])"
| "rtos_call (LogTaskResumed nm) = (''Task Resumed: %s'', [Str nm])"
| "rtos_call (LogSemAcquired nm n) = (''Semaphore Acquired by %s count=%d'', [Str nm, SInt n])"
| "rtos_call (LogSemWaiting nm) = (''%s waiting on semaphore'', [Str nm])"
| "rtos_call (LogSemReleased n) = (''Semaphore Released count=%d'', [SInt n])"
| "rtos_call (LogMutexLocked nm) = (''Mutex Locked by %s'', [Str nm])"
| "rtos_call (LogMutexWaiting nm) = (''%s waiting on mutex'', [Str nm])"
| "rtos_call (LogMutexUnlockIgnored nm) = (''Mutex unlock ignored for %s'', [Str nm])"
| "rtos_call (LogMutexReleased nm) = (''Mutex Released by %s'', [Str nm])"
| "rtos_call (LogQueueFull nm) = (''%s waiting: queue full'', [Str nm])"
| "rtos_call (LogQueueSend nm v n) = (''Queue Send by %s value=%d count=%d'', [Str nm, SInt v, SInt n])"
| "rtos_call (LogQueueEmpty nm) = (''%s waiting: queue empty'', [Str nm])"
| "rtos_call (LogQueueReceive nm v n) = (''Queue Receive by %s value=%d count=%d'', [Str nm, SInt v, SInt n])"

fun pool_call :: "pool_log \<Rightarrow> string \<times> arg list" where
  "pool_call PoolInit = (''Memory Pool Init: %d blocks x %d bytes = %d bytes total'', 
      [SInt (int RTOS_POOL_BLOCK_COUNT), SInt (int RTOS_POOL_BLOCK_SIZE),
       SInt (int (RTOS_POOL_BLOCK_COUNT * RTOS_POOL_BLOCK_SIZE))])"
| "pool_call AllocFailed = (''Memory Alloc FAILED: pool exhausted (0/%d blocks free)'', [SInt (int RTOS_POOL_BLOCK_COUNT)])"
| "pool_call (AllocBlock i p n) =
     (''Memory Alloc: block %d @ %p (%d/%d blocks free)'', [SInt i, Ptr (PoolAddr p), SInt n, SInt (int RTOS_POOL_BLOCK_COUNT)])"
| "pool_call FreeNull = (''Memory Free IGNORED: NULL pointer'', [])"
| "pool_call (FreeInvalid p) = (''Memory Free ERROR: %p is not a valid pool block'', [Ptr (PoolAddr p)])"
| "pool_call (DoubleFree i p) =
     (''Memory Free ERROR: double-free detected on block %d @ %p'', [SInt i, Ptr (PoolAddr p)])"
| "pool_call (FreeBlock i p n) =
     (''Memory Free: block %d @ %p (%d/%d blocks free)'', [SInt i, Ptr (PoolAddr p), SInt n, SInt (int RTOS_POOL_BLOCK_COUNT)])"

fun event_call :: "event_log \<Rightarrow> string \<times> arg list" where
  "event_call (LogEventSet f m) = (''Event Set      : flags=0x%08X mask=0x%08X'', [UInt f, UInt m])"
| "event_call (LogEventWake i f) = (''Event Wake     : task_index=%d flags=0x%08X'', [SInt i, UInt f])"
| "event_call (LogEventClear f m) = (''Event Clear    : flags=0x%08X mask=0x%08X'', [UInt f, UInt m])"
| "event_call (LogEventWaitOk m f) =
     (''Event Wait OK  : mask=0x%08X (immediate, flags now 0x%08X)'', [UInt m, UInt f])"
| "event_call (LogEventWaitFull m) =
     (''Event Wait FULL: waiter table full, mask=0x%08X dropped'', [UInt m])"
| "event_call (LogEventWait i m) =
     (''Event Wait     : task_index=%d mask=0x%08X (blocking)'', [SInt i, UInt m])"

fun log_call :: "logmsg \<Rightarrow> string \<times> arg list" where
  "log_call (Sched m) = sched_call m"
| "log_call (Timer m) = timer_call m"
| "log_call (Rtos m) = rtos_call m"
| "log_call (Pool m) = pool_call m"
| "log_call (Event m) = event_call m"
| "log_call (App f xs) = (f, map SInt xs)"

text \<open>The line \<open>uart_log\<close> prints for an entry of \<open>uart_out\<close>.\<close>

fun uart_line :: "(pointer \<Rightarrow> string) \<Rightarrow> int \<times> int \<times> logmsg \<Rightarrow> string option" where
  "uart_line ptr (mm, ss, m) =
     (case (vprintf ptr (''[%02d:%02d] '', [SInt mm, SInt ss]), vprintf ptr (log_call m)) of
        (Some a, Some b) \<Rightarrow> Some (a @ b @ [CHR 0x0A]) | _ \<Rightarrow> None)"

section \<open>Every format matches its arguments\<close>



lemma sched_call_matches: "\<exists>t. vprintf ptr (sched_call m) = Some t"
  by (cases m) (simp_all add: vprintf_def or_else_def)

lemma timer_call_matches: "\<exists>t. vprintf ptr (timer_call m) = Some t"
  by (cases m) (simp_all add: vprintf_def or_else_def)

lemma rtos_call_matches: "\<exists>t. vprintf ptr (rtos_call m) = Some t"
  by (cases m) (simp_all add: vprintf_def)

lemma pool_call_matches: "\<exists>t. vprintf ptr (pool_call m) = Some t"
  by (cases m) (simp_all add: vprintf_def)

lemma event_call_matches: "\<exists>t. vprintf ptr (event_call m) = Some t"
  by (cases m) (simp_all add: vprintf_def)

lemma log_call_matches:
  assumes "\<And>f xs. m \<noteq> App f xs"
  shows "\<exists>t. vprintf ptr (log_call m) = Some t"
  using assms sched_call_matches timer_call_matches rtos_call_matches pool_call_matches event_call_matches
  by (cases m) auto

section \<open>Reading numbers back\<close>

definition digit_value :: "char \<Rightarrow> nat" where
  "digit_value c = (let n = of_char c in if n < 58 then n - 48 else n - 55)"

definition read_digits :: "nat \<Rightarrow> string \<Rightarrow> nat" where
  "read_digits b s = foldl (\<lambda>n c. b * n + digit_value c) 0 s"

lemma less_16: "n < 16 \<longleftrightarrow> n \<in> {0, 1, 2, 3, 4, 5, 6, 7, 8, 9, 10, 11, 12, 13, 14, 15 :: nat}"
  by (simp only: insert_iff empty_iff) arith

lemma digit_value_digit: "n < 16 \<Longrightarrow> digit_value (digit n) = n"
  unfolding less_16 by (elim insertE) (simp_all add: digit_value_def digit_def)

lemma read_digits_digits:
  assumes b: "2 \<le> b" "b \<le> 16"
  shows "read_digits b (digits b n) = n"
proof (induction n rule: less_induct)
  case (less n)
  show ?case
  proof (cases "n < b")
    case True
    then show ?thesis
      using b by (simp add: digits.simps [of b n] read_digits_def digit_value_digit)
  next
    case False
    then have "n div b < n" using b by (intro div_less_dividend) linarith+
    moreover have "n mod b < 16" using b by (intro order_less_le_trans [OF mod_less_divisor]) simp_all
    ultimately show ?thesis
      using False b less by (simp add: digits.simps [of b n] read_digits_def digit_value_digit)
  qed
qed

lemma read_digits_pad: "read_digits b (pad w s) = read_digits b s"
proof -
  have "foldl (\<lambda>n c. b * n + digit_value c) 0 (replicate k (CHR ''0'')) = 0" for k
    by (induction k) (simp_all add: digit_value_def)
  then show ?thesis by (simp add: read_digits_def pad_def)
qed

lemma digits_bound:
  assumes "2 \<le> b" and "n < b ^ Suc k"
  shows "length (digits b n) \<le> Suc k"
  using assms
proof (induction k arbitrary: n)
  case 0
  then show ?case by (simp add: digits.simps [of b n])
next
  case (Suc k)
  have "n div b < b ^ Suc k" using Suc.prems by (simp add: less_mult_imp_div_less mult.commute)
  then show ?case using Suc by (simp add: digits.simps [of b n])
qed

lemma digits_chars:
  assumes b: "2 \<le> b" "b \<le> 16"
  shows "set (digits b n) \<subseteq> set ''0123456789ABCDEF''"
proof (induction n rule: less_induct)
  case (less n)
  have "digit k \<in> set ''0123456789ABCDEF''" if "k < 16" for k
    unfolding digit_def using that by (intro nth_mem) simp
  moreover have "n div b < n" if "\<not> n < b" using b that by (intro div_less_dividend) linarith+
  moreover have "n mod b < 16" using b by (intro order_less_le_trans [OF mod_less_divisor]) simp_all
  ultimately show ?case using less b by (auto simp: digits.simps [of b n])
qed

lemma pad_chars: "set (pad w s) \<subseteq> insert (CHR ''0'') (set s)"
  by (auto simp: pad_def)

text \<open>\<open>%08X\<close> prints exactly eight digits, and they are the value.\<close>

lemma hex_roundtrip:
  fixes w :: "32 word"
  shows "length (pad 8 (digits 16 (unat w))) = 8" and "read_digits 16 (pad 8 (digits 16 (unat w))) = unat w"
proof -
  have "unat w < 16 ^ Suc 7" using unsigned_less [of w] by simp
  then have "length (digits 16 (unat w)) \<le> 8" using digits_bound [of 16 "unat w" 7] by simp
  then show "length (pad 8 (digits 16 (unat w))) = 8" by (simp add: pad_def)
qed (simp add: read_digits_pad read_digits_digits)

section \<open>The time stamp\<close>

text \<open>The clock read back from a line: the number up to the colon in minutes, the next in seconds.\<close>

definition read_stamp :: "string \<Rightarrow> nat" where
  "read_stamp line =
     (let s = tl line
      in 60 * read_digits 10 (takeWhile (\<lambda>c. c \<noteq> CHR '':'') s) +
         read_digits 10 (takeWhile (\<lambda>c. c \<noteq> CHR '']'') (tl (dropWhile (\<lambda>c. c \<noteq> CHR '':'') s))))"

lemma two_digits:
  assumes "0 \<le> x"
  shows "read_digits 10 (show_int 2 x) = nat x" and "set (show_int 2 x) \<subseteq> set ''0123456789ABCDEF''"
proof -
  have "show_int 2 x = pad 2 (digits 10 (nat x))" using assms by (simp add: show_int_def)
  moreover have "set (pad 2 (digits 10 (nat x))) \<subseteq> set ''0123456789ABCDEF''"
  proof
    fix c
    assume "c \<in> set (pad 2 (digits 10 (nat x)))"
    then have "c = CHR ''0'' \<or> c \<in> set (digits 10 (nat x))" using pad_chars by blast
    then show "c \<in> set ''0123456789ABCDEF''"
    proof
      assume "c \<in> set (digits 10 (nat x))"
      then show ?thesis using digits_chars [of 10 "nat x"] by (rule rev_subsetD) simp_all
    qed simp
  qed
  ultimately show "read_digits 10 (show_int 2 x) = nat x" "set (show_int 2 x) \<subseteq> set ''0123456789ABCDEF''"
    by (simp_all only: read_digits_pad) (simp add: read_digits_digits)
qed

lemma read_stamp_line:
  assumes "0 \<le> mm" and "0 \<le> ss"
  shows "read_stamp (CHR ''['' # show_int 2 mm @ CHR '':'' # show_int 2 ss @ CHR '']'' # rest) = 60 * nat mm + nat ss"
proof -
  have c: "c \<noteq> CHR '':''" if "c \<in> set (show_int 2 mm)" for c
    using subsetD [OF two_digits(2) [OF assms(1)] that] by auto
  have d: "c \<noteq> CHR '']''" if "c \<in> set (show_int 2 ss)" for c
    using subsetD [OF two_digits(2) [OF assms(2)] that] by auto
  show ?thesis
    using two_digits(1) [OF assms(1)] two_digits(1) [OF assms(2)]
    by (simp add: read_stamp_def Let_def takeWhile_append2 [OF c] dropWhile_append2 [OF c] takeWhile_append2 [OF d])
qed

lemma clock_parts:
  fixes w :: "32 word"
  shows "to_int (uint (w div 60)) = uint w div 60" and "to_int (uint (w mod 60)) = uint w mod 60"
proof -
  have "0 \<le> uint w" "uint w < 4294967296" using uint_lt2p [of w] by simp_all
  then have "0 \<le> uint w div 60 \<and> uint w div 60 < 2147483648" "0 \<le> uint w mod 60 \<and> uint w mod 60 < 60"
    by (simp_all add: pos_imp_zdiv_nonneg_iff)
  then have "in_int (uint w div 60)" "in_int (uint w mod 60)" unfolding int_range_defs by linarith+
  then show "to_int (uint (w div 60)) = uint w div 60" "to_int (uint (w mod 60)) = uint w mod 60"
    by (simp_all add: to_int_id uint_div_distrib uint_mod_distrib)
qed

section \<open>Properties\<close>

text \<open>
  C33: Every call of \<open>uart_log\<close> in the kernel passes arguments of the number and the types its format
  string asks for, whatever the values (task names being strings, not null): \<open>printf\<close> always produces a line.
\<close>

theorem printf_arguments_match:
  assumes "\<forall>f xs. m \<noteq> App f xs"
  shows "\<exists>out. uart_line ptr (hd (uart_out (uart_log m s))) = Some out"
proof -
  obtain t where "vprintf ptr (log_call m) = Some t" using log_call_matches assms by blast
  then show ?thesis by (simp add: uart_log_def vprintf_def)
qed

theorem printf_arguments_match_witness:
  "uart_line (\<lambda>_. []) (hd (uart_out (uart_log (Rtos (LogSemReleased 3)) (boot 4096 ())))) =
     Some (''[00:00] Semaphore Released count=3'' @ [CHR 0x0A])"
proof -
  obtain out where "uart_line (\<lambda>_. []) (hd (uart_out (uart_log (Rtos (LogSemReleased 3)) (boot 4096 ())))) = Some out"
    using printf_arguments_match [of "Rtos (LogSemReleased 3)" "\<lambda>_. []" "boot 4096 ()"] by auto
  then show ?thesis
    by (simp add: uart_log_def boot_def timer_now_def to_int_def vprintf_def show_int_def pad_def digits.simps digit_def)
qed

text \<open>
  C34: The time stamp of a line identifies the tick: from the text of any line the clock at the
  time of the call can be read back, for all \<open>2 ^ 32\<close> values of the clock.
\<close>

theorem stamp_roundtrip:
  assumes "uart_line ptr (hd (uart_out (uart_log m s))) = Some out"
  shows "read_stamp out = unat (timer_now s)"
proof -
  let ?t = "uint (timer_now s)"
  obtain body where b: "out = CHR ''['' # show_int 2 (?t div 60) @ CHR '':'' # show_int 2 (?t mod 60) @ CHR '']'' # body"
    using assms
    by (auto simp: uart_log_def clock_parts vprintf_def split: option.splits)
  have "60 * nat (?t div 60) + nat (?t mod 60) = nat ?t"
    by (simp add: nat_div_distrib nat_mod_distrib)
  moreover have "0 \<le> ?t div 60" "0 \<le> ?t mod 60" by (simp_all add: pos_imp_zdiv_nonneg_iff)
  ultimately show ?thesis unfolding b by (simp add: read_stamp_line)
qed

theorem stamp_roundtrip_witness:
  "read_stamp (''[01:05] Task Suspended: A'' @ [CHR 0x0A]) = unat (65 :: 32 word)"
proof -
  let ?s = "(boot 4096 ())\<lparr>g_kernel_tick := 65\<rparr>"
  have "uart_line (\<lambda>_. []) (hd (uart_out (uart_log (Rtos (LogTaskSuspended ''A'')) ?s))) =
      Some (''[01:05] Task Suspended: A'' @ [CHR 0x0A])"
    by (simp add: uart_log_def timer_now_def to_int_def vprintf_def show_int_def pad_def digits.simps digit_def)
  from stamp_roundtrip [OF this] show ?thesis by (simp add: timer_now_def)
qed

end
