(* ===== verification/Demo.thy ===== *)
theory Demo
  imports Api_Spec Console
begin

text \<open>
  The demo application of \<open>main.c\<close>: its static variables, its three tasks and \<open>main\<close>. It keeps
  the contract of \<open>App_Contract\<close>, so its run is safe, and the semaphore always counts exactly the
  samples in the queue. Its tasks meet the specifications \<open>demo_spec\<close> on the abstract machine of
  \<open>Sched_Spec\<close>, so that its run is a run of the specification (\<open>Demo_Schedule\<close>).
\<close>

section \<open>The program\<close>

text \<open>\<open>sample\<close> is the static variable of \<open>sensor_task\<close>, initially 100.\<close>

record demo_vars =
  data_ready :: Semaphore
  uart_mutex :: Mutex
  sensor_queue :: MessageQueue
  sample :: int

type_synonym demo_state = "demo_vars kernel_scheme"

text \<open>The variables of the application inside the state, and an assignment to one of them.\<close>

abbreviation vars :: "demo_state \<Rightarrow> demo_vars" where
  "vars s \<equiv> kernel.more s"

abbreviation assign :: "(demo_vars \<Rightarrow> demo_vars) \<Rightarrow> demo_state \<Rightarrow> demo_state" where
  "assign f s \<equiv> kernel.more_update f s"

definition sensor_task :: "demo_state \<Rightarrow> demo_state res" where
  "sensor_task s =
     bindr (rtos_queue_send (sample (vars s)) (sensor_queue (vars s)) s) (\<lambda>(sent, q, s1).
       let s2 = assign (\<lambda>v. v\<lparr>sensor_queue := q\<rparr>) s1 in
       bindr
         (if sent then
            let s3 = uart_log (App ''Sensor Task produced sample=%d'' [sample (vars s2)]) s2 in
            bindr (c_int (sample (vars s3) + 5)) (\<lambda>n.
              let s4 = assign (\<lambda>v. v\<lparr>sample := n\<rparr>) s3 in
              bindr (rtos_sem_signal (data_ready (vars s4)) s4) (\<lambda>(sem, s5).
                Inr (assign (\<lambda>v. v\<lparr>data_ready := sem\<rparr>) s5)))
          else Inr s2)
         (\<lambda>s6. Inr (rtos_task_sleep 3 s6)))"

definition logger_task :: "demo_state \<Rightarrow> demo_state res" where
  "logger_task s =
     bindr (rtos_sem_wait (data_ready (vars s)) s) (\<lambda>(ready, sem, s1).
       let s2 = assign (\<lambda>v. v\<lparr>data_ready := sem\<rparr>) s1 in
       if \<not> ready then Inr s2 else
       bindr (rtos_queue_receive (sensor_queue (vars s2)) s2) (\<lambda>(received, value, q, s3).
         let s4 = assign (\<lambda>v. v\<lparr>sensor_queue := q\<rparr>) s3;
             smp = (case value of Some x \<Rightarrow> x | None \<Rightarrow> 0) in
         if \<not> received then Inr s4 else
         bindr (rtos_mutex_lock (uart_mutex (vars s4)) s4) (\<lambda>(got, m, s5).
           let s6 = assign (\<lambda>v. v\<lparr>uart_mutex := m\<rparr>) s5 in
           if \<not> got then Inr s6 else
           let s7 = uart_log (App ''Logger Task stored sample=%d'' [smp]) s6 in
           bindr (rtos_mutex_unlock (uart_mutex (vars s7)) s7) (\<lambda>(m, s8).
             Inr (rtos_task_sleep 2 (assign (\<lambda>v. v\<lparr>uart_mutex := m\<rparr>) s8))))))"

definition display_task :: "demo_state \<Rightarrow> demo_state res" where
  "display_task s =
     bindr (rtos_mutex_lock (uart_mutex (vars s)) s) (\<lambda>(got, m, s1).
       let s2 = assign (\<lambda>v. v\<lparr>uart_mutex := m\<rparr>) s1 in
       if \<not> got then Inr s2 else
       let s3 = uart_log (App ''Display Task refreshed'' []) s2 in
       bindr (rtos_mutex_unlock (uart_mutex (vars s3)) s3) (\<lambda>(m, s4).
         Inr (rtos_task_sleep 4 (assign (\<lambda>v. v\<lparr>uart_mutex := m\<rparr>) s4))))"

text \<open>
  The addresses of the three functions are the linker's; any three distinct non-null ones do.
  The demo has no timer callback, so a call of one faults.
\<close>

definition sensor_addr :: addr where "sensor_addr = 0x1000"
definition logger_addr :: addr where "logger_addr = 0x2000"
definition display_addr :: addr where "display_addr = 0x3000"

definition demo_app :: "demo_state app" where
  "demo_app = \<lparr>app_task = (\<lambda>f. if f = sensor_addr then sensor_task
       else if f = logger_addr then logger_task
       else if f = display_addr then display_task else (\<lambda>s. Inl NullCall)),
     app_callback = (\<lambda>_ _ s. Inl NullCall)\<rparr>"

text \<open>\<open>main\<close> up to its call of \<open>rtos_run\<close>, without the two banner lines, and \<open>main\<close>.\<close>

definition main_setup :: "demo_state \<Rightarrow> demo_state" where
  "main_setup s =
     (let s1 = rtos_init s;
          s2 = assign (\<lambda>v. v\<lparr>data_ready := semaphore_init 0 (data_ready v)\<rparr>) s1;
          s3 = assign (\<lambda>v. v\<lparr>uart_mutex := mutex_init (uart_mutex v)\<rparr>) s2;
          s4 = assign (\<lambda>v. v\<lparr>sensor_queue := queue_init (sensor_queue v)\<rparr>) s3;
          s5 = snd (rtos_create_task ''Sensor Task'' 3 sensor_addr s4);
          s6 = snd (rtos_create_task ''Logger Task'' 2 logger_addr s5)
      in snd (rtos_create_task ''Display Task'' 1 display_addr s6))"

definition main :: "demo_state \<Rightarrow> (int \<times> demo_state) res" where
  "main s = bindr (rtos_run demo_app 25 (main_setup s)) (\<lambda>s'. Inr (0, s'))"

text \<open>The static variables before \<open>main\<close>.\<close>

definition demo_boot :: "int \<Rightarrow> demo_state" where
  "demo_boot base = boot base \<lparr>data_ready = \<lparr>sem_count = 0\<rparr>, uart_mutex = \<lparr>locked = False, owner = 0\<rparr>,
     sensor_queue = \<lparr>buffer = replicate 10 0, front = 0, rear = 0, mq_count = 0\<rparr>, sample = 100\<rparr>"

section \<open>What the tasks do, abstractly\<close>

text \<open>
  The data of the application seen abstractly: the count of the semaphore, the contents of the
  queue, the next sample. The mutex is free between two calls, so a lock of it always succeeds.
\<close>

record store =
  units :: int
  samples :: "int list"
  next_sample :: int

definition store_of :: "demo_vars \<Rightarrow> store" where
  "store_of v = \<lparr>units = sem_count (data_ready v), samples = mq_contents (sensor_queue v), next_sample = sample v\<rparr>"

fun sensor_spec :: "machine \<times> store \<Rightarrow> machine \<times> store" where
  "sensor_spec (m, d) =
     (if length (samples d) = 10 then (nap 3 (block BLOCK_QUEUE_FULL m), d)
      else (nap 3 (release BLOCK_SEMAPHORE (say ''Sensor Task produced sample=%d'' [next_sample d] (release BLOCK_QUEUE_EMPTY m))),
        \<lparr>units = units d + 1, samples = samples d @ [next_sample d], next_sample = next_sample d + 5\<rparr>))"

fun logger_spec :: "machine \<times> store \<Rightarrow> machine \<times> store" where
  "logger_spec (m, d) =
     (if units d \<le> 0 then (block BLOCK_SEMAPHORE m, d)
      else (nap 2 (release BLOCK_MUTEX (say ''Logger Task stored sample=%d'' [hd (samples d)] (release BLOCK_QUEUE_FULL m))),
        d\<lparr>units := units d - 1, samples := tl (samples d)\<rparr>))"

fun display_spec :: "machine \<times> store \<Rightarrow> machine \<times> store" where
  "display_spec (m, d) = (nap 4 (release BLOCK_MUTEX (say ''Display Task refreshed'' [] m)), d)"

definition demo_spec :: "addr \<Rightarrow> machine \<times> store \<Rightarrow> machine \<times> store" where
  "demo_spec f = (if f = sensor_addr then sensor_spec else if f = logger_addr then logger_spec else display_spec)"

section \<open>The tasks keep the contract\<close>

text \<open>
  The data: the queue holds the latest samples, in steps of five; as many units are in the
  semaphore as samples in the queue; the mutex is free between two task calls; and there is room
  for \<open>n\<close> more samples in the range of \<open>int\<close>.
\<close>

definition consecutive :: "demo_vars \<Rightarrow> bool" where
  "consecutive v \<longleftrightarrow> (\<forall>k<length (mq_contents (sensor_queue v)).
     mq_contents (sensor_queue v) ! k = sample v - 5 * (mq_count (sensor_queue v) - int k))"

definition demo_data :: "nat \<Rightarrow> demo_vars \<Rightarrow> bool" where
  "demo_data n v \<longleftrightarrow> consecutive v \<and> mq_ok (sensor_queue v) \<and> sem_count (data_ready v) = mq_count (sensor_queue v) \<and>
     \<not> locked (uart_mutex v) \<and> 0 \<le> sample v \<and> sample v + 5 * int n \<le> INT_MAX"

definition demo_inv :: "nat \<Rightarrow> demo_state \<Rightarrow> bool" where
  "demo_inv n s \<longleftrightarrow> demo_data n (vars s) \<and>
     (\<forall>i<task_count s. task_function (tcb s i) \<in> {sensor_addr, logger_addr, display_addr}) \<and>
     (\<forall>j<8. \<not> in_use (g_soft_timers s ! j))"

lemma went_done:
  "demo_inv m s \<Longrightarrow> went s t \<Longrightarrow> demo_data n (vars t) \<Longrightarrow> api_steps s t \<and> demo_inv n t"
  by (simp add: demo_inv_def went_def)

lemma consecutive_send:
  assumes "consecutive v" and "mq_ok (sensor_queue v)"
    and "mq_contents q = mq_contents (sensor_queue v) @ [sample v]" and "mq_count q = mq_count (sensor_queue v) + 1"
  shows "consecutive (v\<lparr>sensor_queue := q, sample := sample v + 5, data_ready := sem\<rparr>)"
proof -
  let ?xs = "mq_contents (sensor_queue v)"
  have n: "mq_count (sensor_queue v) = int (length ?xs)" by (rule mq_count_length [OF assms(2)])
  have "(?xs @ [sample v]) ! k = sample v + 5 - 5 * (mq_count (sensor_queue v) + 1 - int k)"
    if "k < Suc (length ?xs)" for k
  proof (cases "k < length ?xs")
    case True
    with assms(1) have "?xs ! k = sample v - 5 * (mq_count (sensor_queue v) - int k)"
      unfolding consecutive_def by blast
    with True show ?thesis by (simp add: nth_append)
  next
    case False
    with that have k: "k = length ?xs" by simp
    show ?thesis unfolding k n nth_append_length by simp
  qed
  then show ?thesis by (simp add: consecutive_def assms(3,4))
qed

lemma consecutive_receive:
  assumes "consecutive v" and "mq_contents (sensor_queue v) = x # mq_contents q"
    and "mq_count q = mq_count (sensor_queue v) - 1"
  shows "consecutive (v\<lparr>sensor_queue := q, data_ready := sem, uart_mutex := m\<rparr>)"
proof -
  have "mq_contents q ! k = sample v - 5 * (mq_count q - int k)" if "k < length (mq_contents q)" for k
  proof -
    have "mq_contents q ! k = mq_contents (sensor_queue v) ! Suc k" using assms(2) by simp
    also have "\<dots> = sample v - 5 * (mq_count (sensor_queue v) - int (Suc k))"
      using assms(1) that unfolding consecutive_def assms(2)
      by (auto dest: spec [of _ "Suc k"])
    finally show ?thesis using assms(3) by simp
  qed
  then show ?thesis by (simp add: consecutive_def)
qed

lemma sensor_task_runs:
  assumes inv: "kernel_inv s" and dem: "demo_inv (Suc n) s" and cur: "rtos_current_task s = Some i"
  shows "returns (sensor_task s) (\<lambda>t. (api_steps s t \<and> demo_inv n t) \<and>
    (machine_of t, store_of (vars t)) = sensor_spec (machine_of s, store_of (vars s)))"
proof -
  let ?v = "vars s"
  have d: "mq_ok (sensor_queue ?v)" "sem_count (data_ready ?v) = mq_count (sensor_queue ?v)"
    "\<not> locked (uart_mutex ?v)" "0 \<le> sample ?v" "sample ?v + 5 + 5 * int n \<le> INT_MAX"
    using dem by (simp_all add: demo_inv_def demo_data_def)
  have con: "consecutive ?v" using dem by (simp add: demo_inv_def demo_data_def)
  obtain sent q s1 where c: "rtos_queue_send (sample ?v) (sensor_queue ?v) s = Inr (sent, q, s1)"
    and calm: "calm s s1" and q: "mq_ok q" "mq_count q = mq_count (sensor_queue ?v) + (if sent then 1 else 0)"
    and qc: "mq_contents q = mq_contents (sensor_queue ?v) @ (if sent then [sample ?v] else [])"
    and full: "sent \<longleftrightarrow> mq_count (sensor_queue ?v) \<noteq> 10"
    and m1: "machine_of s1 = (if sent then release BLOCK_QUEUE_EMPTY (machine_of s)
      else block BLOCK_QUEUE_FULL (machine_of s))"
    by (rule queue_send_calm [OF inv cur d(1)])
  let ?s2 = "assign (\<lambda>v. v\<lparr>sensor_queue := q\<rparr>) s1"
  have w2: "went s ?s2" by (intro went_own went_calm [OF went_refl [OF inv] calm])
  have v1: "vars s1 = ?v" by (rule calm_vars [OF calm])
  then have v2: "vars ?s2 = ?v\<lparr>sensor_queue := q\<rparr>" by simp
  have len: "sent \<longleftrightarrow> length (mq_contents (sensor_queue ?v)) \<noteq> 10"
    using full mq_count_length [OF d(1)] by linarith
  show ?thesis
  proof (cases sent)
    case False
    have "demo_data n (vars (rtos_task_sleep 3 ?s2))"
      using d q False v2 con qc by (simp add: demo_data_def consecutive_def)
    moreover have "went s (rtos_task_sleep 3 ?s2)" by (intro went_sleep w2) (simp_all add: int_range_defs)
    moreover have "sensor_task s = Inr (rtos_task_sleep 3 ?s2)"
      using False by (simp add: sensor_task_def c Let_def)
    moreover have "machine_of (rtos_task_sleep 3 ?s2) = nap 3 (block BLOCK_QUEUE_FULL (machine_of s))"
      using machine_of_sleep [OF w2, of 3] m1 False by (simp add: int_range_defs)
    moreover have "store_of (vars (rtos_task_sleep 3 ?s2)) = store_of ?v"
      using v2 qc False by (simp add: store_of_def)
    ultimately show ?thesis using went_done [OF dem] len False by (simp add: store_of_def)
  next
    case True
    let ?s4 = "assign (\<lambda>v. v\<lparr>sample := sample ?v + 5\<rparr>) (uart_log (App ''Sensor Task produced sample=%d'' [sample ?v]) ?s2)"
    have w4: "went s ?s4" by (intro went_own went_log w2)
    have v4: "vars ?s4 = ?v\<lparr>sensor_queue := q, sample := sample ?v + 5\<rparr>" using v2 by simp
    have "in_int (sem_count (data_ready ?v) + 1)"
      using d(1,2) by (simp add: mq_ok_def int_range_defs)
    then obtain sem s5 where c5: "rtos_sem_signal (data_ready ?v) ?s4 = Inr (sem, s5)"
      and calm5: "calm ?s4 s5" and sem: "sem_count sem = sem_count (data_ready ?v) + 1"
      and m5: "machine_of s5 = release BLOCK_SEMAPHORE (machine_of ?s4)"
      by (rule sem_signal_calm [OF went_inv(1) [OF w4]])
    let ?s6 = "assign (\<lambda>v. v\<lparr>data_ready := sem\<rparr>) s5"
    have "in_int (sample ?v + 5)" using d(4,5) by (simp add: int_range_defs)
    then have "sensor_task s = Inr (rtos_task_sleep 3 ?s6)"
      using True c c5 v1 by (simp add: sensor_task_def Let_def)
    moreover have w6: "went s ?s6" by (intro went_own went_calm [OF w4 calm5])
    then have "went s (rtos_task_sleep 3 ?s6)"
      by (intro went_sleep) (simp_all add: int_range_defs)
    moreover have "demo_data n (vars (rtos_task_sleep 3 ?s6))"
      using d q sem True calm_vars [OF calm5] v4 consecutive_send [OF con d(1), of q] qc
      by (simp add: demo_data_def)
    moreover have "machine_of (rtos_task_sleep 3 ?s6) = nap 3 (release BLOCK_SEMAPHORE
        (say ''Sensor Task produced sample=%d'' [sample ?v] (release BLOCK_QUEUE_EMPTY (machine_of s))))"
      using machine_of_sleep [OF w6, of 3] m5 m1 True by (simp add: int_range_defs)
    moreover have "store_of (vars (rtos_task_sleep 3 ?s6)) = \<lparr>units = units (store_of ?v) + 1,
        samples = samples (store_of ?v) @ [sample ?v], next_sample = sample ?v + 5\<rparr>"
      using calm_vars [OF calm5] v4 qc True sem by (simp add: store_of_def)
    ultimately show ?thesis using went_done [OF dem] len True by (simp add: store_of_def)
  qed
qed

lemma logger_task_runs:
  assumes inv: "kernel_inv s" and dem: "demo_inv (Suc n) s" and cur: "rtos_current_task s = Some i"
  shows "returns (logger_task s) (\<lambda>t. (api_steps s t \<and> demo_inv n t) \<and>
    (machine_of t, store_of (vars t)) = logger_spec (machine_of s, store_of (vars s)))"
proof -
  let ?v = "vars s"
  have d: "mq_ok (sensor_queue ?v)" "sem_count (data_ready ?v) = mq_count (sensor_queue ?v)"
    "\<not> locked (uart_mutex ?v)" "0 \<le> sample ?v" "sample ?v + 5 + 5 * int n \<le> INT_MAX" "consecutive ?v"
    using dem by (simp_all add: demo_inv_def demo_data_def)
  obtain ready sem s1 where c1: "rtos_sem_wait (data_ready ?v) s = Inr (ready, sem, s1)" and calm1: "calm s s1"
    and sem: "ready \<longleftrightarrow> sem_count (data_ready ?v) > 0"
      "sem_count sem = sem_count (data_ready ?v) - (if ready then 1 else 0)"
    and m1: "machine_of s1 = (if ready then machine_of s else block BLOCK_SEMAPHORE (machine_of s))"
    by (rule sem_wait_calm [OF inv cur])
  let ?s2 = "assign (\<lambda>v. v\<lparr>data_ready := sem\<rparr>) s1"
  have w2: "went s ?s2" by (intro went_own went_calm [OF went_refl [OF inv] calm1])
  have v1: "vars s1 = ?v" by (rule calm_vars [OF calm1])
  show ?thesis
  proof (cases ready)
    case False
    then have "logger_task s = Inr ?s2" by (simp add: logger_task_def c1 Let_def)
    moreover have "demo_data n (vars ?s2)" using d sem False v1 by (simp add: demo_data_def consecutive_def)
    moreover have "machine_of ?s2 = block BLOCK_SEMAPHORE (machine_of s)" using m1 False by simp
    moreover have "store_of (vars ?s2) = store_of ?v" using sem False v1 by (simp add: store_of_def)
    ultimately show ?thesis using went_done [OF dem w2] False sem(1) by (simp add: store_of_def)
  next
    case True
    have ne: "mq_count (sensor_queue ?v) \<noteq> 0" using True sem(1) d(2) by simp
    have cur2: "rtos_current_task ?s2 = Some i" using went_inv(2) [OF w2] cur by simp
    obtain x q s3 where c3: "rtos_queue_receive (sensor_queue ?v) ?s2 = Inr (True, Some x, q, s3)"
      and calm3: "calm ?s2 s3" and q: "mq_ok q" "mq_count q = mq_count (sensor_queue ?v) - 1"
        "mq_contents (sensor_queue ?v) = x # mq_contents q"
      and m3: "machine_of s3 = release BLOCK_QUEUE_FULL (machine_of ?s2)"
      by (rule queue_receive_calm [OF went_inv(1) [OF w2] cur2 d(1) ne])
    let ?s4 = "assign (\<lambda>v. v\<lparr>sensor_queue := q\<rparr>) s3"
    have w4: "went s ?s4" by (intro went_own went_calm [OF w2 calm3])
    have v3: "vars s3 = ?v\<lparr>data_ready := sem\<rparr>" using calm_vars [OF calm3] v1 by simp
    have cur4: "rtos_current_task ?s4 = Some i" using went_inv(2) [OF w4] cur by simp
    obtain m s5 where c5: "rtos_mutex_lock (uart_mutex ?v) ?s4 = Inr (True, m, s5)" and calm5: "calm ?s4 s5"
      and m: "locked m" "owner m = task_id (tcb s5 i)" and m5: "machine_of s5 = machine_of ?s4"
      by (rule mutex_free_calm [OF went_inv(1) [OF w4] cur4 d(3)])
    let ?s7 = "uart_log (App ''Logger Task stored sample=%d'' [x]) (assign (\<lambda>v. v\<lparr>uart_mutex := m\<rparr>) s5)"
    have w7: "went s ?s7" by (intro went_log went_own went_calm [OF w4 calm5])
    have v5: "vars s5 = ?v\<lparr>data_ready := sem, sensor_queue := q\<rparr>" using calm_vars [OF calm5] v3 by simp
    have cur7: "rtos_current_task ?s7 = Some i" using went_inv(2) [OF w7] cur by simp
    obtain m' s8 where c8: "rtos_mutex_unlock m ?s7 = Inr (m', s8)" and calm8: "calm ?s7 s8" and m': "\<not> locked m'"
      and m8: "machine_of s8 = release BLOCK_MUTEX (machine_of ?s7)"
      by (rule mutex_unlock_calm [OF went_inv(1) [OF w7] cur7 m(1)]) (simp_all add: m(2) del: machine_of_fields)
    let ?s9 = "rtos_task_sleep 2 (assign (\<lambda>v. v\<lparr>uart_mutex := m'\<rparr>) s8)"
    have w8: "went s (assign (\<lambda>v. v\<lparr>uart_mutex := m'\<rparr>) s8)"
      by (intro went_own went_calm [OF w7 calm8])
    then have w9: "went s ?s9" by (intro went_sleep) (simp_all add: int_range_defs)
    have v9: "vars ?s9 = ?v\<lparr>sensor_queue := q, data_ready := sem, uart_mutex := m'\<rparr>"
      using calm_vars [OF calm8] v5 by simp
    have "demo_data n (vars ?s9)"
      unfolding v9 using d sem True q m' consecutive_receive [OF d(6) q(3,2)] by (simp add: demo_data_def)
    moreover have "logger_task s = Inr ?s9"
      using True c1 c3 c5 c8 v1 v3 v5 by (simp add: logger_task_def Let_def)
    moreover have "machine_of ?s9 = nap 2 (release BLOCK_MUTEX
        (say ''Logger Task stored sample=%d'' [x] (release BLOCK_QUEUE_FULL (machine_of s))))"
      using machine_of_sleep [OF w8, of 2] m8 m5 m3 m1 True by (simp add: int_range_defs)
    moreover have "store_of (vars ?s9) = (store_of ?v)\<lparr>units := units (store_of ?v) - 1,
        samples := tl (samples (store_of ?v))\<rparr>"
      unfolding v9 using q(3) sem True by (simp add: store_of_def)
    ultimately show ?thesis
      using went_done [OF dem w9] True sem(1) q(3) by (simp add: store_of_def)
  qed
qed

lemma display_task_runs:
  assumes inv: "kernel_inv s" and dem: "demo_inv (Suc n) s" and cur: "rtos_current_task s = Some i"
  shows "returns (display_task s) (\<lambda>t. (api_steps s t \<and> demo_inv n t) \<and>
    (machine_of t, store_of (vars t)) = display_spec (machine_of s, store_of (vars s)))"
proof -
  let ?v = "vars s"
  have d: "demo_data (Suc n) ?v" "\<not> locked (uart_mutex ?v)"
    using dem by (simp_all add: demo_inv_def demo_data_def)
  obtain m s1 where c1: "rtos_mutex_lock (uart_mutex ?v) s = Inr (True, m, s1)" and calm1: "calm s s1"
    and m: "locked m" "owner m = task_id (tcb s1 i)" and m1: "machine_of s1 = machine_of s"
    by (rule mutex_free_calm [OF inv cur d(2)])
  let ?s3 = "uart_log (App ''Display Task refreshed'' []) (assign (\<lambda>v. v\<lparr>uart_mutex := m\<rparr>) s1)"
  have w3: "went s ?s3" by (intro went_log went_own went_calm [OF went_refl [OF inv] calm1])
  have cur3: "rtos_current_task ?s3 = Some i" using went_inv(2) [OF w3] cur by simp
  obtain m' s4 where c4: "rtos_mutex_unlock m ?s3 = Inr (m', s4)" and calm4: "calm ?s3 s4" and m': "\<not> locked m'"
    and m4: "machine_of s4 = release BLOCK_MUTEX (machine_of ?s3)"
    by (rule mutex_unlock_calm [OF went_inv(1) [OF w3] cur3 m(1)]) (simp_all add: m(2) del: machine_of_fields)
  let ?s5 = "rtos_task_sleep 4 (assign (\<lambda>v. v\<lparr>uart_mutex := m'\<rparr>) s4)"
  have w4: "went s (assign (\<lambda>v. v\<lparr>uart_mutex := m'\<rparr>) s4)"
    by (intro went_own went_calm [OF w3 calm4])
  then have w5: "went s ?s5" by (intro went_sleep) (simp_all add: int_range_defs)
  have v5: "vars ?s5 = ?v\<lparr>uart_mutex := m'\<rparr>"
    using calm_vars [OF calm4] calm_vars [OF calm1] by simp
  have "demo_data n (vars ?s5)"
    unfolding v5 using d m' by (simp add: demo_data_def consecutive_def)
  moreover have "display_task s = Inr ?s5"
    using c1 c4 by (simp add: display_task_def Let_def)
  moreover have "machine_of ?s5 = nap 4 (release BLOCK_MUTEX (say ''Display Task refreshed'' [] (machine_of s)))"
    using machine_of_sleep [OF w4, of 4] m4 m1 by (simp add: int_range_defs)
  moreover have "store_of (vars ?s5) = store_of ?v" unfolding v5 by (simp add: store_of_def)
  ultimately show ?thesis using went_done [OF dem w5] by simp
qed

section \<open>The demo is an application\<close>

lemma demo_addrs [simp]: "sensor_addr \<noteq> 0" "logger_addr \<noteq> 0" "display_addr \<noteq> 0"
    "sensor_addr \<noteq> logger_addr" "sensor_addr \<noteq> display_addr" "logger_addr \<noteq> display_addr"
    "logger_addr \<noteq> sensor_addr" "display_addr \<noteq> sensor_addr" "display_addr \<noteq> logger_addr"
  by (simp_all add: sensor_addr_def logger_addr_def display_addr_def)

lemma demo_task_runs:
  assumes "kernel_inv s" and dem: "demo_inv (Suc n) s" and cur: "rtos_current_task s = Some i"
  shows "returns (app_task demo_app (task_function (tcb s i)) s) (\<lambda>t. (api_steps s t \<and> demo_inv n t) \<and>
    (machine_of t, store_of (vars t)) = demo_spec (task_function (tcb s i)) (machine_of s, store_of (vars s)))"
proof -
  have f: "app_task demo_app sensor_addr = sensor_task" "app_task demo_app logger_addr = logger_task"
    "app_task demo_app display_addr = display_task" "demo_spec sensor_addr = sensor_spec"
    "demo_spec logger_addr = logger_spec" "demo_spec display_addr = display_spec"
    by (simp_all add: demo_app_def demo_spec_def)
  have "task_function (tcb s i) \<in> {sensor_addr, logger_addr, display_addr}"
    using dem cur by (simp add: demo_inv_def rtos_current_task_Some)
  then consider "task_function (tcb s i) = sensor_addr" | "task_function (tcb s i) = logger_addr"
    | "task_function (tcb s i) = display_addr" by blast
  then show ?thesis
  proof cases
    case 1
    show ?thesis unfolding 1 f by (rule sensor_task_runs [OF assms])
  next
    case 2
    show ?thesis unfolding 2 f by (rule logger_task_runs [OF assms])
  next
    case 3
    show ?thesis unfolding 3 f by (rule display_task_runs [OF assms])
  qed
qed

interpretation demo: application demo_app demo_inv
proof (unfold_locales, goal_cases)
  case (1 n s)
  then show ?case by (auto simp: demo_inv_def demo_data_def)
next
  case (2 n s t)
  then show ?case by (auto simp: demo_inv_def same_app_def same_timer_def)
next
  case (3 s n i)
  show ?case by (rule returns_mono [OF demo_task_runs [OF 3(1-3)]]) (rule conjunct1)
next
  case (4 s n j)
  then show ?case by (simp add: demo_inv_def)
qed

text \<open>The demo arms no timer, so any specification of callbacks will do.\<close>

interpretation demo_machine: specified demo_app demo_inv store_of demo_spec "\<lambda>_ _ md. md"
proof (unfold_locales, goal_cases)
  case (1 s n i s')
  from demo_task_runs [OF 1(1-3)] show ?case unfolding 1(5) by simp
next
  case (2 s n j s')
  then show ?case by (simp add: demo_inv_def)
qed

section \<open>The start of the program\<close>

text \<open>What holds while \<open>main\<close> creates its tasks, from the initialised kernel on.\<close>

definition setting_up :: "nat \<Rightarrow> demo_state \<Rightarrow> bool" where
  "setting_up n s \<longleftrightarrow> kernel_inv s \<and> no_running s \<and> demo_inv n s \<and> timer_now s = 0"

lemma setting_up_create:
  assumes "setting_up n s" and f: "f \<in> {sensor_addr, logger_addr, display_addr}"
  shows "setting_up n (snd (rtos_create_task nm prio f s))"
proof -
  have s: "kernel_inv s" "no_running s" "demo_inv n s" "g_kernel_tick s = 0"
    using assms(1) by (simp_all add: setting_up_def timer_now_def)
  have nz: "f \<noteq> 0" using f by auto
  let ?t = "snd (rtos_create_task nm prio f s)"
  have ok: "api_ok s ?t" by (rule rtos_create_task_ok [OF s(1) nz])
  have "demo_inv n ?t"
    using s(3) create_keeps [OF s(1) nz _ f, of nm prio] create_more [of nm prio f s] by (simp add: demo_inv_def)
  then show ?thesis
    using ok s no_running_api [OF ok] by (simp add: setting_up_def api_ok_def kframe_def timer_now_def)
qed

lemma main_setup_ready:
  assumes shape: "statics_shape s" and buf: "length (buffer (sensor_queue (vars s))) = 10"
    and smp: "0 \<le> sample (vars s)" "sample (vars s) + 5 * int n \<le> INT_MAX"
  shows "setting_up n (main_setup s)"
proof -
  let ?s4 = "assign (\<lambda>v. v\<lparr>data_ready := semaphore_init 0 (data_ready v), uart_mutex := mutex_init (uart_mutex v),
    sensor_queue := queue_init (sensor_queue v)\<rparr>) (rtos_init s)"
  have "demo_data n (vars ?s4)"
    using buf smp by (simp add: rtos_init_more demo_data_def consecutive_def semaphore_init_def mutex_init_def
        queue_init_def mq_ok_def mq_contents_def)
  then have "setting_up n ?s4"
    using rtos_init_start [OF shape] kernel_inv_own [OF rtos_init_inv [OF shape]]
    by (simp add: setting_up_def demo_inv_def no_running_def timer_now_def)
  then have "setting_up n (snd (rtos_create_task ''Display Task'' 1 display_addr
      (snd (rtos_create_task ''Logger Task'' 2 logger_addr
        (snd (rtos_create_task ''Sensor Task'' 3 sensor_addr ?s4))))))"
    by (intro setting_up_create) simp_all
  then show ?thesis by (simp add: main_setup_def Let_def comp_def)
qed

section \<open>The machine the program starts from\<close>

definition demo_start :: "machine \<times> store" where
  "demo_start = (\<lparr>jobs = [new_job sensor_addr 3, new_job logger_addr 2, new_job display_addr 1],
     ready_line = [0, 1, 2], current = None, clock = 0, printed = [], alarms = replicate 8 None\<rparr>,
     \<lparr>units = 0, samples = [], next_sample = 100\<rparr>)"

lemma setting_up_boot: "0 < base \<Longrightarrow> n \<le> 1000000 \<Longrightarrow> setting_up n (main_setup (demo_boot base))"
  by (intro main_setup_ready) (simp_all add: demo_boot_def statics_shape_boot, simp_all add: boot_def INT_MAX_def)

lemma main_setup_start:
  assumes "0 < base"
  shows "(machine_of (main_setup (demo_boot base)), store_of (vars (main_setup (demo_boot base)))) = demo_start"
proof -
  let ?g = "\<lambda>v. v\<lparr>data_ready := semaphore_init 0 (data_ready v), uart_mutex := mutex_init (uart_mutex v),
    sensor_queue := queue_init (sensor_queue v)\<rparr>"
  define s0 where "s0 = assign ?g (rtos_init (demo_boot base))"
  define s1 where "s1 = snd (rtos_create_task ''Sensor Task'' 3 sensor_addr s0)"
  define s2 where "s2 = snd (rtos_create_task ''Logger Task'' 2 logger_addr s1)"
  define s3 where "s3 = snd (rtos_create_task ''Display Task'' 1 display_addr s2)"
  have shape: "statics_shape (demo_boot base)" using assms by (simp add: demo_boot_def statics_shape_boot)
  have k0: "kernel_inv s0" unfolding s0_def by (intro kernel_inv_own rtos_init_inv shape)
  have k1: "kernel_inv s1" using rtos_create_task_ok [OF k0] by (simp add: s1_def api_ok_def)
  have k2: "kernel_inv s2" using rtos_create_task_ok [OF k1] by (simp add: s2_def api_ok_def)
  have "app_lines (demo_boot base) = []" by (simp add: demo_boot_def boot_def app_lines_def map_filter_simps)
  then have m0: "machine_of s0 = \<lparr>jobs = [], ready_line = [], current = None, clock = 0, printed = [], alarms = replicate 8 None\<rparr>"
    by (simp add: s0_def machine_init del: machine_of_fields)
  then have m1: "machine_of s1 = \<lparr>jobs = [new_job sensor_addr 3], ready_line = [0], current = None, clock = 0, printed = [], alarms = replicate 8 None\<rparr>"
    using machine_create [OF k0, of sensor_addr] by (simp add: spawn_def s1_def del: machine_of_fields)
  then have m2: "machine_of s2 = \<lparr>jobs = [new_job sensor_addr 3, new_job logger_addr 2], ready_line = [0, 1],
      current = None, clock = 0, printed = [], alarms = replicate 8 None\<rparr>"
    using machine_create [OF k1, of logger_addr] by (simp add: spawn_def s2_def del: machine_of_fields)
  then have m3: "machine_of s3 = fst demo_start"
    using machine_create [OF k2, of display_addr] by (simp add: spawn_def s3_def demo_start_def del: machine_of_fields)
  have ms: "main_setup (demo_boot base) = s3"
    by (simp add: main_setup_def Let_def s3_def s2_def s1_def s0_def comp_def)
  have "vars s3 = ?g (vars (demo_boot base))"
    by (simp add: s3_def s2_def s1_def s0_def create_more rtos_init_more)
  then have "store_of (vars s3) = snd demo_start"
    by (simp add: store_of_def demo_start_def demo_boot_def boot_def semaphore_init_def queue_init_def mq_contents_def)
  with m3 show ?thesis unfolding ms by (simp del: machine_of_fields)
qed

lemmas run_demo = run_spec demo_spec_def

section \<open>Properties\<close>

text \<open>
  C18: \<open>main\<close>, from any start of the program, returns 0 without a fault, and afterwards: the clock
  stands at 25, the kernel invariant holds and no task is RUNNING; the semaphore counts exactly
  the samples waiting in the queue; these are consecutive samples, the newest five below the next
  one; and the mutex is free.
\<close>

theorem main_runs_safely:
  assumes "0 < base"
  shows "returns (main (demo_boot base)) (\<lambda>(code, s'). code = 0 \<and> timer_now s' = 25 \<and> kernel_inv s' \<and>
    no_running s' \<and> sem_count (data_ready (vars s')) = mq_count (sensor_queue (vars s')) \<and>
    (\<forall>k<length (mq_contents (sensor_queue (vars s'))). mq_contents (sensor_queue (vars s')) ! k =
       sample (vars s') - 5 * (mq_count (sensor_queue (vars s')) - int k)) \<and>
    \<not> locked (uart_mutex (vars s')))"
proof -
  let ?s = "demo_boot base"
  have "setting_up (9 * nat 25) (main_setup ?s)" using assms by (rule setting_up_boot) simp
  then have "demo.quiet 0 (9 * nat 25 + 0) (main_setup ?s)"
    by (simp add: setting_up_def demo.quiet_def timer_now_def)
  from demo.run_quiet [OF this]
  show ?thesis
    unfolding main_def rtos_run_def
    by (elim returns_bindrI)
      (auto simp: demo.quiet_def demo_inv_def demo_data_def consecutive_def timer_now_def)
qed

theorem main_runs_safely_witness:
  "returns (main (demo_boot 4096)) (\<lambda>(code, s'). code = 0 \<and> timer_now s' = 25)"
  by (rule returns_mono [OF main_runs_safely [of 4096]]) auto

theorem scheduler_run_safe_witness:
  "returns (scheduler_run demo_app 1000 (main_setup (demo_boot 4096)))
     (\<lambda>s'. kernel_inv s' \<and> timer_now s' = 1000)"
proof -
  have "setting_up (9 * nat 1000) (main_setup (demo_boot 4096))" by (rule setting_up_boot) simp_all
  then have s: "kernel_inv (main_setup (demo_boot 4096))" "no_running (main_setup (demo_boot 4096))"
    "demo_inv (9 * nat 1000) (main_setup (demo_boot 4096))" "timer_now (main_setup (demo_boot 4096)) = 0"
    by (simp_all add: setting_up_def)
  show ?thesis
    by (rule returns_mono [OF scheduler_run_safe [OF demo.application_axioms s(1-3)]]) (simp add: s(4))
qed

theorem any_application_refines_witness:
  "returns (scheduler_run demo_app 25 (main_setup (demo_boot 4096)))
     (\<lambda>s'. suffix (app_lines (main_setup (demo_boot 4096))) (app_lines s'))"
proof -
  have s: "kernel_inv (main_setup (demo_boot 4096))" "no_running (main_setup (demo_boot 4096))"
    "demo_inv (9 * nat 25) (main_setup (demo_boot 4096))"
    using setting_up_boot [of 4096 "9 * nat 25"] by (simp_all add: setting_up_def)
  show ?thesis
    by (rule returns_mono [OF any_application_refines [OF demo.application_axioms s]]) blast
qed

theorem scheduler_refines_spec_witness:
  "returns (scheduler_run demo_app 25 (main_setup (demo_boot 4096)))
     (\<lambda>s'. (machine_of s', store_of (vars s')) = (spec_cycle demo_spec (\<lambda>_ _ md. md) ^^ 25) demo_start)"
proof -
  have s: "kernel_inv (main_setup (demo_boot 4096))" "no_running (main_setup (demo_boot 4096))"
    "demo_inv (9 * nat 25) (main_setup (demo_boot 4096))"
    using setting_up_boot [of 4096 "9 * nat 25"] by (simp_all add: setting_up_def)
  have start: "(machine_of (main_setup (demo_boot 4096)), store_of (vars (main_setup (demo_boot 4096)))) = demo_start"
    by (rule main_setup_start) simp
  show ?thesis
    using scheduler_refines_spec [OF demo_machine.specified_axioms s] unfolding start by simp
qed

end
