(* ===== verification/Demo_Schedule.thy ===== *)
theory Demo_Schedule
  imports Demo
begin

text \<open>
  The demo run for any length of time: after the first six ticks the machine goes round a cycle
  of six states, one per tick, so that what it prints at each tick is known in closed form. The
  text \<open>main\<close> prints in its 25 ticks is an instance.
\<close>

section \<open>The six phases\<close>

definition asleep :: "addr \<Rightarrow> int \<Rightarrow> int \<Rightarrow> 32 word \<Rightarrow> job" where
  "asleep f prio n k = \<lparr>j_function = f, j_priority = prio, j_state = TASK_BLOCKED,
     j_reason = BLOCK_SLEEP, j_sleep = n, j_slice = k\<rparr>"

definition awake :: "addr \<Rightarrow> int \<Rightarrow> 32 word \<Rightarrow> job" where
  "awake f prio k = \<lparr>j_function = f, j_priority = prio, j_state = TASK_READY,
     j_reason = BLOCK_NONE, j_sleep = 0, j_slice = k\<rparr>"

text \<open>The machine at a tick, by the phase of the tick, with the clock, the output and the next sample.\<close>

fun phase :: "nat \<Rightarrow> 32 word \<Rightarrow> (int \<times> int \<times> string \<times> int list) list \<Rightarrow> int \<Rightarrow> machine \<times> store" where
  "phase r c out n =
     (\<lparr>jobs = [[asleep sensor_addr 3 1 1, asleep logger_addr 2 1 0, asleep display_addr 1 1 1],
               [asleep sensor_addr 3 3 1, awake logger_addr 2 0, awake display_addr 1 1],
               [asleep sensor_addr 3 2 1, asleep logger_addr 2 2 1, awake display_addr 1 1],
               [asleep sensor_addr 3 1 1, asleep logger_addr 2 1 1, asleep display_addr 1 4 1],
               [asleep sensor_addr 3 3 1, awake logger_addr 2 1, asleep display_addr 1 3 1],
               [asleep sensor_addr 3 2 1, asleep logger_addr 2 2 1, asleep display_addr 1 2 1]] ! r,
        ready_line = [[], [1, 2], [2], [], [1], []] ! r, current = Some ([1, 0, 1, 2, 0, 1] ! r),
        clock = c, printed = out, alarms = replicate 8 None\<rparr>,
      \<lparr>units = (if r mod 3 = 1 then 1 else 0), samples = (if r mod 3 = 1 then [n - 5] else []),
        next_sample = n\<rparr>)"

definition entry :: "32 word \<Rightarrow> string \<Rightarrow> int list \<Rightarrow> int \<times> int \<times> string \<times> int list" where
  "entry c f xs = (to_int (uint (c div 60)), to_int (uint (c mod 60)), f, xs)"

abbreviation demo_cycle :: "machine \<times> store \<Rightarrow> machine \<times> store" where
  "demo_cycle \<equiv> spec_cycle demo_spec (\<lambda>_ _ md. md)"

lemmas run_phase = run_demo asleep_def awake_def entry_def

lemma phase_step:
  "demo_cycle (phase 0 c out n) = phase 1 (c + 1) (entry (c + 1) ''Sensor Task produced sample=%d'' [n] # out) (n + 5)"
  "demo_cycle (phase 1 c out n) = phase 2 (c + 1) (entry (c + 1) ''Logger Task stored sample=%d'' [n - 5] # out) n"
  "demo_cycle (phase 2 c out n) = phase 3 (c + 1) (entry (c + 1) ''Display Task refreshed'' [] # out) n"
  "demo_cycle (phase 3 c out n) = phase 4 (c + 1) (entry (c + 1) ''Sensor Task produced sample=%d'' [n] # out) (n + 5)"
  "demo_cycle (phase 4 c out n) = phase 5 (c + 1) (entry (c + 1) ''Logger Task stored sample=%d'' [n - 5] # out) n"
  "demo_cycle (phase 5 c out n) = phase 0 (c + 1) out n"
  by (simp_all add: run_phase)

lemma demo_cycle_6:
  "(demo_cycle ^^ 6) demo_start = phase 0 6
     [(0, 5, ''Logger Task stored sample=%d'', [105]), (0, 4, ''Sensor Task produced sample=%d'', [105]),
      (0, 3, ''Display Task refreshed'', []), (0, 2, ''Logger Task stored sample=%d'', [100]),
      (0, 1, ''Sensor Task produced sample=%d'', [100])] 110"
  by (simp add: run_phase demo_start_def new_job_def)

section \<open>The schedule in closed form\<close>

text \<open>What is printed at tick \<open>t\<close>.\<close>

definition lines_at :: "nat \<Rightarrow> (int \<times> int \<times> string \<times> int list) list" where
  "lines_at t =
     (let e = (\<lambda>f xs. (int (t div 60), int (t mod 60), f, xs)) in
      if t mod 3 = 1 then [e ''Sensor Task produced sample=%d'' [100 + 5 * int (t div 3)]]
      else if t mod 3 = 2 then [e ''Logger Task stored sample=%d'' [100 + 5 * int (t div 3)]]
      else if t mod 6 = 3 then [e ''Display Task refreshed'' []] else [])"

definition demo_log :: "nat \<Rightarrow> (int \<times> int \<times> string \<times> int list) list" where
  "demo_log n = concat (map lines_at [1..<Suc n])"

lemma demo_log_Suc: "demo_log (Suc n) = demo_log n @ lines_at (Suc n)"
  by (simp add: demo_log_def)

lemma entry_stamp:
  assumes "t < 2 ^ 31"
  shows "entry (of_nat t) f xs = (int (t div 60), int (t mod 60), f, xs)"
proof -
  have "uint (of_nat t :: 32 word) = int t" using assms by (simp add: unsigned_of_nat take_bit_nat_eq_self)
  then show ?thesis by (simp add: entry_def clock_parts zdiv_int zmod_int)
qed

text \<open>The state in closed form, before the first cycle of phases is over left aside.\<close>

definition scheduled :: "nat \<Rightarrow> machine \<times> store" where
  "scheduled t = phase (t mod 6) (of_nat t) (rev (demo_log t)) (100 + 5 * int ((t + 2) div 3))"

lemma six_parts: "(6 * q + r) mod 6 = r mod 6" "(6 * q + r) mod 3 = r mod 3"
  "(6 * q + r) div 3 = 2 * q + r div (3::nat)"
proof -
  have e: "6 * q + r = r + 3 * (2 * q)" by simp
  show "(6 * q + r) mod 6 = r mod 6" by simp
  show "(6 * q + r) mod 3 = r mod 3" unfolding e by (rule mod_mult_self2)
  show "(6 * q + r) div 3 = 2 * q + r div 3" unfolding e by (subst div_mult_self2) simp_all
qed

lemma scheduled_cases:
  "t mod 6 = 0 \<and> Suc t mod 6 = 1 \<and> Suc t mod 3 = 1 \<and> Suc t div 3 = (t + 2) div 3 \<and> (Suc t + 2) div 3 = Suc ((t + 2) div 3) \<or>
   t mod 6 = 1 \<and> Suc t mod 6 = 2 \<and> Suc t mod 3 = 2 \<and> (t + 2) div 3 = Suc (Suc t div 3) \<and> (Suc t + 2) div 3 = (t + 2) div 3 \<or>
   t mod 6 = 2 \<and> Suc t mod 6 = 3 \<and> Suc t mod 3 = 0 \<and> (Suc t + 2) div 3 = (t + 2) div 3 \<or>
   t mod 6 = 3 \<and> Suc t mod 6 = 4 \<and> Suc t mod 3 = 1 \<and> Suc t div 3 = (t + 2) div 3 \<and> (Suc t + 2) div 3 = Suc ((t + 2) div 3) \<or>
   t mod 6 = 4 \<and> Suc t mod 6 = 5 \<and> Suc t mod 3 = 2 \<and> (t + 2) div 3 = Suc (Suc t div 3) \<and> (Suc t + 2) div 3 = (t + 2) div 3 \<or>
   t mod 6 = 5 \<and> Suc t mod 6 = 0 \<and> Suc t mod 3 = 0 \<and> (Suc t + 2) div 3 = (t + 2) div 3"
proof -
  let ?q = "t div 6" and ?r = "t mod 6"
  have t: "t = 6 * ?q + ?r" by simp
  have s: "Suc t = 6 * ?q + (?r + 1)" "t + 2 = 6 * ?q + (?r + 2)" "Suc t + 2 = 6 * ?q + (?r + 3)" by simp_all
  have "?r = 0 \<or> ?r = 1 \<or> ?r = 2 \<or> ?r = 3 \<or> ?r = 4 \<or> ?r = 5"
    using mod_less_divisor [of 6 t] by linarith
  then show ?thesis
    unfolding s six_parts by (elim disjE) simp_all
qed

lemma scheduled_Suc:
  assumes "Suc t < 2 ^ 31"
  shows "demo_cycle (scheduled t) = scheduled (Suc t)"
proof -
  have e: "entry (of_nat t + 1) f xs = (int (Suc t div 60), int (Suc t mod 60), f, xs)" for f xs
    using entry_stamp [OF assms, of f xs] by (simp add: add.commute)
  have w: "of_nat (Suc t) = (of_nat t + 1 :: 32 word)" by simp
  let ?m = "(t + 2) div 3"
  obtain m where m: "m = ?m" by blast
  show ?thesis
    using scheduled_cases [of t]
    unfolding scheduled_def w demo_log_Suc lines_at_def Let_def m [symmetric]
    by (elim disjE conjE) (simp_all only: phase_step, simp_all add: e del: phase.simps)
qed

lemma demo_state_at:
  assumes "6 \<le> t" and "t < 2 ^ 31"
  shows "(demo_cycle ^^ t) demo_start = scheduled t"
  using assms
proof (induction t rule: dec_induct)
  case base
  show ?case
    unfolding demo_cycle_6 scheduled_def by (simp add: demo_log_def lines_at_def upt_conv_Cons)
next
  case (step t)
  then show ?case using scheduled_Suc [of t] by simp
qed

lemma demo_outputs:
  assumes "t < 2 ^ 31"
  shows "rev (printed (fst ((demo_cycle ^^ t) demo_start))) = demo_log t"
    and "snd ((demo_cycle ^^ t) demo_start) = \<lparr>units = (if t mod 3 = 1 then 1 else 0),
      samples = (if t mod 3 = 1 then [100 + 5 * int (t div 3)] else []),
      next_sample = 100 + 5 * int ((t + 2) div 3)\<rparr>"
proof -
  have "rev (printed (fst ((demo_cycle ^^ t) demo_start))) = demo_log t \<and>
    snd ((demo_cycle ^^ t) demo_start) = \<lparr>units = (if t mod 3 = 1 then 1 else 0),
      samples = (if t mod 3 = 1 then [100 + 5 * int (t div 3)] else []),
      next_sample = 100 + 5 * int ((t + 2) div 3)\<rparr>"
  proof (cases "6 \<le> t")
    case True
    have r: "t mod 6 mod 3 = t mod 3" by (simp add: mod_mod_cancel)
    have "(t + 2) div 3 = Suc (t div 3)" if "t mod 3 = 1" using that by presburger
    then show ?thesis
      unfolding demo_state_at [OF True assms] scheduled_def phase.simps r by auto
  next
    case False
    then consider "t = 0" | "t = 1" | "t = 2" | "t = 3" | "t = 4" | "t = 5" by linarith
    then show ?thesis
      by cases (simp_all add: run_phase demo_start_def new_job_def demo_log_def lines_at_def upt_conv_Cons)
  qed
  then show "rev (printed (fst ((demo_cycle ^^ t) demo_start))) = demo_log t"
    and "snd ((demo_cycle ^^ t) demo_start) = \<lparr>units = (if t mod 3 = 1 then 1 else 0),
      samples = (if t mod 3 = 1 then [100 + 5 * int (t div 3)] else []),
      next_sample = 100 + 5 * int ((t + 2) div 3)\<rparr>"
    by blast+
qed

section \<open>The 25 ticks of \<open>main\<close>\<close>

definition demo_end :: "machine \<times> store" where
  "demo_end = (demo_cycle ^^ 25) demo_start"

text \<open>A line of the application as an entry of the output.\<close>

fun app_entry :: "int \<times> int \<times> string \<times> int list \<Rightarrow> int \<times> int \<times> logmsg" where
  "app_entry (mm, ss, f, xs) = (mm, ss, App f xs)"

lemma demo_log_25:
  "demo_log 25 =
    [(0, 1, ''Sensor Task produced sample=%d'', [100]), (0, 2, ''Logger Task stored sample=%d'', [100]),
     (0, 3, ''Display Task refreshed'', []),
     (0, 4, ''Sensor Task produced sample=%d'', [105]), (0, 5, ''Logger Task stored sample=%d'', [105]),
     (0, 7, ''Sensor Task produced sample=%d'', [110]), (0, 8, ''Logger Task stored sample=%d'', [110]),
     (0, 9, ''Display Task refreshed'', []),
     (0, 10, ''Sensor Task produced sample=%d'', [115]), (0, 11, ''Logger Task stored sample=%d'', [115]),
     (0, 13, ''Sensor Task produced sample=%d'', [120]), (0, 14, ''Logger Task stored sample=%d'', [120]),
     (0, 15, ''Display Task refreshed'', []),
     (0, 16, ''Sensor Task produced sample=%d'', [125]), (0, 17, ''Logger Task stored sample=%d'', [125]),
     (0, 19, ''Sensor Task produced sample=%d'', [130]), (0, 20, ''Logger Task stored sample=%d'', [130]),
     (0, 21, ''Display Task refreshed'', []),
     (0, 22, ''Sensor Task produced sample=%d'', [135]), (0, 23, ''Logger Task stored sample=%d'', [135]),
     (0, 25, ''Sensor Task produced sample=%d'', [140])]"
  by (simp add: demo_log_def lines_at_def upt_conv_Cons)

lemma demo_end:
  "rev (printed (fst demo_end)) = demo_log 25"
  "map j_state (jobs (fst demo_end)) = [TASK_BLOCKED, TASK_READY, TASK_READY]"
  "snd demo_end = \<lparr>units = 1, samples = [140], next_sample = 145\<rparr>"
proof -
  have e: "demo_end = scheduled 25" unfolding demo_end_def by (rule demo_state_at) simp_all
  show "rev (printed (fst demo_end)) = demo_log 25" "map j_state (jobs (fst demo_end)) = [TASK_BLOCKED, TASK_READY, TASK_READY]"
    "snd demo_end = \<lparr>units = 1, samples = [140], next_sample = 145\<rparr>"
    unfolding e by (simp_all add: scheduled_def asleep_def awake_def)
qed

text \<open>The same lines as text.\<close>

definition demo_text :: "string list" where
  "demo_text =
    [''[00:01] Sensor Task produced sample=100'', ''[00:02] Logger Task stored sample=100'',
     ''[00:03] Display Task refreshed'',
     ''[00:04] Sensor Task produced sample=105'', ''[00:05] Logger Task stored sample=105'',
     ''[00:07] Sensor Task produced sample=110'', ''[00:08] Logger Task stored sample=110'',
     ''[00:09] Display Task refreshed'',
     ''[00:10] Sensor Task produced sample=115'', ''[00:11] Logger Task stored sample=115'',
     ''[00:13] Sensor Task produced sample=120'', ''[00:14] Logger Task stored sample=120'',
     ''[00:15] Display Task refreshed'',
     ''[00:16] Sensor Task produced sample=125'', ''[00:17] Logger Task stored sample=125'',
     ''[00:19] Sensor Task produced sample=130'', ''[00:20] Logger Task stored sample=130'',
     ''[00:21] Display Task refreshed'',
     ''[00:22] Sensor Task produced sample=135'', ''[00:23] Logger Task stored sample=135'',
     ''[00:25] Sensor Task produced sample=140'']"

lemma demo_lines:
  "map (uart_line ptr \<circ> app_entry) (rev (printed (fst demo_end))) = map (\<lambda>l. Some (l @ [CHR 0x0A])) demo_text"
  unfolding demo_end(1) demo_log_25 demo_text_def list.map comp_def app_entry.simps uart_line.simps
  by (intro arg_cong2 [where f = Cons] refl) (simp_all add: vprintf_def show_int_def pad_def digits.simps digit_def)

section \<open>Properties\<close>

text \<open>
  C15: The demo for any number of ticks up to about 47.7 million (\<open>100 + 45 * ticks \<le> INT_MAX\<close>; the contract
  counts nine calls of application code per tick, each of which might add 5 to \<open>sample\<close>): the run returns without a
  fault, and what it has printed is exactly \<open>demo_log\<close>. The sensor produces a sample at every tick
  \<open>3 k + 1\<close>, the logger stores that same sample at the next tick, the display is refreshed at every
  tick \<open>6 k + 3\<close>: no sample is lost, delayed or stored twice. The queue never holds more than one
  sample, which is there only at the ticks \<open>3 k + 1\<close>.
\<close>

theorem demo_schedule:
  assumes "0 < base" and "0 \<le> ticks" and "100 + 45 * ticks \<le> INT_MAX"
  shows "returns (rtos_run demo_app ticks (main_setup (demo_boot base))) (\<lambda>s'.
    rev (app_lines s') = demo_log (nat ticks) \<and>
    sample (vars s') = 100 + 5 * ((ticks + 2) div 3) \<and>
    mq_contents (sensor_queue (vars s')) = (if ticks mod 3 = 1 then [100 + 5 * (ticks div 3)] else []) \<and>
    sem_count (data_ready (vars s')) = (if ticks mod 3 = 1 then 1 else 0))"
proof -
  let ?s = "main_setup (demo_boot base)"
  obtain t where t: "ticks = int t" using assms(2) nonneg_int_cases by blast
  have "setting_up (9 * nat ticks) ?s"
    using assms(1,3) t
    by (intro main_setup_ready) (simp_all add: demo_boot_def statics_shape_boot, simp_all add: boot_def)
  then have s: "kernel_inv ?s" "no_running ?s" "demo_inv (9 * nat ticks) ?s" by (simp_all add: setting_up_def)
  have lt: "t < 2 ^ 31" using assms(3) t by (simp add: INT_MAX_def)
  have d: "ticks mod 3 = 1 \<longleftrightarrow> t mod 3 = 1" "ticks div 3 = int (t div 3)" "(ticks + 2) div 3 = int ((t + 2) div 3)"
    unfolding t by presburger+
  show ?thesis
    unfolding rtos_run_def d
  proof (rule returns_mono [OF demo_machine.run_meets [OF s]])
    fix s'
    assume "(machine_of s', store_of (vars s')) =
      (demo_cycle ^^ nat ticks) (machine_of ?s, store_of (vars ?s))"
    then have v: "(machine_of s', store_of (vars s')) = (demo_cycle ^^ t) demo_start"
      unfolding main_setup_start [OF assms(1)] t by simp
    have "rev (printed (machine_of s')) = demo_log t" "store_of (vars s') = snd ((demo_cycle ^^ t) demo_start)"
      using demo_outputs(1) [OF lt] unfolding v [symmetric] by simp_all
    then show "rev (app_lines s') = demo_log (nat ticks) \<and>
      sample (vars s') = 100 + 5 * int ((t + 2) div 3) \<and>
      mq_contents (sensor_queue (vars s')) = (if t mod 3 = 1 then [100 + 5 * int (t div 3)] else []) \<and>
      sem_count (data_ready (vars s')) = (if t mod 3 = 1 then 1 else 0)"
      unfolding demo_outputs(2) [OF lt] t by (simp add: store_of_def)
  qed
qed

theorem demo_schedule_witness:
  "returns (rtos_run demo_app 40000000 (main_setup (demo_boot 4096)))
     (\<lambda>s'. rev (app_lines s') = demo_log 40000000 \<and> sem_count (data_ready (vars s')) = 1)"
  by (rule returns_mono [OF demo_schedule [of 4096 40000000]]) (simp_all add: INT_MAX_def)

text \<open>
  C17: What the tasks print in \<open>main\<close> is, character for character, the list \<open>demo_text\<close>: the sensor at ticks
  1, 4, 7, ..., each sample stored by the logger one tick later, the display refreshed at ticks 3,
  9, 15 and 21. At the end the last sample, 140, is still in the queue with one unit in the
  semaphore; the sensor sleeps and the other two tasks are ready.
\<close>

theorem main_output:
  assumes "0 < base"
  shows "returns (main (demo_boot base)) (\<lambda>(code, s').
    map (uart_line ptr \<circ> app_entry) (rev (app_lines s')) = map (\<lambda>l. Some (l @ [CHR 0x0A])) demo_text \<and>
    mq_contents (sensor_queue (vars s')) = [140] \<and> sem_count (data_ready (vars s')) = 1 \<and>
    sample (vars s') = 145 \<and>
    map state (take (task_count s') (task_list s')) = [TASK_BLOCKED, TASK_READY, TASK_READY])"
proof -
  let ?s = "main_setup (demo_boot base)"
  have "setting_up (9 * nat 25) ?s" using assms by (rule setting_up_boot) simp
  then have s: "kernel_inv ?s" "no_running ?s" "demo_inv (9 * nat 25) ?s" by (simp_all add: setting_up_def)
  obtain s' where run: "scheduler_run demo_app 25 ?s = Inr s'"
    and v: "(machine_of s', store_of (vars s')) = demo_end"
    using demo_machine.run_meets [OF s] unfolding main_setup_start [OF assms]
    by (auto simp: demo_end_def elim: returnsE)
  have "app_lines s' = printed (fst demo_end)" "store_of (vars s') = snd demo_end"
    "map state (take (task_count s') (task_list s')) = map j_state (jobs (fst demo_end))"
    unfolding v [symmetric] by (simp_all add: comp_def)
  then show ?thesis
    using demo_end(2,3) demo_lines [of ptr] by (simp add: main_def rtos_run_def run) (simp add: store_of_def)
qed

theorem main_output_witness:
  "returns (main (demo_boot 4096)) (\<lambda>(code, s'). sample (vars s') = 145)"
  by (rule returns_mono [OF main_output [of 4096]]) auto

end
