(* ===== verification/Unit_Tests.thy ===== *)
theory Unit_Tests
  imports Api_Spec
begin

text \<open>
  The test program \<open>tests/test_states.c\<close>: its counters, its task functions, its nine tests and its
  \<open>main\<close>. A failed assertion aborts the program. The task functions are an application in the
  sense of \<open>App_Contract\<close> and meet a specification on the machine of \<open>Sched_Spec\<close>; from that,
  the program is proved to pass every one of its assertions.
\<close>

section \<open>Assertions\<close>

datatype failure = Fault fault | Aborted

type_synonym 'a trial = "failure + 'a"

definition seq :: "'a trial \<Rightarrow> ('a \<Rightarrow> 'b trial) \<Rightarrow> 'b trial" where
  "seq m f = (case m of Inl e \<Rightarrow> Inl e | Inr x \<Rightarrow> f x)"

definition attempt :: "'a res \<Rightarrow> 'a trial" where
  "attempt m = (case m of Inl e \<Rightarrow> Inl (Fault e) | Inr x \<Rightarrow> Inr x)"

text \<open>\<open>asserts [b1, b2, ...] t\<close> is \<open>assert(b1); assert(b2); ...\<close> and then \<open>t\<close>.\<close>

definition asserts :: "bool list \<Rightarrow> 'a trial \<Rightarrow> 'a trial" where
  "asserts bs t = (if list_all id bs then t else Inl Aborted)"

lemma trial_simps [simp]:
  "seq (Inr x) f = f x" "attempt (Inr x) = Inr x"
  "asserts bs t = Inr x \<longleftrightarrow> list_all id bs \<and> t = Inr x"
  by (simp_all add: seq_def attempt_def asserts_def)

section \<open>The counters and the task functions\<close>

text \<open>
  A \<open>CPUContext *\<close> into a control block is the index of the task, or none for null. \<open>said\<close> is what the
  program has printed with \<open>puts\<close>.
\<close>

record test_vars =
  ready_runs :: int
  blocked_runs :: int
  fallback_runs :: int
  suspended_runs :: int
  queue_runs :: "int list"
  context_runs :: "nat option list"
  said :: "string list"

type_synonym test_state = "test_vars kernel_scheme"

abbreviation tvars :: "test_state \<Rightarrow> test_vars" where
  "tvars s \<equiv> kernel.more s"

definition ready_task :: "test_state \<Rightarrow> test_state res" where
  "ready_task s = bindr (c_int (ready_runs (tvars s) + 1))
     (\<lambda>n. Inr (kernel.more_update (\<lambda>v. v\<lparr>ready_runs := n\<rparr>) s))"

definition blocking_task :: "test_state \<Rightarrow> test_state res" where
  "blocking_task s = bindr (c_int (blocked_runs (tvars s) + 1))
     (\<lambda>n. Inr (rtos_task_sleep 3 (kernel.more_update (\<lambda>v. v\<lparr>blocked_runs := n\<rparr>) s)))"

definition fallback_task :: "test_state \<Rightarrow> test_state res" where
  "fallback_task s = bindr (c_int (fallback_runs (tvars s) + 1))
     (\<lambda>n. Inr (kernel.more_update (\<lambda>v. v\<lparr>fallback_runs := n\<rparr>) s))"

definition suspended_task :: "test_state \<Rightarrow> test_state res" where
  "suspended_task s = bindr (c_int (suspended_runs (tvars s) + 1))
     (\<lambda>n. Inr (kernel.more_update (\<lambda>v. v\<lparr>suspended_runs := n\<rparr>) s))"

text \<open>\<open>queue_task_0\<close>, \<open>queue_task_1\<close>, \<open>queue_task_2\<close>, and the three context tasks, by their number.\<close>

definition queue_task :: "nat \<Rightarrow> test_state \<Rightarrow> test_state res" where
  "queue_task k s = bindr (c_int (queue_runs (tvars s) ! k + 1))
     (\<lambda>n. Inr (kernel.more_update (\<lambda>v. v\<lparr>queue_runs := (queue_runs v)[k := n]\<rparr>) s))"

definition context_task :: "nat \<Rightarrow> test_state \<Rightarrow> test_state res" where
  "context_task k s = deref_current s
     (\<lambda>i. Inr (kernel.more_update (\<lambda>v. v\<lparr>context_runs := (context_runs v)[k := Some i]\<rparr>) s))"

text \<open>
  The addresses of the functions are the linker's. What the tests rely on is that none is null
  and that those of \<open>queue_task_0\<close> and \<open>queue_task_1\<close> differ in their low 32 bits.
\<close>

definition ready_fn :: addr where "ready_fn = 0x1000"
definition blocking_fn :: addr where "blocking_fn = 0x1010"
definition fallback_fn :: addr where "fallback_fn = 0x1020"
definition suspended_fn :: addr where "suspended_fn = 0x1030"
definition queue_fn :: "nat \<Rightarrow> addr" where "queue_fn k = 0x1040 + 0x10 * of_nat k"
definition context_fn :: "nat \<Rightarrow> addr" where "context_fn k = 0x1070 + 0x10 * of_nat k"

definition test_fns :: "addr set" where
  "test_fns = {ready_fn, blocking_fn, fallback_fn, suspended_fn, queue_fn 0, queue_fn 1, queue_fn 2,
     context_fn 0, context_fn 1, context_fn 2}"

definition test_app :: "test_state app" where
  "test_app = \<lparr>app_task = (\<lambda>f.
       if f = ready_fn then ready_task else if f = blocking_fn then blocking_task
       else if f = fallback_fn then fallback_task else if f = suspended_fn then suspended_task
       else if f = queue_fn 0 then queue_task 0 else if f = queue_fn 1 then queue_task 1
       else if f = queue_fn 2 then queue_task 2 else if f = context_fn 0 then context_task 0
       else if f = context_fn 1 then context_task 1 else if f = context_fn 2 then context_task 2
       else (\<lambda>s. Inl NullCall)),
     app_callback = (\<lambda>_ _ s. Inl NullCall)\<rparr>"

definition reset_counters :: "test_state \<Rightarrow> test_state" where
  "reset_counters s = kernel.more_update (\<lambda>v. v\<lparr>ready_runs := 0, blocked_runs := 0, fallback_runs := 0,
     suspended_runs := 0, queue_runs := (queue_runs v)[0 := 0, 1 := 0, 2 := 0],
     context_runs := (context_runs v)[0 := None, 1 := None, 2 := None]\<rparr>) s"

definition puts :: "string \<Rightarrow> test_state \<Rightarrow> test_state" where
  "puts m s = kernel.more_update (\<lambda>v. v\<lparr>said := said v @ [m]\<rparr>) s"

section \<open>The tests\<close>

definition test_ready_task_execution :: "test_state \<Rightarrow> test_state trial" where
  "test_ready_task_execution s =
     (let s1 = rtos_init (reset_counters s);
          (a, s2) = rtos_create_task ''Ready Task'' 1 ready_fn s1
      in asserts [a > 0, rtos_ready_count s2 = 1]
        (seq (attempt (rtos_run test_app 1 s2)) (\<lambda>s3.
         asserts [ready_runs (tvars s3) = 1, rtos_ready_count s3 = 1]
           (Inr (puts ''PASS: READY task execution'' s3)))))"

definition test_blocked_task_skipping :: "test_state \<Rightarrow> test_state trial" where
  "test_blocked_task_skipping s =
     (let s1 = rtos_init (reset_counters s);
          (a, s2) = rtos_create_task ''Blocking Task'' 2 blocking_fn s1
      in asserts [a > 0]
        (let (b, s3) = rtos_create_task ''Fallback Task'' 1 fallback_fn s2
         in asserts [b > 0, rtos_ready_count s3 = 2]
           (seq (attempt (rtos_run test_app 2 s3)) (\<lambda>s4.
            asserts [blocked_runs (tvars s4) = 1, fallback_runs (tvars s4) = 1]
              (Inr (puts ''PASS: BLOCKED task skipping'' s4))))))"

definition test_suspended_task_skipping :: "test_state \<Rightarrow> test_state trial" where
  "test_suspended_task_skipping s =
     (let s1 = rtos_init (reset_counters s);
          (suspended_id, s2) = rtos_create_task ''Suspended Task'' 3 suspended_fn s1
      in asserts [suspended_id > 0]
        (let (b, s3) = rtos_create_task ''Fallback Task'' 1 fallback_fn s2
         in asserts [b > 0]
           (let (ok, s4) = rtos_suspend_task suspended_id s3
            in asserts [ok, rtos_get_task_state suspended_id s4 = TASK_SUSPENDED, rtos_ready_count s4 = 1]
              (seq (attempt (rtos_run test_app 1 s4)) (\<lambda>s5.
               asserts [suspended_runs (tvars s5) = 0, fallback_runs (tvars s5) = 1]
                 (Inr (puts ''PASS: SUSPENDED task skipping'' s5)))))))"

definition test_multiple_ready_tasks_in_queue :: "test_state \<Rightarrow> test_state trial" where
  "test_multiple_ready_tasks_in_queue s =
     (let s1 = rtos_init (reset_counters s);
          (a, s2) = rtos_create_task ''Queue Task 0'' 1 (queue_fn 0) s1
      in asserts [a > 0]
        (let (b, s3) = rtos_create_task ''Queue Task 1'' 1 (queue_fn 1) s2
         in asserts [b > 0]
           (let (c, s4) = rtos_create_task ''Queue Task 2'' 1 (queue_fn 2) s3
            in asserts [c > 0, rtos_ready_count s4 = 3]
              (seq (attempt (rtos_run test_app 3 s4)) (\<lambda>s5.
               asserts [queue_runs (tvars s5) ! 0 = 1, queue_runs (tvars s5) ! 1 = 1,
                   queue_runs (tvars s5) ! 2 = 1, rtos_ready_count s5 = 3]
                 (Inr (puts ''PASS: multiple READY tasks in queue'' s5)))))))"

text \<open>
  The address of the stack of task \<open>i\<close>: \<open>task_list\<close> is an array of control blocks of \<open>sz\<close> bytes at
  address \<open>arr\<close>, each with its stack at offset \<open>off\<close>. The layout is the compiler's.
\<close>

definition stack_address :: "int \<Rightarrow> int \<Rightarrow> int \<Rightarrow> nat \<Rightarrow> int" where
  "stack_address arr sz off i = arr + sz * int i + off"

definition ranges_overlap :: "int \<Rightarrow> int \<Rightarrow> int \<Rightarrow> int \<Rightarrow> bool" where
  "ranges_overlap start_a end_a start_b end_b \<longleftrightarrow> start_a < end_b \<and> start_b < end_a"

definition test_task_stack_allocation :: "(nat \<Rightarrow> int) \<Rightarrow> test_state \<Rightarrow> test_state trial" where
  "test_task_stack_allocation addr_of s =
     (let s1 = rtos_init (reset_counters s);
          (task_a, s2) = rtos_create_task ''Stack Task A'' 1 ready_fn s1;
          (task_b, s3) = rtos_create_task ''Stack Task B'' 1 ready_fn s2;
          (task_c, s4) = rtos_create_task ''Stack Task C'' 1 ready_fn s3;
          base = (\<lambda>t. rtos_get_task_stack_base t s4);
          sp = (\<lambda>t. rtos_get_task_stack_pointer t s4);
          size = (\<lambda>t. rtos_get_task_stack_size t s4);
          stack_words = RTOS_STACK_SIZE div 8;
          start = (\<lambda>t. addr_of (the (base t)));
          end_of = (\<lambda>t. start t + int (size t))
      in asserts [task_a > 0, task_b > 0, task_c > 0,
           base task_a \<noteq> None, base task_b \<noteq> None, base task_c \<noteq> None,
           base task_a \<noteq> base task_b, base task_b \<noteq> base task_c, base task_a \<noteq> base task_c,
           size task_a = RTOS_STACK_SIZE, size task_b = RTOS_STACK_SIZE, size task_c = RTOS_STACK_SIZE,
           sp task_a = map_option (\<lambda>i. (i, stack_words)) (base task_a),
           sp task_b = map_option (\<lambda>i. (i, stack_words)) (base task_b),
           sp task_c = map_option (\<lambda>i. (i, stack_words)) (base task_c),
           \<not> ranges_overlap (start task_a) (end_of task_a) (start task_b) (end_of task_b),
           \<not> ranges_overlap (start task_a) (end_of task_a) (start task_c) (end_of task_c),
           \<not> ranges_overlap (start task_b) (end_of task_b) (start task_c) (end_of task_c)]
         (Inr (puts ''PASS: private task stack allocation'' s4)))"

definition test_task_context_ownership :: "test_state \<Rightarrow> test_state trial" where
  "test_task_context_ownership s =
     (let s1 = rtos_init (reset_counters s);
          (a, s2) = rtos_create_task ''Context Task 0'' 1 (context_fn 0) s1
      in asserts [a > 0]
        (let (b, s3) = rtos_create_task ''Context Task 1'' 1 (context_fn 1) s2
         in asserts [b > 0]
           (let (c, s4) = rtos_create_task ''Context Task 2'' 1 (context_fn 2) s3
            in asserts [c > 0]
              (seq (attempt (rtos_run test_app 3 s4)) (\<lambda>s5.
               let runs = context_runs (tvars s5) in
               asserts [runs ! 0 \<noteq> None, runs ! 1 \<noteq> None, runs ! 2 \<noteq> None,
                   runs ! 0 \<noteq> runs ! 1, runs ! 0 \<noteq> runs ! 2, runs ! 1 \<noteq> runs ! 2]
                 (Inr (puts ''PASS: private task CPU context ownership'' s5)))))))"

text \<open>
  The contexts on the stack of a test are objects 8 and up of the store of contexts, behind those of the
  eight control blocks. They start with whatever is there.
\<close>

definition set_regs :: "nat \<Rightarrow> (CPUContext \<Rightarrow> CPUContext) \<Rightarrow> ctx_mem \<Rightarrow> ctx_mem" where
  "set_regs k f m = m\<lparr>ctx_objs := (ctx_objs m)(k := f (ctx_objs m k))\<rparr>"

definition test_context_save_updates_destination :: "test_state \<Rightarrow> test_state trial" where
  "test_context_save_updates_destination s =
     (let active_seed = 8; task_a_context = 9; task_b_context = 10;
          m1 = context_init (CtxObj active_seed) ready_fn (ctx_view s);
          m2 = context_init (CtxObj task_a_context) (queue_fn 0) m1;
          m3 = context_init (CtxObj task_b_context) (queue_fn 1) m2;
          m4 = set_regs active_seed (\<lambda>c. c\<lparr>r0 := 0x11, r7 := 0x77, r12 := 0xCC, lr := 0xABCD1234\<rparr>) m3;
          m5 = set_regs task_b_context (\<lambda>c. c\<lparr>r0 := 0x2222\<rparr>) m4;
          m6 = context_restore (CtxObj active_seed) m5;
          m7 = context_save (CtxObj task_a_context) m6;
          a = ctx_objs m7 task_a_context
      in asserts [r0 a = 0x11, r7 a = 0x77, r12 a = 0xCC, lr a = 0xABCD1234,
             r0 (ctx_objs m7 task_b_context) = 0x2222]
           (Inr (puts ''PASS: context save updates only destination'' (ctx_put m7 s))))"

definition test_context_restore_expected_registers :: "test_state \<Rightarrow> test_state trial" where
  "test_context_restore_expected_registers s =
     (let expected = 8;
          m1 = context_init (CtxObj expected) blocking_fn (ctx_view s);
          m2 = set_regs expected (\<lambda>c. c\<lparr>r0 := 1, r1 := 2, r2 := 3, r12 := 12, lr := 0xFFFFFFFD,
                 xpsr := 0x01000000\<rparr>) m1;
          m3 = context_restore (CtxObj expected) m2;
          e = ctx_objs m3 expected
      in case ctx_read context_active m3 of None \<Rightarrow> Inl (Fault NullDeref)
         | Some a \<Rightarrow> asserts [r0 a = r0 e, r1 a = r1 e, r2 a = r2 e, r12 a = r12 e, lr a = lr e,
                 pc a = pc e, xpsr a = xpsr e]
               (Inr (puts ''PASS: context restore loads expected registers'' (ctx_put m3 s))))"

definition test_contexts_do_not_overwrite :: "test_state \<Rightarrow> test_state trial" where
  "test_contexts_do_not_overwrite s =
     (let context_a = 8; context_b = 9;
          m1 = context_init (CtxObj context_a) (queue_fn 0) (ctx_view s);
          m2 = context_init (CtxObj context_b) (queue_fn 1) m1;
          m3 = set_regs context_a (\<lambda>c. c\<lparr>r4 := 0xA4\<rparr>) m2;
          m4 = set_regs context_b (\<lambda>c. c\<lparr>r4 := 0xB4\<rparr>) m3;
          m5 = context_save (CtxObj context_a) (context_restore (CtxObj context_a) m4);
          m6 = context_save (CtxObj context_b) (context_restore (CtxObj context_b) m5);
          a = ctx_objs m6 context_a; b = ctx_objs m6 context_b
      in asserts [r4 a = 0xA4, r4 b = 0xB4, pc a \<noteq> pc b]
           (Inr (puts ''PASS: CPU contexts do not overwrite one another'' (ctx_put m6 s))))"

definition test_main :: "(nat \<Rightarrow> int) \<Rightarrow> test_state \<Rightarrow> (int \<times> test_state) trial" where
  "test_main addr_of s =
     seq (test_ready_task_execution s) (\<lambda>s. seq (test_blocked_task_skipping s) (\<lambda>s.
     seq (test_suspended_task_skipping s) (\<lambda>s. seq (test_multiple_ready_tasks_in_queue s) (\<lambda>s.
     seq (test_task_stack_allocation addr_of s) (\<lambda>s. seq (test_task_context_ownership s) (\<lambda>s.
     seq (test_context_save_updates_destination s) (\<lambda>s.
     seq (test_context_restore_expected_registers s) (\<lambda>s.
     seq (test_contexts_do_not_overwrite s) (\<lambda>s.
       Inr (0, puts ''All task state, stack, and context tests passed'' s))))))))))"

text \<open>The static variables before \<open>main\<close>.\<close>

definition test_boot :: "int \<Rightarrow> test_state" where
  "test_boot base = boot base \<lparr>ready_runs = 0, blocked_runs = 0, fallback_runs = 0, suspended_runs = 0,
     queue_runs = [0, 0, 0], context_runs = [None, None, None], said = []\<rparr>"

section \<open>What the task functions do, abstractly\<close>

definition test_spec :: "addr \<Rightarrow> test_vars effect" where
  "test_spec f = (\<lambda>(m, v).
     if f = ready_fn then (m, v\<lparr>ready_runs := ready_runs v + 1\<rparr>)
     else if f = blocking_fn then (nap 3 m, v\<lparr>blocked_runs := blocked_runs v + 1\<rparr>)
     else if f = fallback_fn then (m, v\<lparr>fallback_runs := fallback_runs v + 1\<rparr>)
     else if f = suspended_fn then (m, v\<lparr>suspended_runs := suspended_runs v + 1\<rparr>)
     else if f = queue_fn 0 then (m, v\<lparr>queue_runs := (queue_runs v)[0 := queue_runs v ! 0 + 1]\<rparr>)
     else if f = queue_fn 1 then (m, v\<lparr>queue_runs := (queue_runs v)[1 := queue_runs v ! 1 + 1]\<rparr>)
     else if f = queue_fn 2 then (m, v\<lparr>queue_runs := (queue_runs v)[2 := queue_runs v ! 2 + 1]\<rparr>)
     else if f = context_fn 0 then (m, v\<lparr>context_runs := (context_runs v)[0 := current m]\<rparr>)
     else if f = context_fn 1 then (m, v\<lparr>context_runs := (context_runs v)[1 := current m]\<rparr>)
     else (m, v\<lparr>context_runs := (context_runs v)[2 := current m]\<rparr>))"

text \<open>The counters are in range for \<open>n\<close> more calls.\<close>

definition counts :: "nat \<Rightarrow> int \<Rightarrow> bool" where
  "counts n x \<longleftrightarrow> 0 \<le> x \<and> x + int n \<le> INT_MAX"

definition test_data :: "nat \<Rightarrow> test_vars \<Rightarrow> bool" where
  "test_data n v \<longleftrightarrow> counts n (ready_runs v) \<and> counts n (blocked_runs v) \<and> counts n (fallback_runs v) \<and>
     counts n (suspended_runs v) \<and> length (queue_runs v) = 3 \<and> length (context_runs v) = 3 \<and>
     counts n (queue_runs v ! 0) \<and> counts n (queue_runs v ! 1) \<and> counts n (queue_runs v ! 2)"

definition test_inv :: "nat \<Rightarrow> test_state \<Rightarrow> bool" where
  "test_inv n s \<longleftrightarrow> test_data n (tvars s) \<and> (\<forall>i<task_count s. task_function (tcb s i) \<in> test_fns) \<and>
     (\<forall>j<8. \<not> in_use (g_soft_timers s ! j))"

lemma counts_Suc: "counts (Suc n) x \<Longrightarrow> counts n x" "counts (Suc n) x \<Longrightarrow> counts n (x + 1)"
    "counts (Suc n) x \<Longrightarrow> in_int (x + 1)"
  by (simp_all add: counts_def int_range_defs)

lemma below_3_cases:
  assumes "k < (3::nat)" obtains "k = 0" | "k = 1" | "k = 2"
proof -
  from assms have "k = 0 \<or> k = 1 \<or> k = 2" by arith
  then show thesis using that by blast
qed

lemma test_data_queue: "test_data n v \<Longrightarrow> k < 3 \<Longrightarrow> counts n (queue_runs v ! k)"
  by (erule below_3_cases) (simp_all add: test_data_def)

text \<open>One more call leaves the counters in range for one call less.\<close>

lemma test_data_Suc:
  assumes "test_data (Suc n) v"
  shows "test_data n v"
    and "test_data n (v\<lparr>ready_runs := ready_runs v + 1\<rparr>)"
    and "test_data n (v\<lparr>blocked_runs := blocked_runs v + 1\<rparr>)"
    and "test_data n (v\<lparr>fallback_runs := fallback_runs v + 1\<rparr>)"
    and "test_data n (v\<lparr>suspended_runs := suspended_runs v + 1\<rparr>)"
    and "test_data n (v\<lparr>context_runs := (context_runs v)[k := x]\<rparr>)"
    and "k < 3 \<Longrightarrow> test_data n (v\<lparr>queue_runs := (queue_runs v)[k := queue_runs v ! k + 1]\<rparr>)"
proof -
  note c = assms [unfolded test_data_def]
  then have c1: "counts n (ready_runs v)" "counts n (blocked_runs v)" "counts n (fallback_runs v)"
    "counts n (suspended_runs v)" "counts n (queue_runs v ! 0)" "counts n (queue_runs v ! 1)"
    "counts n (queue_runs v ! 2)"
    by (blast intro: counts_Suc(1))+
  have c2: "counts n (ready_runs v + 1)" "counts n (blocked_runs v + 1)" "counts n (fallback_runs v + 1)"
    "counts n (suspended_runs v + 1)"
    using c by (blast intro: counts_Suc(2))+
  show "test_data n v" "test_data n (v\<lparr>ready_runs := ready_runs v + 1\<rparr>)"
    "test_data n (v\<lparr>blocked_runs := blocked_runs v + 1\<rparr>)"
    "test_data n (v\<lparr>fallback_runs := fallback_runs v + 1\<rparr>)"
    "test_data n (v\<lparr>suspended_runs := suspended_runs v + 1\<rparr>)"
    "test_data n (v\<lparr>context_runs := (context_runs v)[k := x]\<rparr>)"
    using c c1 c2 by (simp_all add: test_data_def)
  show "test_data n (v\<lparr>queue_runs := (queue_runs v)[k := queue_runs v ! k + 1]\<rparr>)" if k: "k < 3"
  proof -
    have "counts n ((queue_runs v)[k := queue_runs v ! k + 1] ! j)" if "j < 3" for j
      using c counts_Suc [OF test_data_queue [OF assms]] that k by (cases "j = k") simp_all
    from this [of 0] this [of 1] this [of 2] show ?thesis
      using c c1 by (simp add: test_data_def)
  qed
qed

lemmas fn_defs = ready_fn_def blocking_fn_def fallback_fn_def suspended_fn_def queue_fn_def context_fn_def

text \<open>A task function that only changes the program's variables.\<close>

lemma own_runs:
  assumes "kernel_inv s" and "test_inv (Suc n) s" and "test_data n (g (tvars s))"
  shows "(api_steps s (kernel.more_update g s) \<and> test_inv n (kernel.more_update g s)) \<and>
    (machine_of (kernel.more_update g s), tvars (kernel.more_update g s)) = (machine_of s, g (tvars s))"
proof -
  have "api_step s (kernel.more_update g s)" by (rule api_step.own)
  with assms show ?thesis by (simp add: test_inv_def r_into_rtranclp)
qed

lemma test_fn_eqs:
  "app_task test_app ready_fn = ready_task" "app_task test_app blocking_fn = blocking_task"
  "app_task test_app fallback_fn = fallback_task" "app_task test_app suspended_fn = suspended_task"
  "app_task test_app (queue_fn 0) = queue_task 0" "app_task test_app (queue_fn 1) = queue_task 1"
  "app_task test_app (queue_fn 2) = queue_task 2" "app_task test_app (context_fn 0) = context_task 0"
  "app_task test_app (context_fn 1) = context_task 1" "app_task test_app (context_fn 2) = context_task 2"
  by (simp_all add: test_app_def fn_defs)

lemma test_spec_eqs:
  "test_spec ready_fn (m, v) = (m, v\<lparr>ready_runs := ready_runs v + 1\<rparr>)"
  "test_spec blocking_fn (m, v) = (nap 3 m, v\<lparr>blocked_runs := blocked_runs v + 1\<rparr>)"
  "test_spec fallback_fn (m, v) = (m, v\<lparr>fallback_runs := fallback_runs v + 1\<rparr>)"
  "test_spec suspended_fn (m, v) = (m, v\<lparr>suspended_runs := suspended_runs v + 1\<rparr>)"
  by (simp_all add: test_spec_def fn_defs)

lemma test_spec_queue:
  "k < 3 \<Longrightarrow> test_spec (queue_fn k) (m, v) = (m, v\<lparr>queue_runs := (queue_runs v)[k := queue_runs v ! k + 1]\<rparr>)"
  by (erule below_3_cases) (simp_all add: test_spec_def fn_defs)

lemma test_spec_context:
  "k < 3 \<Longrightarrow> test_spec (context_fn k) (m, v) = (m, v\<lparr>context_runs := (context_runs v)[k := current m]\<rparr>)"
  by (erule below_3_cases) (simp_all add: test_spec_def fn_defs)

lemma test_task_runs:
  assumes inv: "kernel_inv s" and t: "test_inv (Suc n) s" and cur: "rtos_current_task s = Some i"
  shows "returns (app_task test_app (task_function (tcb s i)) s) (\<lambda>s'. (api_steps s s' \<and> test_inv n s') \<and>
    (machine_of s', tvars s') = test_spec (task_function (tcb s i)) (machine_of s, tvars s))"
proof -
  have d: "test_data (Suc n) (tvars s)" and f: "task_function (tcb s i) \<in> test_fns"
    using t cur by (simp_all add: test_inv_def rtos_current_task_Some)
  note c = test_data_Suc [OF d]
  have r: "in_int (ready_runs (tvars s) + 1)" "in_int (blocked_runs (tvars s) + 1)"
    "in_int (fallback_runs (tvars s) + 1)" "in_int (suspended_runs (tvars s) + 1)"
    using d unfolding test_data_def by (blast intro: counts_Suc(3))+
  have own: "returns (Inr (kernel.more_update g s)) (\<lambda>s'. (api_steps s s' \<and> test_inv n s') \<and>
      (machine_of s', tvars s') = test_spec fn (machine_of s, tvars s))"
    if "test_data n (g (tvars s))" and "test_spec fn (machine_of s, tvars s) = (machine_of s, g (tvars s))" for g fn
    unfolding returns_Inr that(2) by (rule own_runs [where g = g, OF inv t that(1)])
  have queue: "returns (queue_task k s) (\<lambda>s'. (api_steps s s' \<and> test_inv n s') \<and>
      (machine_of s', tvars s') = test_spec (queue_fn k) (machine_of s, tvars s))" if k: "k < 3" for k
    unfolding queue_task_def c_int_ok [OF counts_Suc(3) [OF test_data_queue [OF d k]]] bindr_Inr
    by (rule own, use k test_data_Suc(7) [OF d k] in \<open>simp_all add: test_spec_queue\<close>)
  have ctx: "returns (context_task k s) (\<lambda>s'. (api_steps s s' \<and> test_inv n s') \<and>
      (machine_of s', tvars s') = test_spec (context_fn k) (machine_of s, tvars s))" if k: "k < 3" for k
    unfolding context_task_def deref_current_Some [OF cur]
    by (rule own, use k cur test_data_Suc(6) [OF d] in \<open>simp_all add: test_spec_context\<close>)
  from f consider
    "task_function (tcb s i) = ready_fn" | "task_function (tcb s i) = blocking_fn" |
    "task_function (tcb s i) = fallback_fn" | "task_function (tcb s i) = suspended_fn" |
    "task_function (tcb s i) = queue_fn 0" | "task_function (tcb s i) = queue_fn 1" |
    "task_function (tcb s i) = queue_fn 2" | "task_function (tcb s i) = context_fn 0" |
    "task_function (tcb s i) = context_fn 1" | "task_function (tcb s i) = context_fn 2"
    unfolding test_fns_def by blast
  then show ?thesis
  proof cases
    case 1
    show ?thesis
      unfolding 1 test_fn_eqs ready_task_def c_int_ok [OF r(1)] bindr_Inr
      by (rule own) (simp_all add: c test_spec_eqs)
  next
    case 2
    let ?s1 = "kernel.more_update (\<lambda>v. v\<lparr>blocked_runs := blocked_runs (tvars s) + 1\<rparr>) s"
    have w: "went s ?s1" by (intro went_own went_refl [OF inv])
    have w3: "went s (rtos_task_sleep 3 ?s1)" by (rule went_sleep [OF w]) (simp_all add: int_range_defs)
    have "machine_of (rtos_task_sleep 3 ?s1) = nap 3 (machine_of s)"
      using machine_of_sleep [OF w, of 3] by (simp add: int_range_defs)
    moreover have "test_inv n (rtos_task_sleep 3 ?s1)"
      using w3 t c(3) by (simp add: test_inv_def went_def)
    ultimately show ?thesis
      using w3 r(2) unfolding 2 test_fn_eqs blocking_task_def
      by (simp add: test_spec_eqs went_def del: machine_of_fields)
  next
    case 3
    show ?thesis
      unfolding 3 test_fn_eqs fallback_task_def c_int_ok [OF r(3)] bindr_Inr
      by (rule own) (simp_all add: c test_spec_eqs)
  next
    case 4
    show ?thesis
      unfolding 4 test_fn_eqs suspended_task_def c_int_ok [OF r(4)] bindr_Inr
      by (rule own) (simp_all add: c test_spec_eqs)
  next
    case 5
    show ?thesis unfolding 5 test_fn_eqs by (rule queue) simp
  next
    case 6
    show ?thesis unfolding 6 test_fn_eqs by (rule queue) simp
  next
    case 7
    show ?thesis unfolding 7 test_fn_eqs by (rule queue) simp
  next
    case 8
    show ?thesis unfolding 8 test_fn_eqs by (rule ctx) simp
  next
    case 9
    show ?thesis unfolding 9 test_fn_eqs by (rule ctx) simp
  next
    case 10
    show ?thesis unfolding 10 test_fn_eqs by (rule ctx) simp
  qed
qed

interpretation tests: application test_app test_inv
proof (unfold_locales, goal_cases)
  case (1 n s)
  then show ?case by (simp add: test_inv_def test_data_Suc(1))
next
  case (2 n s t)
  then show ?case by (auto simp: test_inv_def same_app_def same_timer_def)
next
  case (3 s n i)
  show ?case by (rule returns_mono [OF test_task_runs [OF 3(1-3)]]) (rule conjunct1)
next
  case (4 s n j)
  then show ?case by (simp add: test_inv_def)
qed

interpretation test_machine: specified test_app test_inv "\<lambda>v. v" test_spec "\<lambda>_ _ md. md"
proof (unfold_locales, goal_cases)
  case (1 s n i s')
  from test_task_runs [OF 1(1-3)] show ?case unfolding 1(5) by simp
next
  case (2 s n j s')
  then show ?case by (simp add: test_inv_def)
qed

section \<open>The steps of a test\<close>

text \<open>What the C declarations fix about the variables, and what holds between the calls of a test.\<close>

definition test_statics :: "test_state \<Rightarrow> bool" where
  "test_statics s \<longleftrightarrow> statics_shape s \<and> length (queue_runs (tvars s)) = 3 \<and> length (context_runs (tvars s)) = 3"

definition prepared :: "nat \<Rightarrow> machine \<Rightarrow> test_vars \<Rightarrow> test_state \<Rightarrow> bool" where
  "prepared n m v s \<longleftrightarrow> kernel_inv s \<and> no_running s \<and> test_inv n s \<and> machine_of s = m \<and> tvars s = v"

definition new_machine :: "test_state \<Rightarrow> machine" where
  "new_machine s = \<lparr>jobs = [], ready_line = [], current = None, clock = 0, printed = app_lines s,
     alarms = replicate 8 None\<rparr>"

definition cleared :: "test_state \<Rightarrow> test_vars" where
  "cleared s = \<lparr>ready_runs = 0, blocked_runs = 0, fallback_runs = 0, suspended_runs = 0,
     queue_runs = [0, 0, 0], context_runs = [None, None, None], said = said (tvars s)\<rparr>"

lemma three_updates: "length xs = 3 \<Longrightarrow> xs[0 := a, Suc 0 := b, 2 := c] = [a, b, c]"
  by (auto simp: numeral_3_eq_3 numeral_2_eq_2 length_Suc_conv)

lemma test_init:
  assumes "test_statics s"
  shows "prepared 100 (new_machine s) (cleared s) (rtos_init (reset_counters s))"
proof -
  have shape: "statics_shape (reset_counters s)"
    using assms by (simp add: test_statics_def statics_shape_def reset_counters_def)
  have "tvars (rtos_init (reset_counters s)) = cleared s"
    using assms by (simp add: rtos_init_more) (simp add: reset_counters_def test_statics_def cleared_def three_updates)
  moreover have "machine_of (rtos_init (reset_counters s)) = new_machine s"
    by (simp add: machine_init new_machine_def reset_counters_def app_lines_def del: machine_of_fields)
  ultimately show ?thesis
    using rtos_init_start [OF shape] rtos_init_inv [OF shape]
    by (simp add: prepared_def test_inv_def test_data_def counts_def cleared_def no_running_def INT_MAX_def
        del: machine_of_fields)
qed

lemma test_fns_nonzero: "f \<in> test_fns \<Longrightarrow> f \<noteq> 0"
  by (auto simp: test_fns_def fn_defs)

lemma test_create:
  assumes p: "prepared n m v s" and room: "length (jobs m) < 8" and f: "f \<in> test_fns"
  obtains s' where "rtos_create_task nm prio f s = (int (length (jobs m)) + 1, s')"
    and "prepared n (spawn f prio m) v s'"
proof -
  have s: "kernel_inv s" "no_running s" "test_inv n s" and m: "machine_of s = m" "tvars s = v"
    using p by (simp_all add: prepared_def)
  note nz = test_fns_nonzero [OF f]
  let ?t = "snd (rtos_create_task nm prio f s)"
  have ok: "api_ok s ?t" by (rule rtos_create_task_ok [OF s(1) nz])
  have tc: "task_count s = length (jobs m)"
    using machine_of_jobs(1) [OF kernel_invD(1) [OF s(1)]] by (simp add: m(1))
  have "test_inv n ?t"
    using s(3) create_keeps [OF s(1) nz _ f, of nm prio] create_more [of nm prio f s] by (simp add: test_inv_def)
  then have "prepared n (spawn f prio m) v ?t"
    using ok s no_running_api [OF ok] machine_create [OF s(1) nz, of nm prio] create_more [of nm prio f s]
    by (simp add: prepared_def api_ok_def m del: machine_of_fields)
  moreover have "rtos_create_task nm prio f s = (int (length (jobs m)) + 1, ?t)"
    using create_ok_eq [OF s(1), of nm prio f] room by (simp add: tc)
  ultimately show thesis by (rule that [rotated])
qed

lemma test_run:
  assumes p: "prepared 100 m v s" and T: "0 \<le> T" "T \<le> 10"
  obtains m' v' s' where "rtos_run test_app T s = Inr s'" and "prepared 1 m' v' s'"
    and "(m', v') = (spec_cycle test_spec (\<lambda>_ _ md. md) ^^ nat T) (m, v)"
proof -
  have "9 * nat T \<le> 90" using T by simp
  then have "100 = (99 - 9 * nat T) + (9 * nat T + 1)" by simp
  then have "test_inv (9 * nat T + 1) s"
    using p tests.weaken_add [of "99 - 9 * nat T" "9 * nat T + 1" s] by (simp add: prepared_def)
  then have q: "tests.quiet (g_kernel_tick s) (9 * nat T + 1) s"
    and a: "kernel_inv s" "no_running s" "test_inv (9 * nat T) s"
    using p tests.weaken [of "9 * nat T" s] by (simp_all add: prepared_def tests.quiet_def)
  obtain s' where run: "scheduler_run test_app T s = Inr s'"
    and k: "kernel_inv s'" "no_running s'" "test_inv 1 s'"
    using tests.run_quiet [OF q] by (auto simp: tests.quiet_def elim: returnsE)
  have "(machine_of s', tvars s') = (spec_cycle test_spec (\<lambda>_ _ md. md) ^^ nat T) (m, v)"
    using test_machine.run_meets [OF a] p by (simp add: run prepared_def del: machine_of_fields)
  with run k show thesis by (intro that [of s' "machine_of s'" "tvars s'"]) (simp_all add: rtos_run_def prepared_def)
qed

lemma test_ready_count:
  assumes "prepared n m v s"
  shows "rtos_ready_count s = length (ready_line m)"
proof -
  have "rq_wf s" and m: "machine_of s = m" using assms sched_invD(5) kernel_invD(1) by (auto simp: prepared_def)
  then show ?thesis
    unfolding m [symmetric] by (simp add: rtos_ready_count_def scheduler_ready_count_def rq_list_def rq_wf_def)
qed

lemma prepared_statics: "prepared n m v s \<Longrightarrow> test_statics s"
  by (auto simp: prepared_def test_statics_def statics_shape_def kernel_inv_def sched_inv_def rq_wf_def test_inv_def
      test_data_def pool_inv_def pool_rel_def)

text \<open>A test that passes: it returns, every assertion true, and has printed its line.\<close>

definition passes :: "(test_state \<Rightarrow> test_state trial) \<Rightarrow> string \<Rightarrow> bool" where
  "passes t line \<longleftrightarrow> (\<forall>s. test_statics s \<longrightarrow>
     (\<exists>s'. t s = Inr s' \<and> test_statics s' \<and> said (tvars s') = said (tvars s) @ [line]))"

lemma puts_statics: "prepared n m v s \<Longrightarrow> said v = l \<Longrightarrow>
    test_statics (puts line s) \<and> said (tvars (puts line s)) = l @ [line]"
  using prepared_statics [of n m v s] by (auto simp: prepared_def puts_def test_statics_def statics_shape_def)

lemmas run_test = run_spec new_machine_def cleared_def spawn_def new_job_def test_spec_def fn_defs hold_back_def

lemma fns [simp]: "ready_fn \<in> test_fns" "blocking_fn \<in> test_fns" "fallback_fn \<in> test_fns" "suspended_fn \<in> test_fns"
  "queue_fn 0 \<in> test_fns" "queue_fn (Suc 0) \<in> test_fns" "queue_fn 2 \<in> test_fns"
  "context_fn 0 \<in> test_fns" "context_fn (Suc 0) \<in> test_fns" "context_fn 2 \<in> test_fns"
  by (simp_all add: fn_defs test_fns_def)

lemma ready_task_execution: "passes test_ready_task_execution ''PASS: READY task execution''"
  unfolding passes_def
proof (intro allI impI)
  fix s
  assume "test_statics s"
  note p0 = test_init [OF this]
  obtain s2 where c: "rtos_create_task ''Ready Task'' 1 ready_fn (rtos_init (reset_counters s)) = (1, s2)"
    and p2: "prepared 100 (spawn ready_fn 1 (new_machine s)) (cleared s) s2"
    by (rule test_create [OF p0, of ready_fn "''Ready Task''" 1]) (simp_all add: new_machine_def)
  obtain m v s3 where r: "rtos_run test_app 1 s2 = Inr s3" and p3: "prepared 1 m v s3"
    and e: "(m, v) = (spec_cycle test_spec (\<lambda>_ _ md. md) ^^ nat 1) (spawn ready_fn 1 (new_machine s), cleared s)"
    by (rule test_run [OF p2, of 1]) simp_all
  have v: "v = (cleared s)\<lparr>ready_runs := 1\<rparr>" and l: "length (ready_line m) = 1"
    using e by (simp_all add: run_test)
  have "tvars s3 = v" using p3 by (simp add: prepared_def)
  then show "\<exists>s'. test_ready_task_execution s = Inr s' \<and> test_statics s' \<and>
      said (tvars s') = said (tvars s) @ [''PASS: READY task execution'']"
    using test_ready_count [OF p2] test_ready_count [OF p3] l puts_statics [OF p3]
    by (simp add: test_ready_task_execution_def c r v spawn_def new_machine_def cleared_def)
qed

lemma blocked_task_skipping: "passes test_blocked_task_skipping ''PASS: BLOCKED task skipping''"
  unfolding passes_def
proof (intro allI impI)
  fix s
  assume "test_statics s"
  note p0 = test_init [OF this]
  let ?m2 = "spawn blocking_fn 2 (new_machine s)"
  let ?m3 = "spawn fallback_fn 1 ?m2"
  obtain s2 where c2: "rtos_create_task ''Blocking Task'' 2 blocking_fn (rtos_init (reset_counters s)) = (1, s2)"
    and p2: "prepared 100 ?m2 (cleared s) s2"
    by (rule test_create [OF p0, of blocking_fn "''Blocking Task''" 2]) (simp_all add: new_machine_def)
  obtain s3 where c3: "rtos_create_task ''Fallback Task'' 1 fallback_fn s2 = (2, s3)"
    and p3: "prepared 100 ?m3 (cleared s) s3"
    by (rule test_create [OF p2, of fallback_fn "''Fallback Task''" 1]) (simp_all add: new_machine_def spawn_def)
  obtain m v s4 where r: "rtos_run test_app 2 s3 = Inr s4" and p4: "prepared 1 m v s4"
    and e: "(m, v) = (spec_cycle test_spec (\<lambda>_ _ md. md) ^^ nat 2) (?m3, cleared s)"
    by (rule test_run [OF p3, of 2]) simp_all
  have v: "v = (cleared s)\<lparr>blocked_runs := 1, fallback_runs := 1\<rparr>"
    using e by (simp add: run_test)
  have "tvars s4 = v" using p4 by (simp add: prepared_def)
  then show "\<exists>s'. test_blocked_task_skipping s = Inr s' \<and> test_statics s' \<and>
      said (tvars s') = said (tvars s) @ [''PASS: BLOCKED task skipping'']"
    using test_ready_count [OF p3] puts_statics [OF p4]
    by (simp add: test_blocked_task_skipping_def c2 c3 r v spawn_def new_machine_def cleared_def)
qed

lemma test_suspend:
  assumes p: "prepared n m v s" and i: "i < length (jobs m)"
  obtains s' where "rtos_suspend_task (int i + 1) s = (True, s')" and "prepared n (hold_back (int i + 1) m) v s'"
    and "rtos_get_task_state (int i + 1) s' = TASK_SUSPENDED"
proof -
  have s: "kernel_inv s" "no_running s" "test_inv n s" and m: "machine_of s = m" "tvars s = v"
    using p by (simp_all add: prepared_def)
  note S = kernel_invD(1) [OF s(1)]
  let ?t = "snd (rtos_suspend_task (int i + 1) s)"
  have ok: "api_ok s ?t" by (rule rtos_suspend_task_ok [OF s(1)])
  have tc: "task_count s = length (jobs m)" using machine_of_jobs(1) [OF S] by (simp add: m(1))
  have idx: "task_index_from_id (int i + 1) s = int i" using i task_index_of_id [OF S, of "int i + 1"] by (simp add: tc)
  have fst: "fst (rtos_suspend_task (int i + 1) s)" by (simp add: rtos_suspend_task_def idx Let_def)
  have t: "?t = uart_log (Rtos (LogTaskSuspended (task_name (tcb (scheduler_set_task_state (int i) TASK_SUSPENDED BLOCK_NONE s) i))))
      (scheduler_set_task_state (int i) TASK_SUSPENDED BLOCK_NONE s)"
    by (simp add: rtos_suspend_task_def idx Let_def)
  have more: "tvars ?t = v" "g_soft_timers ?t = g_soft_timers s" "task_count ?t = task_count s" by (simp_all add: t m(2))
  have "task_function (tcb ?t j) = task_function (tcb s j)" if "j < task_count s" for j
    using ok that by (intro tcb_fixed_eqD(3)) (simp add: api_ok_def kframe_def)
  then have "test_inv n ?t" using s(3) more m(2) by (simp add: test_inv_def)
  then have p': "prepared n (hold_back (int i + 1) m) v ?t"
    using ok s no_running_api [OF ok] machine_suspend [OF S, of "int i + 1"] more
    by (simp add: prepared_def api_ok_def m del: machine_of_fields)
  note S' = kernel_invD(1) [of ?t]
  have "state (tcb ?t i) = TASK_SUSPENDED"
    using i sched_invD [OF S] by (simp add: t set_task_state_tcb tc)
  moreover have "task_index_from_id (int i + 1) ?t = int i"
    using i ok task_index_of_id [of ?t "int i + 1"] more(3) by (simp add: tc api_ok_def kernel_invD)
  ultimately have "rtos_get_task_state (int i + 1) ?t = TASK_SUSPENDED" by (simp add: rtos_get_task_state_def Let_def)
  with fst p' show thesis by (intro that [of ?t]) (simp_all add: prod_eq_iff)
qed

lemma suspended_task_skipping: "passes test_suspended_task_skipping ''PASS: SUSPENDED task skipping''"
  unfolding passes_def
proof (intro allI impI)
  fix s
  assume "test_statics s"
  note p0 = test_init [OF this]
  let ?m2 = "spawn suspended_fn 3 (new_machine s)"
  let ?m3 = "spawn fallback_fn 1 ?m2"
  obtain s2 where c2: "rtos_create_task ''Suspended Task'' 3 suspended_fn (rtos_init (reset_counters s)) = (1, s2)"
    and p2: "prepared 100 ?m2 (cleared s) s2"
    by (rule test_create [OF p0, of suspended_fn "''Suspended Task''" 3]) (simp_all add: new_machine_def)
  obtain s3 where c3: "rtos_create_task ''Fallback Task'' 1 fallback_fn s2 = (2, s3)"
    and p3: "prepared 100 ?m3 (cleared s) s3"
    by (rule test_create [OF p2, of fallback_fn "''Fallback Task''" 1]) (simp_all add: new_machine_def spawn_def)
  obtain s4 where c4: "rtos_suspend_task 1 s3 = (True, s4)" "rtos_get_task_state 1 s4 = TASK_SUSPENDED"
    and p4: "prepared 100 (hold_back 1 ?m3) (cleared s) s4"
    by (rule test_suspend [OF p3, of 0]) (simp_all add: new_machine_def spawn_def)
  obtain m v s5 where r: "rtos_run test_app 1 s4 = Inr s5" and p5: "prepared 1 m v s5"
    and e: "(m, v) = (spec_cycle test_spec (\<lambda>_ _ md. md) ^^ nat 1) (hold_back 1 ?m3, cleared s)"
    by (rule test_run [OF p4, of 1]) simp_all
  have v: "v = (cleared s)\<lparr>fallback_runs := 1\<rparr>" using e by (simp add: run_test)
  have "tvars s5 = v" using p5 by (simp add: prepared_def)
  then show "\<exists>s'. test_suspended_task_skipping s = Inr s' \<and> test_statics s' \<and>
      said (tvars s') = said (tvars s) @ [''PASS: SUSPENDED task skipping'']"
    using test_ready_count [OF p4] puts_statics [OF p5]
    by (simp add: test_suspended_task_skipping_def c2 c3 c4 r v)
      (simp add: spawn_def new_machine_def cleared_def hold_back_def move_def new_job_def)
qed

lemma three_creates:
  assumes "test_statics s" and "f 0 \<in> test_fns" and "f (Suc 0) \<in> test_fns" and "f 2 \<in> test_fns"
  obtains s2 s3 s4 where
    "rtos_create_task a 1 (f 0) (rtos_init (reset_counters s)) = (1, s2)" and "rtos_create_task b 1 (f (Suc 0)) s2 = (2, s3)"
    and "rtos_create_task c 1 (f 2) s3 = (3, s4)"
    and "prepared 100 (spawn (f 2) 1 (spawn (f (Suc 0)) 1 (spawn (f 0) 1 (new_machine s)))) (cleared s) s4"
proof -
  note p0 = test_init [OF assms(1)]
  let ?m2 = "spawn (f 0) 1 (new_machine s)"
  let ?m3 = "spawn (f (Suc 0)) 1 ?m2"
  obtain s2 where c2: "rtos_create_task a 1 (f 0) (rtos_init (reset_counters s)) = (1, s2)"
    and p2: "prepared 100 ?m2 (cleared s) s2"
    by (rule test_create [OF p0 _ assms(2), of a 1]) (simp_all add: new_machine_def)
  obtain s3 where c3: "rtos_create_task b 1 (f (Suc 0)) s2 = (2, s3)" and p3: "prepared 100 ?m3 (cleared s) s3"
    by (rule test_create [OF p2 _ assms(3), of b 1]) (simp_all add: new_machine_def spawn_def)
  obtain s4 where c4: "rtos_create_task c 1 (f 2) s3 = (3, s4)" and p4: "prepared 100 (spawn (f 2) 1 ?m3) (cleared s) s4"
    by (rule test_create [OF p3 _ assms(4), of c 1]) (simp_all add: new_machine_def spawn_def)
  from c2 c3 c4 p4 show thesis by (rule that)
qed

lemma multiple_ready_tasks: "passes test_multiple_ready_tasks_in_queue ''PASS: multiple READY tasks in queue''"
  unfolding passes_def
proof (intro allI impI)
  fix s
  assume st: "test_statics s"
  obtain s2 s3 s4 where c: "rtos_create_task ''Queue Task 0'' 1 (queue_fn 0) (rtos_init (reset_counters s)) = (1, s2)"
    "rtos_create_task ''Queue Task 1'' 1 (queue_fn (Suc 0)) s2 = (2, s3)"
    "rtos_create_task ''Queue Task 2'' 1 (queue_fn 2) s3 = (3, s4)"
    and p4: "prepared 100 (spawn (queue_fn 2) 1 (spawn (queue_fn (Suc 0)) 1 (spawn (queue_fn 0) 1 (new_machine s)))) (cleared s) s4"
    by (rule three_creates [OF st, of queue_fn]) simp_all
  obtain m v s5 where r: "rtos_run test_app 3 s4 = Inr s5" and p5: "prepared 1 m v s5"
    and e: "(m, v) = (spec_cycle test_spec (\<lambda>_ _ md. md) ^^ nat 3)
      (spawn (queue_fn 2) 1 (spawn (queue_fn (Suc 0)) 1 (spawn (queue_fn 0) 1 (new_machine s))), cleared s)"
    by (rule test_run [OF p4, of 3]) simp_all
  have v: "v = (cleared s)\<lparr>queue_runs := [1, 1, 1]\<rparr>" and l: "length (ready_line m) = 3"
    using e by (simp_all add: run_test)
  have "tvars s5 = v" using p5 by (simp add: prepared_def)
  then show "\<exists>s'. test_multiple_ready_tasks_in_queue s = Inr s' \<and> test_statics s' \<and>
      said (tvars s') = said (tvars s) @ [''PASS: multiple READY tasks in queue'']"
    using test_ready_count [OF p4] test_ready_count [OF p5] l puts_statics [OF p5]
    by (simp add: test_multiple_ready_tasks_in_queue_def c r v spawn_def new_machine_def cleared_def)
qed

lemma context_ownership: "passes test_task_context_ownership ''PASS: private task CPU context ownership''"
  unfolding passes_def
proof (intro allI impI)
  fix s
  assume st: "test_statics s"
  obtain s2 s3 s4 where c: "rtos_create_task ''Context Task 0'' 1 (context_fn 0) (rtos_init (reset_counters s)) = (1, s2)"
    "rtos_create_task ''Context Task 1'' 1 (context_fn (Suc 0)) s2 = (2, s3)"
    "rtos_create_task ''Context Task 2'' 1 (context_fn 2) s3 = (3, s4)"
    and p4: "prepared 100 (spawn (context_fn 2) 1 (spawn (context_fn (Suc 0)) 1 (spawn (context_fn 0) 1 (new_machine s)))) (cleared s) s4"
    by (rule three_creates [OF st, of context_fn]) simp_all
  obtain m v s5 where r: "rtos_run test_app 3 s4 = Inr s5" and p5: "prepared 1 m v s5"
    and e: "(m, v) = (spec_cycle test_spec (\<lambda>_ _ md. md) ^^ nat 3)
      (spawn (context_fn 2) 1 (spawn (context_fn (Suc 0)) 1 (spawn (context_fn 0) 1 (new_machine s))), cleared s)"
    by (rule test_run [OF p4, of 3]) simp_all
  have v: "v = (cleared s)\<lparr>context_runs := [Some 0, Some 1, Some 2]\<rparr>"
    using e by (simp add: run_test)
  have "tvars s5 = v" using p5 by (simp add: prepared_def)
  then show "\<exists>s'. test_task_context_ownership s = Inr s' \<and> test_statics s' \<and>
      said (tvars s') = said (tvars s) @ [''PASS: private task CPU context ownership'']"
    using puts_statics [OF p5]
    by (simp add: test_task_context_ownership_def c r v spawn_def new_machine_def cleared_def)
qed

text \<open>Each control block has its own stack, of full size and with nothing on it yet.\<close>

definition stacks_unused :: "test_state \<Rightarrow> bool" where
  "stacks_unused s \<longleftrightarrow> (\<forall>i<task_count s. stack_pointer (tcb s i) = RTOS_STACK_WORDS)"

lemma create_unused:
  assumes p: "prepared n m v s" and f: "f \<in> test_fns" and u: "stacks_unused s"
    and c: "rtos_create_task nm prio f s = (k, s')"
  shows "stacks_unused s'"
proof -
  have "kernel_inv s" using p by (simp add: prepared_def)
  then have "\<forall>i<task_count (snd (rtos_create_task nm prio f s)).
      stack_pointer (tcb (snd (rtos_create_task nm prio f s)) i) = RTOS_STACK_WORDS"
  proof (rule create_all [where P = "\<lambda>t. stack_pointer t = RTOS_STACK_WORDS"])
    show "f \<noteq> 0" by (rule test_fns_nonzero [OF f])
    show "\<forall>i<task_count s. stack_pointer (tcb s i) = RTOS_STACK_WORDS" using u by (simp add: stacks_unused_def)
    show "stack_pointer (created_tcb i nm prio f) = RTOS_STACK_WORDS" for i by (simp add: created_tcb_def)
    show "stack_pointer t = RTOS_STACK_WORDS \<Longrightarrow> stack_pointer x = RTOS_STACK_WORDS" if "tcb_fixed t = tcb_fixed x" for t x
      using tcb_fixed_eqD(9) [OF that] by simp
  qed
  then have "stacks_unused (snd (rtos_create_task nm prio f s))" by (simp add: stacks_unused_def)
  then show ?thesis by (simp add: c)
qed

lemma stack_getters:
  assumes p: "prepared n m v s" and u: "stacks_unused s" and i: "i < length (jobs m)"
  shows "rtos_get_task_stack_base (int i + 1) s = Some i"
    and "rtos_get_task_stack_pointer (int i + 1) s = Some (i, 32)"
    and "rtos_get_task_stack_size (int i + 1) s = 256"
proof -
  have inv: "sched_inv s" and m: "machine_of s = m" using p by (simp_all add: prepared_def kernel_invD)
  have tc: "task_count s = length (jobs m)" using machine_of_jobs(1) [OF inv] by (simp add: m)
  have idx: "task_index_from_id (int i + 1) s = int i" using i task_index_of_id [OF inv, of "int i + 1"] by (simp add: tc)
  have "tcb_ok i (tcb s i)" using sched_invD(10) [OF inv, of i] i by (simp add: tc)
  then have "stack_pointer (tcb s i) = 32" "stack_size (tcb s i) = 256"
    using u i by (simp_all add: stacks_unused_def tc tcb_ok_def RTOS_STACK_WORDS_def RTOS_STACK_SIZE_def)
  then show "rtos_get_task_stack_base (int i + 1) s = Some i"
    "rtos_get_task_stack_pointer (int i + 1) s = Some (i, 32)"
    "rtos_get_task_stack_size (int i + 1) s = 256"
    by (simp_all add: rtos_get_task_stack_base_def rtos_get_task_stack_pointer_def rtos_get_task_stack_size_def idx Let_def)
qed

lemma task_stack_allocation:
  assumes sz: "256 \<le> sz"
  shows "passes (test_task_stack_allocation (stack_address arr sz off)) ''PASS: private task stack allocation''"
  unfolding passes_def
proof (intro allI impI)
  fix s
  assume st: "test_statics s"
  let ?m2 = "spawn ready_fn 1 (new_machine s)"
  let ?m = "spawn ready_fn 1 (spawn ready_fn 1 ?m2)"
  note p0 = test_init [OF st]
  obtain s2 where c2: "rtos_create_task ''Stack Task A'' 1 ready_fn (rtos_init (reset_counters s)) = (1, s2)"
    and p2: "prepared 100 ?m2 (cleared s) s2"
    by (rule test_create [OF p0, of ready_fn "''Stack Task A''" 1]) (simp_all add: new_machine_def)
  obtain s3 where c3: "rtos_create_task ''Stack Task B'' 1 ready_fn s2 = (2, s3)"
    and p3: "prepared 100 (spawn ready_fn 1 ?m2) (cleared s) s3"
    by (rule test_create [OF p2, of ready_fn "''Stack Task B''" 1]) (simp_all add: new_machine_def spawn_def)
  obtain s4 where c4: "rtos_create_task ''Stack Task C'' 1 ready_fn s3 = (3, s4)" and p4: "prepared 100 ?m (cleared s) s4"
    by (rule test_create [OF p3, of ready_fn "''Stack Task C''" 1]) (simp_all add: new_machine_def spawn_def)
  have "task_count (rtos_init (reset_counters s)) = 0"
    using st by (intro rtos_init_start) (simp add: test_statics_def statics_shape_def reset_counters_def)
  then have "stacks_unused (rtos_init (reset_counters s))" by (simp add: stacks_unused_def)
  then have u: "stacks_unused s4"
    using create_unused [OF p0 _ _ c2] create_unused [OF p2 _ _ c3] create_unused [OF p3 _ _ c4] by simp
  have l: "length (jobs ?m) = 3" by (simp add: spawn_def new_machine_def)
  note g = stack_getters [OF p4 u, unfolded l, of 0] stack_getters [OF p4 u, unfolded l, of 1]
    stack_getters [OF p4 u, unfolded l, of 2]
  show "\<exists>s'. test_task_stack_allocation (stack_address arr sz off) s = Inr s' \<and> test_statics s' \<and>
      said (tvars s') = said (tvars s) @ [''PASS: private task stack allocation'']"
    using sz g puts_statics [OF p4]
    by (simp add: test_task_stack_allocation_def c2 c3 c4 ranges_overlap_def stack_address_def RTOS_STACK_SIZE_def
        cleared_def)
qed

text \<open>The tests of the contexts change only the active context.\<close>

lemma ctx_put_statics:
  assumes "test_statics s"
  shows "test_statics (puts line (ctx_put m s)) \<and> said (tvars (puts line (ctx_put m s))) = said (tvars s) @ [line]"
  using assms by (simp add: test_statics_def statics_shape_def puts_def ctx_put_def)

lemma context_save: "passes test_context_save_updates_destination ''PASS: context save updates only destination''"
  unfolding passes_def
  using ctx_put_statics
  by (simp add: test_context_save_updates_destination_def set_regs_def context_save_def context_copy_def Let_def)

lemma context_restores: "passes test_context_restore_expected_registers ''PASS: context restore loads expected registers''"
  unfolding passes_def
  using ctx_put_statics
  by (simp add: test_context_restore_expected_registers_def set_regs_def context_active_def)

lemma contexts_kept: "passes test_contexts_do_not_overwrite ''PASS: CPU contexts do not overwrite one another''"
  unfolding passes_def
  using ctx_put_statics
  by (simp add: test_contexts_do_not_overwrite_def set_regs_def context_save_def context_copy_def init_regs_def Let_def
      queue_fn_def context_clear_def)

lemma passes_seq:
  assumes "passes t line" and "test_statics s"
  obtains s' where "t s = Inr s'" and "test_statics s'" and "said (tvars s') = said (tvars s) @ [line]"
  using assms by (auto simp: passes_def)

section \<open>Properties\<close>

text \<open>
  C16: The test program passes. From any start of the program, with the stacks inside control blocks at least
  as large as a stack, \<open>main\<close> of \<open>test_states.c\<close> returns 0: no call faults, none of its 66 assertions
  fails, and it prints the nine lines of its tests and the last one, in order.
\<close>

theorem unit_tests_pass:
  assumes "0 < base" and "256 \<le> sz"
  shows "\<exists>s'. test_main (stack_address arr sz off) (test_boot base) = Inr (0, s') \<and>
    said (tvars s') =
      [''PASS: READY task execution'', ''PASS: BLOCKED task skipping'', ''PASS: SUSPENDED task skipping'',
       ''PASS: multiple READY tasks in queue'', ''PASS: private task stack allocation'',
       ''PASS: private task CPU context ownership'', ''PASS: context save updates only destination'',
       ''PASS: context restore loads expected registers'', ''PASS: CPU contexts do not overwrite one another'',
       ''All task state, stack, and context tests passed'']"
proof -
  have st: "test_statics (test_boot base)" and said0: "said (tvars (test_boot base)) = []"
    using statics_shape_boot [OF assms(1)] by (simp_all add: test_statics_def test_boot_def) (simp_all add: boot_def)
  obtain a where a: "test_ready_task_execution (test_boot base) = Inr a" "test_statics a"
    "said (tvars a) = [''PASS: READY task execution'']"
    using passes_seq [OF ready_task_execution st] said0 by (metis append_Nil)
  obtain b where b: "test_blocked_task_skipping a = Inr b" "test_statics b"
    "said (tvars b) = said (tvars a) @ [''PASS: BLOCKED task skipping'']"
    using passes_seq [OF blocked_task_skipping a(2)] .
  obtain c where c: "test_suspended_task_skipping b = Inr c" "test_statics c"
    "said (tvars c) = said (tvars b) @ [''PASS: SUSPENDED task skipping'']"
    using passes_seq [OF suspended_task_skipping b(2)] .
  obtain d where d: "test_multiple_ready_tasks_in_queue c = Inr d" "test_statics d"
    "said (tvars d) = said (tvars c) @ [''PASS: multiple READY tasks in queue'']"
    using passes_seq [OF multiple_ready_tasks c(2)] .
  obtain e where e: "test_task_stack_allocation (stack_address arr sz off) d = Inr e" "test_statics e"
    "said (tvars e) = said (tvars d) @ [''PASS: private task stack allocation'']"
    using passes_seq [OF task_stack_allocation [OF assms(2)] d(2)] .
  obtain f where f: "test_task_context_ownership e = Inr f" "test_statics f"
    "said (tvars f) = said (tvars e) @ [''PASS: private task CPU context ownership'']"
    using passes_seq [OF context_ownership e(2)] .
  obtain g where g: "test_context_save_updates_destination f = Inr g" "test_statics g"
    "said (tvars g) = said (tvars f) @ [''PASS: context save updates only destination'']"
    using passes_seq [OF context_save f(2)] .
  obtain h where h: "test_context_restore_expected_registers g = Inr h" "test_statics h"
    "said (tvars h) = said (tvars g) @ [''PASS: context restore loads expected registers'']"
    using passes_seq [OF context_restores g(2)] .
  obtain i where i: "test_contexts_do_not_overwrite h = Inr i" "test_statics i"
    "said (tvars i) = said (tvars h) @ [''PASS: CPU contexts do not overwrite one another'']"
    using passes_seq [OF contexts_kept h(2)] .
  have "test_main (stack_address arr sz off) (test_boot base) =
      Inr (0, puts ''All task state, stack, and context tests passed'' i)"
    by (simp add: test_main_def a(1) b(1) c(1) d(1) e(1) f(1) g(1) h(1) i(1))
  then show ?thesis
    by (simp add: puts_def i(3) h(3) g(3) f(3) e(3) d(3) c(3) b(3) a(3))
qed

theorem unit_tests_pass_witness:
  "\<exists>s'. test_main (stack_address 0x20000000 448 40) (test_boot 4096) = Inr (0, s')"
  using unit_tests_pass [of 4096 448 "0x20000000" 40] by auto

end
