(* ===== verification/Real_Time.thy ===== *)
theory Real_Time
  imports Unit_Tests
begin

text \<open>
  A real-time guarantee: a task of the greatest priority that sleeps \<open>n\<close> ticks each time it runs is run
  at every \<open>n\<close>-th tick exactly, whatever the other tasks and the timer callbacks do that leave it alone. It is
  proved on the abstract machine and carried to the scheduling loop by the simulation of
  \<open>Sched_Spec\<close>.
\<close>

section \<open>Machines\<close>

text \<open>The line holds each ready job once and no other, and the current job exists.\<close>

definition orderly :: "machine \<Rightarrow> bool" where
  "orderly m \<longleftrightarrow> distinct (ready_line m) \<and>
     set (ready_line m) = {j. j < length (jobs m) \<and> j_state (jobs m ! j) = TASK_READY} \<and>
     (\<forall>c. current m = Some c \<longrightarrow> c < length (jobs m))"

text \<open>Job \<open>i\<close> alone runs \<open>f\<close>, and all others have less priority.\<close>

definition sole :: "nat \<Rightarrow> addr \<Rightarrow> machine \<Rightarrow> bool" where
  "sole i f m \<longleftrightarrow> i < length (jobs m) \<and> j_function (jobs m ! i) = f \<and>
     (\<forall>j<length (jobs m). j \<noteq> i \<longrightarrow>
        j_priority (jobs m ! j) < j_priority (jobs m ! i) \<and> j_function (jobs m ! j) \<noteq> f)"

definition asleep_for :: "nat \<Rightarrow> int \<Rightarrow> machine \<Rightarrow> bool" where
  "asleep_for i k m \<longleftrightarrow> waits BLOCK_SLEEP (jobs m ! i) \<and> j_sleep (jobs m ! i) = k"

definition is_awake :: "nat \<Rightarrow> machine \<Rightarrow> bool" where
  "is_awake i m \<longleftrightarrow> j_state (jobs m ! i) = TASK_READY"

definition status :: "nat \<Rightarrow> machine \<Rightarrow> TaskState \<times> BlockReason \<times> int" where
  "status i m = (j_state (jobs m ! i), j_reason (jobs m ! i), j_sleep (jobs m ! i))"

lemma status_asleep: "status i m' = status i m \<Longrightarrow> asleep_for i k m' = asleep_for i k m"
    "status i m' = status i m \<Longrightarrow> is_awake i m' = is_awake i m"
  by (simp_all add: status_def asleep_for_def is_awake_def waits_def)

lemma orderly_updates:
  assumes "orderly m" and "\<And>j. j_state (g j) = j_state j"
  shows "orderly (m\<lparr>jobs := (jobs m)[i := g (jobs m ! i)]\<rparr>)"
  using assms by (cases "i < length (jobs m)") (auto simp: orderly_def nth_list_update list_update_beyond)

lemma orderly_move:
  assumes "orderly m" and "i < length (jobs m)"
  shows "orderly (move i st r m)"
  using assms by (auto simp: orderly_def move_def nth_list_update)

lemma sole_cong:
  assumes "map identity (jobs m') = map identity (jobs m)"
  shows "sole i f m' = sole i f m"
proof -
  have l: "length (jobs m') = length (jobs m)" using assms by (metis length_map)
  have "identity (jobs m' ! j) = identity (jobs m ! j)" if "j < length (jobs m)" for j
    using assms that l by (metis nth_map)
  then have "j_function (jobs m' ! j) = j_function (jobs m ! j) \<and> j_priority (jobs m' ! j) = j_priority (jobs m ! j)"
    if "j < length (jobs m)" for j
    using that by (simp add: identity_def)
  then show ?thesis by (auto simp: sole_def l)
qed

lemma sole_move [simp]: "sole i f (move j st r m) = sole i f m"
  by (rule sole_cong) (simp add: move_def map_update_same)

lemma move_fields [simp]:
  "length (jobs (move j st r m)) = length (jobs m)" "current (move j st r m) = current m"
  "j \<noteq> i \<Longrightarrow> status i (move j st r m) = status i m"
  by (simp_all add: move_def status_def)

section \<open>What leaves a job alone\<close>

definition spares :: "('d \<Rightarrow> int) \<Rightarrow> nat \<Rightarrow> addr \<Rightarrow> machine \<times> 'd \<Rightarrow> machine \<times> 'd \<Rightarrow> bool" where
  "spares runs i f x y \<longleftrightarrow> orderly (fst y) \<and> sole i f (fst y) \<and> status i (fst y) = status i (fst x) \<and>
     length (jobs (fst x)) \<le> length (jobs (fst y)) \<and> runs (snd y) = runs (snd x)"

text \<open>
  Task function \<open>f\<close> puts its job to sleep for \<open>n\<close> ticks; other functions leave the job alone when it is asleep,
  and callbacks also when it is ready. \<open>runs\<close> counts the calls of \<open>f\<close>.
\<close>

definition periodic :: "(addr \<Rightarrow> 'd move) \<Rightarrow> (addr \<Rightarrow> addr \<Rightarrow> 'd move) \<Rightarrow> ('d \<Rightarrow> int) \<Rightarrow> nat \<Rightarrow> addr \<Rightarrow> int \<Rightarrow> bool" where
  "periodic sem call runs i f n \<longleftrightarrow>
     (\<forall>m d y. orderly m \<and> sole i f m \<and> current m = Some i \<and> j_state (jobs m ! i) = TASK_RUNNING \<and> sem f (m, d) y \<longrightarrow>
        orderly (fst y) \<and> sole i f (fst y) \<and> asleep_for i n (fst y) \<and> runs (snd y) = runs d + 1) \<and>
     (\<forall>g m d y k. g \<noteq> f \<and> orderly m \<and> sole i f m \<and> asleep_for i k m \<and> current m \<noteq> Some i \<and> sem g (m, d) y \<longrightarrow>
        spares runs i f (m, d) y) \<and>
     (\<forall>cb a m d y k. orderly m \<and> sole i f m \<and> (asleep_for i k m \<or> is_awake i m) \<and> call cb a (m, d) y \<longrightarrow>
        spares runs i f (m, d) y)"

lemma periodicD:
  assumes "periodic sem call runs i f n"
  shows "orderly m \<Longrightarrow> sole i f m \<Longrightarrow> current m = Some i \<Longrightarrow> j_state (jobs m ! i) = TASK_RUNNING \<Longrightarrow>
      sem f (m, d) y \<Longrightarrow> orderly (fst y) \<and> sole i f (fst y) \<and> asleep_for i n (fst y) \<and> runs (snd y) = runs d + 1"
    and "g \<noteq> f \<Longrightarrow> orderly m \<Longrightarrow> sole i f m \<Longrightarrow> asleep_for i k m \<Longrightarrow> current m \<noteq> Some i \<Longrightarrow>
      sem g (m, d) y \<Longrightarrow> spares runs i f (m, d) y"
    and "orderly m \<Longrightarrow> sole i f m \<Longrightarrow> asleep_for i k m \<or> is_awake i m \<Longrightarrow> call cb a (m, d) y \<Longrightarrow>
      spares runs i f (m, d) y"
proof -
  note P = assms [unfolded periodic_def]
  show "orderly m \<Longrightarrow> sole i f m \<Longrightarrow> current m = Some i \<Longrightarrow> j_state (jobs m ! i) = TASK_RUNNING \<Longrightarrow>
      sem f (m, d) y \<Longrightarrow> orderly (fst y) \<and> sole i f (fst y) \<and> asleep_for i n (fst y) \<and> runs (snd y) = runs d + 1"
    by (rule P [THEN conjunct1, rule_format], intro conjI)
  show "g \<noteq> f \<Longrightarrow> orderly m \<Longrightarrow> sole i f m \<Longrightarrow> asleep_for i k m \<Longrightarrow> current m \<noteq> Some i \<Longrightarrow>
      sem g (m, d) y \<Longrightarrow> spares runs i f (m, d) y"
    by (rule P [THEN conjunct2, THEN conjunct1, rule_format], intro conjI)
  show "orderly m \<Longrightarrow> sole i f m \<Longrightarrow> asleep_for i k m \<or> is_awake i m \<Longrightarrow> call cb a (m, d) y \<Longrightarrow>
      spares runs i f (m, d) y"
    by (rule P [THEN conjunct2, THEN conjunct2, rule_format], intro conjI)
qed

lemma spares_ok:
  assumes "spares runs i f x y"
  shows "orderly (fst y)" and "sole i f (fst y)" and "status i (fst y) = status i (fst x)"
    and "length (jobs (fst x)) \<le> length (jobs (fst y))" and "runs (snd y) = runs (snd x)"
    and "asleep_for i k (fst y) = asleep_for i k (fst x)" and "is_awake i (fst y) = is_awake i (fst x)"
proof -
  show st: "status i (fst y) = status i (fst x)" using assms by (simp add: spares_def)
  show "asleep_for i k (fst y) = asleep_for i k (fst x)" by (rule status_asleep(1) [OF st])
  show "is_awake i (fst y) = is_awake i (fst x)" by (rule status_asleep(2) [OF st])
qed (use assms in \<open>simp_all add: spares_def\<close>)

lemma spares_refl: "orderly m \<Longrightarrow> sole i f m \<Longrightarrow> spares runs i f (m, d) (m, d)"
  by (simp add: spares_def)

lemma spares_trans: "spares runs i f x y \<Longrightarrow> spares runs i f y z \<Longrightarrow> spares runs i f x z"
  by (simp add: spares_def)

section \<open>A tick\<close>

lemma tick_fields [simp]: "length (jobs (tick m)) = length (jobs m)" "current (tick m) = current m"
    "alarms (tick m) = alarms m"
  by (simp_all add: tick_def)

lemma sole_tick [simp]: "sole i f (tick m) = sole i f m"
  by (rule sole_cong) (simp add: tick_def comp_def)

lemma count_down_state: "j_state (count_down j) = (if due j then TASK_READY else j_state j)"
  by (auto simp: count_down_def due_def)

lemma orderly_tick:
  assumes "orderly m"
  shows "orderly (tick m)"
  using assms by (auto simp: orderly_def tick_def count_down_state due_def waits_def)

lemma tick_asleep:
  assumes "i < length (jobs m)" and "asleep_for i k m"
  shows "1 < k \<Longrightarrow> asleep_for i (k - 1) (tick m)" and "k \<le> 1 \<Longrightarrow> is_awake i (tick m)"
  using assms by (simp_all add: asleep_for_def is_awake_def tick_def count_down_def waits_def)

lemma tick_awake: "i < length (jobs m) \<Longrightarrow> is_awake i m \<Longrightarrow> is_awake i (tick m)"
  by (simp add: is_awake_def tick_def count_down_def waits_def)

section \<open>The alarms\<close>

lemma on_alarm_spares: "orderly m \<Longrightarrow> sole i f m \<Longrightarrow> spares runs i f (m, d) (on_alarm k g m, d)"
  by (simp add: spares_def on_alarm_def orderly_def sole_def status_def)

lemma alarm_move_spares:
  assumes p: "periodic sem call runs i f n" and ok: "orderly (fst x)" "sole i f (fst x)"
    and st: "asleep_for i k (fst x) \<or> is_awake i (fst x)" and a: "alarm_move call j x y"
  shows "spares runs i f x y"
  using a
proof cases
  case (count m a d)
  then show ?thesis using ok by (simp add: wind_def on_alarm_spares)
next
  case (ring m a d m' d')
  have w: "spares runs i f (m, d) (wind j m, d)" using ok ring(1) by (simp add: wind_def on_alarm_spares)
  note W = spares_ok [OF w, simplified]
  have "asleep_for i k (wind j m) \<or> is_awake i (wind j m)" using st ring(1) W(6,7) by simp
  with W(1,2) have c: "spares runs i f (wind j m, d) (m', d')" by (rule periodicD(3) [OF p]) (rule ring(6))
  note C = spares_ok [OF c, simplified]
  have "spares runs i f (m', d') (rewind j m', d')" unfolding rewind_def by (rule on_alarm_spares [OF C(1,2)])
  then show ?thesis unfolding ring(1,2) by (rule spares_trans [OF spares_trans [OF w c]])
qed (use ok in \<open>simp_all add: spares_refl\<close>)

lemma ring_move_spares:
  assumes p: "periodic sem call runs i f n" and ok: "orderly (fst x)" "sole i f (fst x)"
    and st: "asleep_for i k (fst x) \<or> is_awake i (fst x)" and a: "ring_move call j x y"
  shows "spares runs i f x y"
  using a ok st
proof (induction rule: ring_move.induct [case_names none more])
  case (none x)
  then show ?case by (cases x) (simp add: spares_refl)
next
  case (more j x y z)
  then have y: "spares runs i f x y" by blast
  note Y = spares_ok [OF y]
  have "spares runs i f y z"
    using more.hyps(2) more.prems(3) Y(6,7) by (intro alarm_move_spares [OF p Y(1,2)]) simp_all
  with y show ?case by (rule spares_trans)
qed

section \<open>A turn\<close>

lemma pick_ready:
  assumes "orderly m" and "pick m = Some j"
  shows "j < length (jobs m)" and "j_state (jobs m ! j) = TASK_READY"
proof -
  obtain b where b: "first_max (\<lambda>i. j_priority (jobs m ! i)) (ready_line m) = Some b"
    using assms(2) by (auto simp: pick_def split: option.splits)
  have "b < length (jobs m) \<and> j_state (jobs m ! b) = TASK_READY"
    using first_max_in [OF b] assms(1) by (simp add: orderly_def)
  then have "j < length (jobs m) \<and> j_state (jobs m ! j) = TASK_READY"
    using assms b by (auto simp: pick_def orderly_def split: option.splits if_splits)
  then show "j < length (jobs m)" and "j_state (jobs m ! j) = TASK_READY" by simp_all
qed

lemma pick_sole:
  assumes ok: "orderly m" "sole i f m" and a: "is_awake i m"
  shows "pick m = Some i"
proof -
  have i: "i \<in> set (ready_line m)" using ok a by (simp add: orderly_def sole_def is_awake_def)
  then obtain b where b: "first_max (\<lambda>i. j_priority (jobs m ! i)) (ready_line m) = Some b"
    by (cases "first_max (\<lambda>i. j_priority (jobs m ! i)) (ready_line m)") auto
  have less: "j_priority (jobs m ! j) < j_priority (jobs m ! i)" if "j < length (jobs m)" "j \<noteq> i" for j
    using ok(2) that by (simp add: sole_def)
  have "b < length (jobs m)" using first_max_in [OF b] ok(1) by (simp add: orderly_def)
  then have bi: "b = i" using less [of b] first_max_Some_ge [OF b i] by force
  have "c = i" if "current m = Some c" "j_priority (jobs m ! c) = j_priority (jobs m ! i)" for c
    using ok(1) less [of c] that by (force simp: orderly_def)
  then show ?thesis using b by (auto simp: pick_def bi split: option.split)
qed

lemma slice_keeps [simp]:
  "sole i f (m\<lparr>jobs := (jobs m)[j := (jobs m ! j)\<lparr>j_slice := k\<rparr>]\<rparr>) = sole i f m"
  "status i (m\<lparr>jobs := (jobs m)[j := (jobs m ! j)\<lparr>j_slice := k\<rparr>]\<rparr>) = status i m"
  "sole i f (m\<lparr>current := cur\<rparr>) = sole i f m" "status i (m\<lparr>current := cur\<rparr>) = status i m"
proof -
  show "sole i f (m\<lparr>jobs := (jobs m)[j := (jobs m ! j)\<lparr>j_slice := k\<rparr>]\<rparr>) = sole i f m"
    by (rule sole_cong) (simp add: map_update_same)
  show "status i (m\<lparr>jobs := (jobs m)[j := (jobs m ! j)\<lparr>j_slice := k\<rparr>]\<rparr>) = status i m"
    by (cases "i = j"; cases "j < length (jobs m)") (simp_all add: status_def list_update_beyond)
qed (simp_all add: sole_def status_def)

lemma slice_orderly:
  "orderly m \<Longrightarrow> orderly (m\<lparr>jobs := (jobs m)[j := (jobs m ! j)\<lparr>j_slice := k\<rparr>]\<rparr>)"
  by (rule orderly_updates) simp_all

lemma turn_to_ok:
  assumes ok: "orderly m" "sole i f m" and j: "j < length (jobs m)"
  shows "orderly (turn_to j m)" and "sole i f (turn_to j m)" and "current (turn_to j m) = Some j"
    and "j_state (jobs (turn_to j m) ! j) = TASK_RUNNING" and "length (jobs (turn_to j m)) = length (jobs m)"
    and "j \<noteq> i \<Longrightarrow> status i (turn_to j m) = status i m"
proof -
  obtain k where t: "turn_to j m = move j TASK_RUNNING BLOCK_NONE
      (m\<lparr>jobs := (jobs m)[j := (jobs m ! j)\<lparr>j_slice := k\<rparr>], current := Some j\<rparr>)"
    by (simp add: turn_to_def)
  have "orderly (m\<lparr>jobs := (jobs m)[j := (jobs m ! j)\<lparr>j_slice := k\<rparr>], current := Some j\<rparr>)"
    using slice_orderly [OF ok(1), of j k] j by (simp add: orderly_def)
  then show "orderly (turn_to j m)" using j by (simp add: t orderly_move)
  show "sole i f (turn_to j m)" "current (turn_to j m) = Some j" "length (jobs (turn_to j m)) = length (jobs m)"
    "j \<noteq> i \<Longrightarrow> status i (turn_to j m) = status i m"
    using ok(2) by (simp_all add: t)
  show "j_state (jobs (turn_to j m) ! j) = TASK_RUNNING" using j by (simp add: t move_def)
qed

lemma turn_asleep:
  assumes p: "periodic sem call runs i f n" and ok: "orderly m" "sole i f m" and a: "asleep_for i k m"
    and t: "turn_move sem (m, d) y"
  shows "spares runs i f (m, d) y"
  using t
proof cases
  case idle
  have "spares runs i f (m, d) (rest m, d)"
    using ok by (cases "current m") (simp_all add: rest_def spares_def slice_orderly)
  then show ?thesis by (simp only: idle)
next
  case (run j m' d')
  note j = pick_ready [OF ok(1) run(2)]
  have ji: "j \<noteq> i" using j(2) a by (auto simp: asleep_for_def waits_def)
  note T = turn_to_ok [OF ok j(1)]
  have "j_function (jobs (turn_to j m) ! j) \<noteq> f" using T(2,5) j(1) ji by (simp add: sole_def)
  moreover have "asleep_for i k (turn_to j m)" using status_asleep(1) [OF T(6) [OF ji]] a by blast
  ultimately have c: "spares runs i f (turn_to j m, d) (m', d')"
    using T(1-3) ji run(3) by (intro periodicD(2) [OF p]) simp_all
  note C = spares_ok [OF c, simplified]
  have "spares runs i f (m', d') (end_turn j m', d')"
    using C j(1) T(5) ji by (simp add: spares_def end_turn_def orderly_move)
  with c have "spares runs i f (turn_to j m, d) (end_turn j m', d')" by (rule spares_trans)
  then show ?thesis using T(5) T(6) [OF ji] by (simp add: run(1) spares_def)
qed

lemma turn_awake:
  assumes p: "periodic sem call runs i f n" and ok: "orderly m" "sole i f m" and a: "is_awake i m"
    and t: "turn_move sem (m, d) y"
  shows "orderly (fst y) \<and> sole i f (fst y) \<and> asleep_for i n (fst y) \<and> runs (snd y) = runs d + 1"
  using t
proof cases
  case idle
  then show ?thesis using pick_sole [OF ok a] by simp
next
  case (run j m' d')
  have j: "j = i" using run(2) pick_sole [OF ok a] by simp
  have i: "i < length (jobs m)" using ok(2) by (simp add: sole_def)
  note T = turn_to_ok [OF ok i]
  have "j_function (jobs (turn_to i m) ! i) = f" using T(2) by (simp add: sole_def)
  then have c: "orderly m' \<and> sole i f m' \<and> asleep_for i n m' \<and> runs d' = runs d + 1"
    using periodicD(1) [OF p T(1-4), of d "(m', d')"] run(3) by (simp add: j)
  then have "end_turn i m' = m'" by (simp add: end_turn_def asleep_for_def waits_def)
  then show ?thesis using c by (simp add: run(1) j)
qed

section \<open>A cycle, and many\<close>

lemma cycle_asleep:
  assumes p: "periodic sem call runs i f n" and ok: "orderly (fst x)" "sole i f (fst x)" "asleep_for i k (fst x)"
    and k: "1 < k" and c: "cycle_move sem call x y"
  shows "orderly (fst y) \<and> sole i f (fst y) \<and> asleep_for i (k - 1) (fst y) \<and> runs (snd y) = runs (snd x)"
  using c
proof cases
  case (cycle m d z)
  have t: "orderly (tick m)" "sole i f (tick m)" "asleep_for i (k - 1) (tick m)"
    using ok k tick_asleep(1) [of i m k] by (simp_all add: cycle(1) orderly_tick) (simp add: sole_def)
  then have r: "spares runs i f (tick m, d) z"
    using cycle(2) by (intro ring_move_spares [OF p, where k = "k - 1"]) simp_all
  note R = spares_ok [OF r, simplified]
  have "asleep_for i (k - 1) (fst z)" using t(3) R(6) by simp
  then have "spares runs i f z y"
    using turn_asleep [OF p R(1,2), of "k - 1" "snd z" y] cycle(3) by simp
  note Y = spares_ok [OF this]
  then show ?thesis using \<open>asleep_for i (k - 1) (fst z)\<close> R(5) by (simp add: cycle(1))
qed

lemma cycle_due:
  assumes p: "periodic sem call runs i f n" and ok: "orderly (fst x)" "sole i f (fst x)"
    and due: "is_awake i (fst x) \<or> asleep_for i 1 (fst x)" and c: "cycle_move sem call x y"
  shows "orderly (fst y) \<and> sole i f (fst y) \<and> asleep_for i n (fst y) \<and> runs (snd y) = runs (snd x) + 1"
  using c
proof cases
  case (cycle m d z)
  have "i < length (jobs m)" using ok(2) by (simp add: cycle(1) sole_def)
  then have t: "orderly (tick m)" "sole i f (tick m)" "is_awake i (tick m)"
    using ok due tick_asleep(2) [of i m 1] tick_awake by (auto simp: cycle(1) orderly_tick)
  then have r: "spares runs i f (tick m, d) z"
    using cycle(2) by (intro ring_move_spares [OF p]) simp_all
  note R = spares_ok [OF r, simplified]
  have "is_awake i (fst z)" using t(3) R(7) by simp
  from turn_awake [OF p R(1,2) this, of "snd z" y] cycle(3) show ?thesis by (simp add: R(5) cycle(1))
qed

text \<open>After \<open>u + 1\<close> cycles.\<close>

lemma cycles_on_time:
  assumes p: "periodic sem call runs i f (int n)" and n: "0 < n"
    and ok: "orderly (fst x)" "sole i f (fst x)" "is_awake i (fst x)"
    and c: "(cycle_move sem call ^^ Suc u) x y"
  shows "orderly (fst y) \<and> sole i f (fst y) \<and> asleep_for i (int (n - u mod n)) (fst y) \<and>
    runs (snd y) = runs (snd x) + int (u div n) + 1"
  using c
proof (induction u arbitrary: y)
  case 0
  then have "cycle_move sem call x y" by (simp add: eq_OO)
  from cycle_due [OF p ok(1,2) _ this] ok(3) show ?case by simp
next
  case (Suc u)
  from Suc.prems obtain z where z: "(cycle_move sem call ^^ Suc u) x z" "cycle_move sem call z y"
    by (blast elim: relpowp_Suc_E)
  note Z = Suc.IH [OF z(1)]
  have lt: "u mod n < n" using n by simp
  show ?case
  proof (cases "Suc (u mod n) = n")
    case True
    then have "asleep_for i 1 (fst z)" using Z by (metis Suc_diff_le diff_self_eq_0 lt le_refl less_imp_le_nat of_nat_1 One_nat_def diff_Suc_Suc Suc_diff_Suc)
    then show ?thesis
      using cycle_due [OF p _ _ _ z(2)] Z True by (simp add: mod_Suc div_Suc)
  next
    case False
    then have k: "1 < int (n - u mod n)" "int (n - u mod n) - 1 = int (n - Suc (u mod n))" using lt by simp_all
    have "orderly (fst y) \<and> sole i f (fst y) \<and> asleep_for i (int (n - Suc (u mod n))) (fst y) \<and>
        runs (snd y) = runs (snd z)"
      using cycle_asleep [OF p _ _ _ k(1) z(2)] Z unfolding k(2) by blast
    then show ?thesis using Z False by (simp only: mod_Suc div_Suc if_False) simp
  qed
qed

section \<open>The kernel\<close>

lemma orderly_machine_of:
  assumes inv: "sched_inv s"
  shows "orderly (machine_of s)"
proof -
  note I = sched_invD [OF inv] and J = machine_of_jobs [OF inv]
  obtain L where L: "ready_line (machine_of s) = L" "rq_list s = map int L"
    using that [OF refl rq_list_line [OF inv]] .
  have d: "distinct L" using I(6) by (simp add: L(2) distinct_map)
  have r: "j \<in> set L \<longleftrightarrow> j < task_count s \<and> state (tcb s j) = TASK_READY" for j
  proof -
    have "j \<in> set L \<longleftrightarrow> int j \<in> set (rq_list s)" unfolding L(2) by auto
    then show ?thesis using I(7) by simp
  qed
  have st: "j_state (jobs (machine_of s) ! j) = state (tcb s j)" if "j < task_count s" for j
    by (simp only: J(2) [OF that] job_of_fields)
  have c: "c < task_count s" if "current (machine_of s) = Some c" for c
    using that by (simp add: rtos_current_task_Some del: machine_of_fields(1,2))
  have "set L = {j. j < task_count s \<and> j_state (jobs (machine_of s) ! j) = TASK_READY}"
    by (intro set_eqI) (simp only: r mem_Collect_eq st cong: conj_cong)
  with d c show ?thesis unfolding orderly_def J(1) L(1) by blast
qed

lemma sole_machine_of:
  assumes inv: "sched_inv s" and "i < task_count s"
    and "\<forall>j<task_count s. j \<noteq> i \<longrightarrow> priority (tcb s j) < priority (tcb s i) \<and> task_function (tcb s j) \<noteq> task_function (tcb s i)"
  shows "sole i (task_function (tcb s i)) (machine_of s)"
  using assms machine_of_jobs [OF inv] by (simp add: sole_def del: machine_of_fields)

lemma asleep_machine_of:
  assumes "i < length (jobs (machine_of s))" and "asleep_for i k (machine_of s)"
  shows "state (tcb s i) = TASK_BLOCKED" and "block_reason (tcb s i) = BLOCK_SLEEP" and "sleep_ticks (tcb s i) = k"
  using assms by (simp_all add: asleep_for_def waits_def)

section \<open>Properties\<close>

text \<open>
  C6: A periodic task runs on time. Let a ready task of priority greater than all others,
  whose function no other task has, put itself to sleep for \<open>n\<close> ticks each time it runs, the functions of the others leave it alone while it sleeps, and the
  callbacks also while it is ready. Then, whatever else they do, it runs at the first tick and at every \<open>n\<close>-th
  from there, never earlier and never later: after \<open>T\<close> ticks it has been called \<open>(T - 1) div n + 1\<close>
  times and has \<open>n - (T - 1) mod n\<close> ticks left to sleep.
\<close>

theorem periodic_task_on_time:
  assumes "simulated app app_inv data_of task_may callback_may"
    and "periodic task_may callback_may runs i (task_function (tcb s i)) (int n)" and "0 < n"
    and "kernel_inv s" and "no_running s" and "app_inv (9 * nat T) s" and "0 < T"
    and "i < task_count s" and "state (tcb s i) = TASK_READY"
    and "\<forall>j<task_count s. j \<noteq> i \<longrightarrow> priority (tcb s j) < priority (tcb s i) \<and> task_function (tcb s j) \<noteq> task_function (tcb s i)"
  shows "returns (scheduler_run app T s) (\<lambda>s'.
    runs (data_of (kernel.more s')) = runs (data_of (kernel.more s)) + (T - 1) div int n + 1 \<and>
    state (tcb s' i) = TASK_BLOCKED \<and> block_reason (tcb s' i) = BLOCK_SLEEP \<and>
    sleep_ticks (tcb s' i) = int n - (T - 1) mod int n)"
proof (rule returns_mono [OF simulated.run_within [OF assms(1,4-6)]])
  fix s'
  assume run: "(cycle_move task_may callback_may ^^ nat T) (simulated.view data_of s) (simulated.view data_of s')"
  let ?f = "task_function (tcb s i)" and ?u = "nat (T - 1)"
  have T: "nat T = Suc ?u" "int ?u = T - 1" using assms(7) by simp_all
  note S = kernel_invD(1) [OF assms(4)]
  have x: "orderly (machine_of s)" "sole i ?f (machine_of s)" "is_awake i (machine_of s)"
    using orderly_machine_of [OF S] sole_machine_of [OF S assms(8,10)] machine_of_jobs(2) [OF S assms(8)] assms(9)
    by (simp_all add: is_awake_def del: machine_of_fields)
  have "sole i ?f (machine_of s') \<and> asleep_for i (int (n - ?u mod n)) (machine_of s') \<and>
      runs (data_of (kernel.more s')) = runs (data_of (kernel.more s)) + int (?u div n) + 1"
    using cycles_on_time [OF assms(2,3) _ _ _ run [unfolded T(1)]] x
    by (simp add: simulated.view_def [OF assms(1)] del: machine_of_fields)
  then have r: "asleep_for i (int (n - ?u mod n)) (machine_of s')" "i < length (jobs (machine_of s'))"
    "runs (data_of (kernel.more s')) = runs (data_of (kernel.more s)) + (T - 1) div int n + 1"
    using assms(7) by (simp_all add: sole_def zdiv_int T(2) del: machine_of_fields)
  have "int (n - ?u mod n) = int n - (T - 1) mod int n" using assms(3,7) by (simp add: of_nat_diff zmod_int T(2) less_imp_le)
  with r(3) asleep_machine_of [OF r(2,1)]
  show "runs (data_of (kernel.more s')) = runs (data_of (kernel.more s)) + (T - 1) div int n + 1 \<and>
    state (tcb s' i) = TASK_BLOCKED \<and> block_reason (tcb s' i) = BLOCK_SLEEP \<and>
    sleep_ticks (tcb s' i) = int n - (T - 1) mod int n"
    by simp
qed

text \<open>
  The blocking task of the tests sleeps 3 ticks each time; with the fallback task beside it, ten ticks call it at
  ticks 1, 4, 7 and 10.
\<close>

lemma nap_asleep:
  assumes "orderly m" and "sole i f m" and "current m = Some i"
  shows "orderly (nap n m)" and "sole i f (nap n m)" and "asleep_for i n (nap n m)"
proof -
  let ?m = "m\<lparr>jobs := (jobs m)[i := (jobs m ! i)\<lparr>j_sleep := n\<rparr>]\<rparr>"
  have i: "i < length (jobs m)" using assms(2) by (simp add: sole_def)
  have n: "nap n m = move i TASK_BLOCKED BLOCK_SLEEP ?m" by (simp add: nap_def assms(3))
  have "orderly ?m" using assms(1) by (rule orderly_updates) simp
  then show "orderly (nap n m)" using i by (simp add: n orderly_move)
  have "sole i f ?m = sole i f m" by (rule sole_cong) (simp add: map_update_same)
  then show "sole i f (nap n m)" using assms(2) by (simp add: n)
  show "asleep_for i n (nap n m)" using i by (simp add: n asleep_for_def move_def waits_def enter_state_def)
qed

lemma blocking_periodic:
  "periodic (\<lambda>f x y. y = test_spec f x) (\<lambda>f a x y. y = x) blocked_runs i blocking_fn 3"
proof -
  have other: "fst (test_spec g (m, d)) = m" "blocked_runs (snd (test_spec g (m, d))) = blocked_runs d"
    if "g \<noteq> blocking_fn" for g m d
    using that by (simp_all add: test_spec_def)
  show ?thesis
    unfolding periodic_def
    by (auto simp: test_spec_eqs nap_asleep spares_refl) (simp add: spares_def other)
qed

theorem periodic_task_on_time_witness:
  "\<exists>s s'. rtos_run test_app 10 s = Inr s' \<and> blocked_runs (tvars s) = 0 \<and> blocked_runs (tvars s') = 4 \<and>
     sleep_ticks (tcb s' 0) = 3"
proof -
  let ?s0 = "rtos_init (reset_counters (test_boot 4096))" and ?b = "test_boot 4096"
  have st: "test_statics ?b"
    using statics_shape_boot [of 4096] by (simp_all add: test_statics_def test_boot_def) (simp_all add: boot_def)
  note p0 = test_init [OF st]
  obtain s1 where p1: "prepared 100 (spawn blocking_fn 2 (new_machine ?b)) (cleared ?b) s1"
    by (rule test_create [OF p0, of blocking_fn "''Blocking Task''" 2]) (simp_all add: new_machine_def)
  obtain s where p: "prepared 100 (spawn fallback_fn 1 (spawn blocking_fn 2 (new_machine ?b))) (cleared ?b) s"
    by (rule test_create [OF p1, of fallback_fn "''Fallback Task''" 1]) (simp_all add: new_machine_def spawn_def)
  have k: "kernel_inv s" "no_running s" "test_inv (10 + 9 * nat 10) s" and v: "tvars s = cleared ?b"
    and m: "machine_of s = spawn fallback_fn 1 (spawn blocking_fn 2 (new_machine ?b))"
    using p by (simp_all add: prepared_def)
  have q: "test_inv (9 * nat 10) s" by (rule tests.weaken_add [OF k(3)])
  note S = kernel_invD(1) [OF k(1)]
  have js: "jobs (machine_of s) = [new_job blocking_fn 2, new_job fallback_fn 1]"
    by (simp add: m spawn_def new_machine_def del: machine_of_fields)
  have tc: "task_count s = 2" using machine_of_jobs(1) [OF S] by (simp add: js del: machine_of_fields)
  have j: "job_of (tcb s 0) = new_job blocking_fn 2" "job_of (tcb s 1) = new_job fallback_fn 1"
    using machine_of_jobs(2) [OF S, of 0] machine_of_jobs(2) [OF S, of 1] by (simp_all add: js tc del: machine_of_fields)
  have t: "task_function (tcb s 0) = blocking_fn" "state (tcb s 0) = TASK_READY" "priority (tcb s 0) = 2"
    "task_function (tcb s 1) = fallback_fn" "priority (tcb s 1) = 1"
    using j by (simp_all add: job_of_def new_job_def)
  have "returns (scheduler_run test_app 10 s) (\<lambda>s'. blocked_runs (tvars s') = blocked_runs (tvars s) + (10 - 1) div int 3 + 1 \<and>
      state (tcb s' 0) = TASK_BLOCKED \<and> block_reason (tcb s' 0) = BLOCK_SLEEP \<and> sleep_ticks (tcb s' 0) = int 3 - (10 - 1) mod int 3)"
  proof (rule periodic_task_on_time [OF test_machine.simulated_axioms _ _ k(1,2) q])
    show "periodic (\<lambda>f x y. y = test_spec f x) (\<lambda>f a x y. y = x) blocked_runs 0 (task_function (tcb s 0)) (int 3)"
      using blocking_periodic by (simp add: t(1))
    have "j = 1" if "j < task_count s" "j \<noteq> 0" for j using that by (simp add: tc)
    moreover have fns: "fallback_fn \<noteq> blocking_fn" by (simp add: fn_defs)
    ultimately show "\<forall>j<task_count s. j \<noteq> 0 \<longrightarrow> priority (tcb s j) < priority (tcb s 0) \<and> task_function (tcb s j) \<noteq> task_function (tcb s 0)"
      by (metis t(1,3,4,5) fns one_less_numeral_iff semiring_norm(76))
  qed (simp_all add: tc t(2))
  then obtain s' where r: "scheduler_run test_app 10 s = Inr s'"
    "blocked_runs (tvars s') = blocked_runs (cleared ?b) + 4 \<and> sleep_ticks (tcb s' 0) = 3"
    unfolding v by (auto elim!: returnsE)
  have "blocked_runs (cleared ?b) = 0" by (simp add: cleared_def)
  with r show ?thesis by (intro exI [of _ s] exI [of _ s']) (simp add: rtos_run_def v)
qed

end
