(* ===== verification/Spec2Isabelle.thy ===== *)
theory Spec2Isabelle
  imports Pool_Client Selection Event_Protocol Demo_Schedule Real_Time
begin

text \<open>
  Mini RTOS simulator: a verification library for the C99 kernel under \<open>src/src\<close> and
  \<open>src/include\<close>.

  \<^bold>\<open>The program.\<close> A cooperative kernel simulated on a host. \<open>rtos.c\<close> owns the task table and
  the public API; \<open>scheduler.c\<close> the ready queue, every change of a task's state and the
  scheduling loop; \<open>timer.c\<close> the clock, the sleepers and a pool of software timers; \<open>context.c\<close>
  a simulated register file; \<open>memory.c\<close> a pool of fixed blocks with an embedded free list;
  \<open>event.c\<close> event flags; \<open>main.c\<close> a demo with three tasks. A task is a function that is called
  from its beginning each time the task is scheduled; a blocking call marks the task blocked and
  returns false, and the function is expected to return.

  \<^bold>\<open>The theories\<close>, in the order of import:
  \<^item> \<open>Prelude\<close>: faults (\<open>fault\<close>), results (\<open>res\<close>, \<open>bindr\<close>, \<open>returns\<close>), \<open>int\<close> arithmetic with
    its overflow (\<open>c_int\<close>) and narrowing (\<open>to_int\<close>), C's counting loops (\<open>for_range\<close>,
    \<open>loop_range\<close>), lists.
  \<^item> \<open>Cpu_Context\<close> (\<open>context.c\<close>): the contexts as a store with the pointers null, active and
    per task; switching exchanges registers and loses none.
  \<^item> \<open>Memory_Pool\<close> (\<open>memory.c\<close>): the pool byte by byte; the free list is a chain of links read
    with \<open>memcpy\<close> from the blocks. The invariant \<open>pool_inv\<close> holds after every sequence of
    client steps (\<open>pool_step\<close>).
  \<^item> \<open>Pool_Client\<close>: a client of the pool (\<open>call_pool\<close>), and the abstract allocator (\<open>heap\<close>, a
    stack of spare blocks and the bytes written) that the pool implements call by call.
  \<^item> \<open>Kernel_State\<close> (\<open>rtos.h\<close>, \<open>timer.h\<close>, the static variables): the types, the record
    \<open>kernel\<close> with one field per static variable, \<open>uart_log\<close>, and the record \<open>app\<close> of the
    functions an application registers, looked up by address. The \<open>more\<close> part of the record is
    the application's own data.
  \<^item> \<open>Ready_Queue\<close> (\<open>scheduler.c\<close>): the array queue, its loops one for one; it implements a
    list (\<open>rq_list\<close>).
  \<^item> \<open>Task_State\<close> (\<open>scheduler.c\<close>): \<open>scheduler_set_task_state\<close> and \<open>scheduler_unblock_one\<close>, the
    scheduler's invariant \<open>sched_inv\<close>: the ready queue holds exactly the READY tasks, once
    each; a task has a block reason exactly when it is BLOCKED; only the current task can run.
  \<^item> \<open>Selection\<close> (\<open>scheduler.c\<close>): the scan of the ready queue and the search for a waiter as minima of
    one linear order on pairs of a priority and a place (\<open>rank\<close>).
  \<^item> \<open>Soft_Timer\<close> (\<open>timer.c\<close>): clock, sleepers, software timers and their callbacks.
  \<^item> \<open>Dispatch\<close> (\<open>scheduler.c\<close>): the scheduling loop; which task a tick runs, what happens to
    the contexts, and the rotation among equal priorities.
  \<^item> \<open>Kernel_Inv\<close>: the invariant of the whole state \<open>kernel_inv\<close>, and the contract \<open>api_ok\<close>
    that each API call is proved to keep.
  \<^item> \<open>Rtos_Core\<close> (\<open>rtos.c\<close>): initialisation, tasks, sleep, suspend, resume, the getters.
  \<^item> \<open>Sync\<close> (\<open>rtos.c\<close>): semaphores, mutexes and message queues. The ring buffer is an
    interpretation of the locale \<open>bounded_fifo\<close>.
  \<^item> \<open>Event_Flags\<close> (\<open>event.c\<close>): flags, the table of waiters, and the scan that wakes them.
  \<^item> \<open>App_Contract\<close>: application code as sequences of API calls (\<open>api_step\<close>), and the locale
    \<open>application\<close>, in which the loop is proved never to fault under any application that
    keeps the contract.
  \<^item> \<open>Protocols\<close>: what semaphores, mutexes and queues guarantee under any interleaving of the
    tasks' calls (\<open>sem_step\<close>, \<open>lock_step\<close>, \<open>queue_step\<close>), with anything that keeps the invariant in
    between. The locale \<open>waiting_room\<close> carries the argument that no wake-up is lost; the mutex, the
    semaphore and both ends of the queue are its interpretations.
  \<^item> \<open>Event_Protocol\<close>: the same for event flags (\<open>event_step\<close>): how often each flag was raised and
    consumed, and the table of waiters against the blocked tasks.
  \<^item> \<open>Sched_Spec\<close>: an abstract scheduler (\<open>spec_cycle\<close>) on a \<open>machine\<close> of jobs and alarms, without
    arrays, contexts or faults; the function \<open>machine_of\<close> from kernel states to machines; the
    locale \<open>simulated\<close> for tasks and timer callbacks specified by relations (\<open>cycle_move\<close>), and its
    special case \<open>specified\<close> for functions, in which the scheduling loop, software timers
    included, is proved to implement the abstract cycle tick for tick.
  \<^item> \<open>Api_Spec\<close>: each API call as one of the operations \<open>machine_step\<close> of the abstract machine. So
    every \<open>application\<close> is \<open>simulated\<close>, whatever its tasks do.
  \<^item> \<open>Console\<close> (\<open>uart_log\<close> and its calls in all modules): the format strings with their
    arguments, and \<open>printf\<close> for the conversions used.
  \<^item> \<open>Demo\<close> (\<open>main.c\<close>): the demo, an interpretation of \<open>application\<close> and of \<open>specified\<close>.
  \<^item> \<open>Demo_Schedule\<close>: the demo's cycle of six ticks as an induction on the specification, and
    from it the whole output for any number of ticks in closed form (\<open>demo_log\<close>) and, for the 25
    ticks of \<open>main\<close>, character for character.
  \<^item> \<open>Unit_Tests\<close> (\<open>tests/test_states.c\<close>): the test program, its task functions again an
    application that meets a specification; a failed assertion is a value (\<open>Aborted\<close>).
  \<^item> \<open>Real_Time\<close>: a guarantee for one task under any application. The invariants \<open>orderly\<close>
    and \<open>sole\<close> of the abstract machine and the number of ticks left to sleep are followed through
    a cycle, and the result is carried to the loop by \<open>simulated\<close>.

  \<^bold>\<open>What the lemmas show.\<close> Per component: what each operation does on every branch (the
  theorems \<open>..._spec\<close>), and that it keeps the component's invariant (\<open>sched_inv\<close>, \<open>pool_inv\<close>,
  \<open>kernel_inv\<close>, \<open>ev_ok\<close>, \<open>mq_ok\<close>). Across components: no fault under any application that keeps
  the contract (\<open>scheduler_run_safe\<close>), priority and fairness of the dispatch
  (\<open>dispatch_highest_priority\<close>, \<open>round_robin\<close>), sleepers wake on time (\<open>sleep_wakes_on_time\<close>), a
  periodic task of greatest priority runs at every tick it is due (\<open>periodic_task_on_time\<close>), the
  loop refines the abstract scheduler (\<open>scheduler_refines_spec\<close>, \<open>any_application_refines\<close>), the pool
  the abstract allocator (\<open>memory_pool_refines\<close>), the protocols (\<open>mutual_exclusion\<close>,
  \<open>mutex_no_lost_wakeup\<close>, \<open>semaphore_conserves\<close>, \<open>semaphore_no_lost_wakeup\<close>, \<open>queue_protocol\<close>,
  \<open>event_protocol\<close>), the
  demo's behaviour (\<open>main_runs_safely\<close>, \<open>main_output\<close>, \<open>demo_schedule\<close>), and the tests
  (\<open>unit_tests_pass\<close>). The protocols' theorems on wake-ups suppose that one object is used per block
  reason, because \<open>scheduler_unblock_one\<close> does not look at the object: with two of them,
  \<open>signal_wakes_wrong_object\<close> shows that a signal of the one wakes a task that waits on the other. Some theorems state behaviour of the code that a reader of
  the comments may not expect: \<open>signal_wakes_wrong_object\<close>, \<open>event_rewait_blocks_again\<close>,
  \<open>event_set_ends_suspension\<close>, \<open>one_shot_restart_lost\<close>, \<open>block_index_narrowing\<close>.

  \<^bold>\<open>How the C is read.\<close> A dereference of null, an index out of range, a signed overflow and a
  call of a null function are faults (\<open>Inl\<close>), never skipped; the safety theorems show that they
  do not occur. \<open>uint32_t\<close> and the registers are \<open>32 word\<close>, \<open>int\<close> is HOL's \<open>int\<close> with its
  range checked where the code computes (but for the pool's count of free blocks, which \<open>pool_inv\<close> keeps
  between 0 and 16), and data pointers in the pool are addresses (\<open>int\<close>),
  those to functions \<open>64 word\<close>s. Static pointers that the code only sets once
  (\<open>scheduler_init\<close>, \<open>timer_init\<close>) are the flags \<open>sched_bound\<close> and \<open>timer_bound\<close>. An object
  passed by pointer (semaphore, mutex, queue, event flags) is passed in and returned; the
  callers in the code never pass two pointers to one object.

  \<^bold>\<open>Bounds.\<close> Every loop of the code is bounded by a table size or by \<open>max_ticks\<close>, and modelled
  as structural recursion on that bound; the one loop that changes its own bound, the priority
  scan, is a \<open>function\<close> whose measure is the number of entries left. So no definition uses fuel.
  The first argument of \<open>app_inv\<close> in the locale \<open>application\<close> counts the calls of application
  code still to come; a tick makes at most nine, one per software timer and one of a task, so
  \<open>9 * max_ticks\<close> is enough for a run. The demo's one bound is that of its \<open>int\<close> sample, which goes up
  by 5 every third tick; the tests run at most three ticks, and their counters are given room
  for a hundred calls.

  \<^bold>\<open>Not modelled.\<close> The text of pointers (\<open>%p\<close>, a parameter), the two banner lines of \<open>main\<close>,
  the Makefile and the documents. A task's name is a string: a null name, which \<open>printf\<close> may not be
  given either, is left out. The macros have their default values. Where the compiler and
  the linker decide, the model has a parameter or a choice: the base of the pool, the place of a
  stack in the control blocks (\<open>stack_address\<close>), and the addresses of the functions of the demo
  and the tests, which are distinct and not null.
\<close>

end
